(* ===== verification/Udx_Prelude.thy ===== *)
theory Udx_Prelude
  imports Main "HOL-Library.Word" "HOL-Library.AList"
begin

text \<open>
  Shared ground of the development: the machine integers of the Go sources, byte slices
  with Go's bounds checks, the big-endian accessors of \<^verbatim>\<open>encoding/binary\<close>, errors as values
  of a sum type, and instants and durations of the \<^verbatim>\<open>time\<close> package in nanoseconds.
  An index or slice expression that Go would reject at run time yields \<open>Inl Panic\<close>, so that
  "this parser never panics" is a theorem and not a convention.
\<close>

unbundle bit_operations_syntax

section \<open>Machine integers, results and errors\<close>

type_synonym byte = "8 word"
type_synonym uint8 = "8 word"
type_synonym uint16 = "16 word"
type_synonym uint32 = "32 word"
type_synonym uint64 = "64 word"

text \<open>
  The errors of \<^verbatim>\<open>errors.go\<close> and \<^verbatim>\<open>version.go\<close> that the wire code returns.
  \<open>Panic\<close> is Go's run-time panic (index or slice bounds out of range).
\<close>

datatype go_error =
    ErrPacketTooShort
  | ErrInvalidCIDLength
  | ErrUnknownFrameType
  | ErrNotVersionNegotiation
  | ErrRandFailure
  | Panic

type_synonym 'a result = "go_error + 'a"

definition res_bind :: "'a result \<Rightarrow> ('a \<Rightarrow> 'b result) \<Rightarrow> 'b result" where
  "res_bind r f = (case r of Inl e \<Rightarrow> Inl e | Inr x \<Rightarrow> f x)"

named_theorems go_simps "unfolding of the Go primitives on concrete shapes"
named_theorems wire_simps "reading back what the big-endian writers wrote"

lemma res_bind_simps [simp]:
  "res_bind (Inl e) f = Inl e"
  "res_bind (Inr x) f = f x"
  by (simp_all add: res_bind_def)

lemma res_bind_eq_Inr:
  "res_bind r f = Inr y \<longleftrightarrow> (\<exists>x. r = Inr x \<and> f x = Inr y)"
  by (cases r) simp_all

lemma res_bind_eq_Inl:
  "res_bind r f = Inl e \<longleftrightarrow> r = Inl e \<or> (\<exists>x. r = Inr x \<and> f x = Inl e)"
  by (cases r) simp_all

text \<open>A computation that cannot panic: it returns a value or one of the declared errors.\<close>

definition no_panic :: "'a result \<Rightarrow> bool" where
  "no_panic r \<longleftrightarrow> r \<noteq> Inl Panic"

lemma no_panic_simps [simp]:
  "no_panic (Inr x)"
  "no_panic (Inl e) \<longleftrightarrow> e \<noteq> Panic"
  by (auto simp: no_panic_def)

lemma no_panic_bind:
  assumes "no_panic r" and "\<And>x. r = Inr x \<Longrightarrow> no_panic (f x)"
  shows "no_panic (res_bind r f)"
  using assms by (cases r) simp_all

section \<open>Byte slices: checked reads\<close>

definition rd8 :: "byte list \<Rightarrow> byte result" where
  "rd8 bs = (case bs of b # _ \<Rightarrow> Inr b | [] \<Rightarrow> Inl Panic)"

definition byte_at :: "byte list \<Rightarrow> nat \<Rightarrow> byte result" where
  "byte_at data i = rd8 (drop i data)"

definition slice_range :: "byte list \<Rightarrow> nat \<Rightarrow> nat \<Rightarrow> byte list result" where
  "slice_range data i j =
     (if i \<le> j \<and> j \<le> length data then Inr (take (j - i) (drop i data)) else Inl Panic)"

text \<open>
  \<^verbatim>\<open>binary.BigEndian.Uint16(bs)\<close> and its wider forms panic when \<open>bs\<close> is too short;
  \<open>Uint16 data i\<close> is \<^verbatim>\<open>binary.BigEndian.Uint16(data[i:])\<close>.
\<close>

definition rd16 :: "byte list \<Rightarrow> uint16 result" where
  "rd16 bs = (case bs of
       b0 # b1 # _ \<Rightarrow> Inr (push_bit 8 (ucast b0) OR ucast b1)
     | _ \<Rightarrow> Inl Panic)"

definition rd32 :: "byte list \<Rightarrow> uint32 result" where
  "rd32 bs = (case bs of
       b0 # b1 # b2 # b3 # _ \<Rightarrow>
         Inr (push_bit 24 (ucast b0) OR push_bit 16 (ucast b1) OR push_bit 8 (ucast b2)
              OR ucast b3)
     | _ \<Rightarrow> Inl Panic)"

definition rd64 :: "byte list \<Rightarrow> uint64 result" where
  "rd64 bs = (case bs of
       b0 # b1 # b2 # b3 # b4 # b5 # b6 # b7 # _ \<Rightarrow>
         Inr (push_bit 56 (ucast b0) OR push_bit 48 (ucast b1) OR push_bit 40 (ucast b2)
              OR push_bit 32 (ucast b3) OR push_bit 24 (ucast b4) OR push_bit 16 (ucast b5)
              OR push_bit 8 (ucast b6) OR ucast b7)
     | _ \<Rightarrow> Inl Panic)"

definition Uint16 :: "byte list \<Rightarrow> nat \<Rightarrow> uint16 result" where
  "Uint16 data i = rd16 (drop i data)"

definition Uint32 :: "byte list \<Rightarrow> nat \<Rightarrow> uint32 result" where
  "Uint32 data i = rd32 (drop i data)"

definition Uint64 :: "byte list \<Rightarrow> nat \<Rightarrow> uint64 result" where
  "Uint64 data i = rd64 (drop i data)"

text \<open>The bytes that \<^verbatim>\<open>PutUint16\<close>, \<^verbatim>\<open>PutUint32\<close> and \<^verbatim>\<open>PutUint64\<close> store.\<close>

definition be16 :: "uint16 \<Rightarrow> byte list" where
  "be16 v = [ucast (drop_bit 8 v), ucast v]"

definition be32 :: "uint32 \<Rightarrow> byte list" where
  "be32 v = [ucast (drop_bit 24 v), ucast (drop_bit 16 v), ucast (drop_bit 8 v), ucast v]"

definition be64 :: "uint64 \<Rightarrow> byte list" where
  "be64 v = [ucast (drop_bit 56 v), ucast (drop_bit 48 v), ucast (drop_bit 40 v),
             ucast (drop_bit 32 v), ucast (drop_bit 24 v), ucast (drop_bit 16 v),
             ucast (drop_bit 8 v), ucast v]"

lemma length_be [simp]: "length (be16 v) = 2" "length (be32 w) = 4" "length (be64 x) = 8"
  by (simp_all add: be16_def be32_def be64_def)

lemma bit_lane:
  fixes v :: "'a::len word"
  assumes "n < LENGTH('a)"
  shows "bit (push_bit k (ucast (ucast (drop_bit k v) :: byte)) :: 'a word) n
           \<longleftrightarrow> k \<le> n \<and> n < k + 8 \<and> bit v n"
  using assms by (auto simp: bit_simps)

lemma bit_lane0:
  fixes v :: "'a::len word"
  assumes "n < LENGTH('a)"
  shows "bit (ucast (ucast v :: byte) :: 'a word) n \<longleftrightarrow> n < 8 \<and> bit v n"
  using assms by (auto simp: bit_simps)

lemma be16_join:
  fixes v :: uint16
  shows "push_bit 8 (ucast (ucast (drop_bit 8 v) :: byte)) OR ucast (ucast v :: byte) = v"
  by (rule bit_word_eqI) (auto simp: bit_or_iff bit_lane bit_lane0)

lemma be32_join:
  fixes v :: uint32
  shows "push_bit 24 (ucast (ucast (drop_bit 24 v) :: byte))
      OR push_bit 16 (ucast (ucast (drop_bit 16 v) :: byte))
      OR push_bit 8 (ucast (ucast (drop_bit 8 v) :: byte)) OR ucast (ucast v :: byte) = v"
  by (rule bit_word_eqI) (auto simp: bit_or_iff bit_lane bit_lane0)

lemma be64_join:
  fixes v :: uint64
  shows "push_bit 56 (ucast (ucast (drop_bit 56 v) :: byte))
      OR push_bit 48 (ucast (ucast (drop_bit 48 v) :: byte))
      OR push_bit 40 (ucast (ucast (drop_bit 40 v) :: byte))
      OR push_bit 32 (ucast (ucast (drop_bit 32 v) :: byte))
      OR push_bit 24 (ucast (ucast (drop_bit 24 v) :: byte))
      OR push_bit 16 (ucast (ucast (drop_bit 16 v) :: byte))
      OR push_bit 8 (ucast (ucast (drop_bit 8 v) :: byte)) OR ucast (ucast v :: byte) = v"
  by (rule bit_word_eqI) (auto simp: bit_or_iff bit_lane bit_lane0)

text \<open>What was written is read back, whatever follows.\<close>

lemma rd8_Cons [wire_simps]: "rd8 (b # rest) = Inr b"
  by (simp add: rd8_def)

lemma rd16_be16 [wire_simps]: "rd16 (be16 v @ rest) = Inr v"
  by (simp add: rd16_def be16_def be16_join)

lemma rd32_be32 [wire_simps]: "rd32 (be32 v @ rest) = Inr v"
  by (simp add: rd32_def be32_def be32_join)

lemma rd64_be64 [wire_simps]: "rd64 (be64 v @ rest) = Inr v"
  by (simp add: rd64_def be64_def be64_join)

lemmas rd_be_end [wire_simps] =
  rd16_be16 [of _ "[]", simplified] rd32_be32 [of _ "[]", simplified]
  rd64_be64 [of _ "[]", simplified]

lemmas read_defs [wire_simps] = byte_at_def Uint16_def Uint32_def Uint64_def

lemma drop_shift: "drop off data = xs \<Longrightarrow> drop (off + k) data = drop k xs"
  by (metis add.commute drop_drop)

lemma drop_nonempty_length:
  "drop off data = xs \<Longrightarrow> xs \<noteq> [] \<Longrightarrow> length data = off + length xs"
  by auto

text \<open>In range, the checked reads do not panic.\<close>

lemma byte_at_ok: "i < length data \<Longrightarrow> byte_at data i = Inr (data ! i)"
  by (simp add: byte_at_def rd8_def Cons_nth_drop_Suc [symmetric])

lemma drop_eq_Cons: "i < length data \<Longrightarrow> drop i data = data ! i # drop (Suc i) data"
  by (simp add: Cons_nth_drop_Suc)

lemma Uint16_ok: "i + 2 \<le> length data \<Longrightarrow> \<exists>v. Uint16 data i = Inr v"
  by (simp add: Uint16_def rd16_def drop_eq_Cons)

lemma Uint32_ok: "i + 4 \<le> length data \<Longrightarrow> \<exists>v. Uint32 data i = Inr v"
  by (simp add: Uint32_def rd32_def drop_eq_Cons)

lemma Uint64_ok: "i + 8 \<le> length data \<Longrightarrow> \<exists>v. Uint64 data i = Inr v"
  by (simp add: Uint64_def rd64_def drop_eq_Cons)

lemma slice_range_ok:
  "i \<le> j \<Longrightarrow> j \<le> length data \<Longrightarrow> slice_range data i j = Inr (take (j - i) (drop i data))"
  by (simp add: slice_range_def)

lemma slice_range_length: "slice_range data i j = Inr xs \<Longrightarrow> length xs = j - i"
  by (auto simp: slice_range_def split: if_splits)

lemma no_panic_reads:
  "i < length data \<Longrightarrow> no_panic (byte_at data i)"
  "i + 2 \<le> length data \<Longrightarrow> no_panic (Uint16 data i)"
  "i + 4 \<le> length data \<Longrightarrow> no_panic (Uint32 data i)"
  "i + 8 \<le> length data \<Longrightarrow> no_panic (Uint64 data i)"
  "i \<le> j \<Longrightarrow> j \<le> length data \<Longrightarrow> no_panic (slice_range data i j)"
  using Uint16_ok [of i data] Uint32_ok [of i data] Uint64_ok [of i data]
  by (auto simp: byte_at_ok slice_range_ok)

section \<open>Byte slices: writes into a buffer\<close>

text \<open>
  A serialiser allocates a zeroed buffer and writes into it. \<open>Put off bs\<close> stands for an
  indexed store or a \<^verbatim>\<open>PutUint\<close> call, which panics when the bytes do not fit;
  \<open>Copy off bs\<close> for \<^verbatim>\<open>copy(buf[off:], bs)\<close>, which stores what fits and panics only when
  the slice expression does.
\<close>

datatype go_write = Put nat "byte list" | Copy nat "byte list"

fun do_write :: "go_write \<Rightarrow> byte list \<Rightarrow> byte list result" where
  "do_write (Put off bs) buf =
     (if off + length bs \<le> length buf
      then Inr (take off buf @ bs @ drop (off + length bs) buf) else Inl Panic)"
| "do_write (Copy off bs) buf =
     (if off \<le> length buf
      then (let bs' = take (length buf - off) bs
            in Inr (take off buf @ bs' @ drop (off + length bs') buf)) else Inl Panic)"

fun do_writes :: "go_write list \<Rightarrow> byte list \<Rightarrow> byte list result" where
  "do_writes [] buf = Inr buf"
| "do_writes (w # ws) buf = res_bind (do_write w buf) (do_writes ws)"

fun write_bytes :: "go_write \<Rightarrow> byte list" where
  "write_bytes (Put off bs) = bs"
| "write_bytes (Copy off bs) = bs"

fun write_off :: "go_write \<Rightarrow> nat" where
  "write_off (Put off bs) = off"
| "write_off (Copy off bs) = off"

text \<open>Writes that follow one another without a hole, from offset \<open>off\<close> on.\<close>

fun contiguous :: "nat \<Rightarrow> go_write list \<Rightarrow> bool" where
  "contiguous off [] \<longleftrightarrow> True"
| "contiguous off (w # ws) \<longleftrightarrow>
     write_off w = off \<and> contiguous (off + length (write_bytes w)) ws"

definition written :: "go_write list \<Rightarrow> byte list" where
  "written ws = concat (map write_bytes ws)"

lemma written_simps [simp]:
  "written [] = []"
  "written (w # ws) = write_bytes w @ written ws"
  "written (ws @ vs) = written ws @ written vs"
  by (simp_all add: written_def)

lemma contiguous_append [simp]:
  "contiguous off (ws @ vs) \<longleftrightarrow>
     contiguous off ws \<and> contiguous (off + length (written ws)) vs"
  by (induction ws arbitrary: off) (auto simp: add.assoc)

lemma do_write_fits:
  assumes "write_off w + length (write_bytes w) \<le> length buf"
  shows "do_write w buf = Inr (take (write_off w) buf @ write_bytes w
           @ drop (write_off w + length (write_bytes w)) buf)"
  using assms by (cases w) (simp_all add: Let_def)

lemma do_writes_append:
  "do_writes (ws @ vs) buf = res_bind (do_writes ws buf) (do_writes vs)"
  by (induction ws arbitrary: buf) (simp_all add: res_bind_def split: sum.splits)

text \<open>
  Contiguous writes that fit leave exactly their bytes, one after the other, between the
  untouched ends of the buffer.
\<close>

lemma do_writes_contiguous:
  assumes "contiguous off ws" and "off + length (written ws) \<le> length buf"
  shows "do_writes ws buf =
           Inr (take off buf @ written ws @ drop (off + length (written ws)) buf)"
  using assms
proof (induction ws arbitrary: off buf)
  case Nil
  then show ?case by simp
next
  case (Cons w ws)
  let ?buf = "take off buf @ write_bytes w @ drop (off + length (write_bytes w)) buf"
  let ?off = "off + length (write_bytes w)"
  have w: "do_write w buf = Inr ?buf"
    using Cons.prems do_write_fits [of w buf] by simp
  have "do_writes ws ?buf =
      Inr (take ?off ?buf @ written ws @ drop (?off + length (written ws)) ?buf)"
    using Cons.prems by (intro Cons.IH) simp_all
  then show ?case using w Cons.prems by (simp add: ac_simps)
qed

lemma do_writes_fill:
  assumes "contiguous 0 ws" and "length (written ws) = n"
  shows "do_writes ws (replicate n 0) = Inr (written ws)"
  using do_writes_contiguous [OF assms(1), of "replicate n 0"] assms(2) by simp

section \<open>Instants and durations\<close>

text \<open>
  \<^verbatim>\<open>time.Time\<close> is a number of nanoseconds since the zero instant, so \<^verbatim>\<open>IsZero\<close> is \<open>t = 0\<close>;
  \<^verbatim>\<open>time.Duration\<close> is a signed number of nanoseconds. \<^verbatim>\<open>Time.Sub\<close> saturates at the range of
  an \<^verbatim>\<open>int64\<close>. Go's integer division truncates towards zero.
\<close>

type_synonym time = int
type_synonym duration = int

definition maxDuration :: duration where
  "maxDuration = 2 ^ 63 - 1"

definition minDuration :: duration where
  "minDuration = - (2 ^ 63)"

definition time_sub :: "time \<Rightarrow> time \<Rightarrow> duration" where
  "time_sub t u = max minDuration (min maxDuration (t - u))"

definition go_div :: "int \<Rightarrow> int \<Rightarrow> int" where
  "go_div a b = (if 0 \<le> a \<longleftrightarrow> 0 \<le> b then \<bar>a\<bar> div \<bar>b\<bar> else - (\<bar>a\<bar> div \<bar>b\<bar>))"

abbreviation millisecond :: duration where
  "millisecond \<equiv> 1000000"

abbreviation second :: duration where
  "second \<equiv> 1000000000"

lemma go_div_nonneg: "0 \<le> a \<Longrightarrow> 0 < b \<Longrightarrow> go_div a b = a div b"
  by (simp add: go_div_def)

lemma go_div_bounds: "0 \<le> a \<Longrightarrow> 0 < b \<Longrightarrow> 0 \<le> go_div a b \<and> go_div a b \<le> a"
  by (auto simp: go_div_nonneg pos_imp_zdiv_nonneg_iff div_by_1 intro: zdiv_mono2 [of a 1 b, simplified])

lemma time_sub_exact: "\<bar>t - u\<bar> \<le> maxDuration \<Longrightarrow> time_sub t u = t - u"
  by (auto simp: time_sub_def minDuration_def maxDuration_def)

text \<open>Go's \<^verbatim>\<open>int\<close> and \<^verbatim>\<open>int64\<close> arithmetic wraps: \<open>wrap64\<close> where that can matter.\<close>

definition wrap64 :: "int \<Rightarrow> int" where
  "wrap64 x = (x + 2 ^ 63) mod 2 ^ 64 - 2 ^ 63"

lemma wrap64_id: "- (2 ^ 63) \<le> x \<Longrightarrow> x < 2 ^ 63 \<Longrightarrow> wrap64 x = x"
  by (simp add: wrap64_def)

section \<open>Words as naturals\<close>

lemma unat_of_nat_less: "n < 2 ^ LENGTH('a) \<Longrightarrow> unat (of_nat n :: 'a::len word) = n"
  by (simp add: unsigned_of_nat take_bit_nat_eq_self)

lemma unat_inject: "unat x = unat y \<longleftrightarrow> x = y" for x y :: "'a::len word"
  by (simp add: word_eq_iff_unsigned [where ?'a = nat])

lemma unat_minus_le: "y \<le> x \<Longrightarrow> unat (x - y) = unat x - unat y" for x y :: "'a::len word"
  by (rule unat_sub)

lemma unat_less_2p: "unat (x :: 'a::len word) < 2 ^ LENGTH('a)"
  by (rule unsigned_less)

lemma unat_plus_one:
  "Suc (unat x) < 2 ^ LENGTH('a) \<Longrightarrow> unat (x + 1) = Suc (unat x)" for x :: "'a::len word"
  using unat_of_nat_less [of "Suc (unat x)", where ?'a = 'a] by (simp add: add.commute)

lemma unat_plus_one_less: "x < y \<Longrightarrow> unat (x + 1) = Suc (unat x)" for x y :: "'a::len word"
  by (rule unat_plus_one) (meson Suc_leI le_less_trans unat_less_2p word_less_nat_alt)

lemma unat_minus_one_pos: "x \<noteq> 0 \<Longrightarrow> unat (x - 1) = unat x - 1" for x :: "'a::len word"
  using unat_minus_le [of 1 x] by (simp add: word_le_nat_alt unat_gt_0 Suc_leI)

lemma mod_distinct: "a < b \<Longrightarrow> b - a < m \<Longrightarrow> a mod m \<noteq> b mod m" for a b m :: nat
  by (metis mod_eq_dvd_iff_nat nat_dvd_not_less less_imp_le_nat zero_less_diff)

section \<open>Invariants of runs\<close>

text \<open>What a component with a step relation promises: its invariant survives every step, hence every run.\<close>

locale preserved =
  fixes step :: "'s \<Rightarrow> 's \<Rightarrow> bool" and inv :: "'s \<Rightarrow> bool"
  assumes keep: "step s s' \<Longrightarrow> inv s \<Longrightarrow> inv s'"
begin

lemma run: "step\<^sup>*\<^sup>* s s' \<Longrightarrow> inv s \<Longrightarrow> inv s'"
  by (induction rule: rtranclp_induct) (blast intro: keep)+

end

end
