(* ===== verification/Udx_Constants.thy ===== *)
theory Udx_Constants
  imports Udx_Prelude
begin

text \<open>
  The protocol parameters of \<^verbatim>\<open>constants.go\<close> that the modelled code reads, under their Go
  names. Sizes that index byte slices are naturals, sizes that enter signed arithmetic and
  durations (in nanoseconds) are integers. They unfold by simplification.
\<close>

section \<open>Connection IDs and versions\<close>

definition MinCIDLength :: nat where [simp]: "MinCIDLength = 0"
definition MaxCIDLength :: nat where [simp]: "MaxCIDLength = 20"
definition DefaultCIDLength :: nat where [simp]: "DefaultCIDLength = 8"
definition StatelessResetTokenLength :: nat where [simp]: "StatelessResetTokenLength = 16"

definition VersionV1 :: uint32 where [simp]: "VersionV1 = 1"
definition VersionV2 :: uint32 where [simp]: "VersionV2 = 2"
definition VersionV3 :: uint32 where [simp]: "VersionV3 = 3"
definition VersionCurrent :: uint32 where [simp]: "VersionCurrent = VersionV3"

section \<open>Transport parameters\<close>

definition InitialMaxData :: int where [simp]: "InitialMaxData = 1024 * 1024"
definition InitialMaxStreamData :: int where [simp]: "InitialMaxStreamData = 65536"
definition MaxStreamRecvWindow :: int where [simp]: "MaxStreamRecvWindow = 4 * 2 ^ 20"
definition maxStreamRecvOOO :: int where [simp]: "maxStreamRecvOOO = 2 * MaxStreamRecvWindow"
definition InitialMaxStreams :: int where [simp]: "InitialMaxStreams = 100"
definition ackHistory :: nat where [simp]: "ackHistory = 512"
definition sendBatchMax :: int where [simp]: "sendBatchMax = 16"
definition MaxAckDelay :: duration where [simp]: "MaxAckDelay = 25 * millisecond"

section \<open>Error codes\<close>

definition ErrorNoError :: uint32 where [simp]: "ErrorNoError = 0"
definition ErrorFlowControlError :: uint32 where [simp]: "ErrorFlowControlError = 3"
definition ErrorConnectionTimeout :: uint32 where [simp]: "ErrorConnectionTimeout = 6"

section \<open>Datagram sizes and path MTU discovery\<close>

definition SafeDatagramSize :: int where [simp]: "SafeDatagramSize = 1200"
definition MaxDatagramSize :: int where [simp]: "MaxDatagramSize = 1472"
definition MTUProbeTries :: int where [simp]: "MTUProbeTries = 3"
definition MTUSearchStep :: int where [simp]: "MTUSearchStep = 16"
definition BlackholePackets :: int where [simp]: "BlackholePackets = 3"
definition BlackholePTOs :: int where [simp]: "BlackholePTOs = 3"
definition BlackholeRetry :: duration where [simp]: "BlackholeRetry = 60 * second"

section \<open>Loss detection\<close>

definition LossReorderThreshold :: int where [simp]: "LossReorderThreshold = 3"
definition LossTimeThresholdNumerator :: int where [simp]: "LossTimeThresholdNumerator = 9"
definition LossTimeThresholdDenominator :: int where [simp]: "LossTimeThresholdDenominator = 8"
definition LossTimerGranularity :: duration where [simp]: "LossTimerGranularity = millisecond"
definition ptoProbes :: nat where [simp]: "ptoProbes = 2"

section \<open>Congestion control, RTT and pacing\<close>

definition InitialRTT :: duration where [simp]: "InitialRTT = 333 * millisecond"
definition InitialRTTVar :: duration where [simp]: "InitialRTTVar = go_div InitialRTT 2"
definition MinCongestionWindow :: int where [simp]: "MinCongestionWindow = 2 * MaxDatagramSize"
definition InitialCongestionWindow :: int where [simp]: "InitialCongestionWindow = 10 * MaxDatagramSize"
definition InitialCwnd :: int where [simp]: "InitialCwnd = InitialCongestionWindow"
definition MinCwnd :: int where [simp]: "MinCwnd = MinCongestionWindow"
definition PersistentCongestionThreshold :: int where [simp]: "PersistentCongestionThreshold = 3"
definition PacingBurstPackets :: int where [simp]: "PacingBurstPackets = 10"
definition MinPacingDelay :: duration where [simp]: "MinPacingDelay = millisecond"

section \<open>Connections\<close>

definition MaxIdleTimeout :: duration where [simp]: "MaxIdleTimeout = 30 * second"
definition AmplificationFactor :: int where [simp]: "AmplificationFactor = 3"
definition StreamBlockedRetryInterval :: duration where [simp]: "StreamBlockedRetryInterval = 500 * millisecond"
definition sendCreditPollInterval :: duration where [simp]: "sendCreditPollInterval = 5 * millisecond"
definition AckElicitingThreshold :: int where [simp]: "AckElicitingThreshold = 2"
definition MinAckDelay :: duration where [simp]: "MinAckDelay = 1 * millisecond"
definition inboundQueue :: nat where [simp]: "inboundQueue = 512"

end
