(* ===== verification/Udx_Cid.thy ===== *)
theory Udx_Cid
  imports Udx_Constants
begin

text \<open>
  Connection IDs (\<^verbatim>\<open>cid.go\<close>): a fixed array of \<^verbatim>\<open>MaxCIDLength\<close> bytes of which the first
  \<open>cid_len\<close> count. \<open>wf_cid\<close> is the invariant of the type: the array is full-size, the length
  is in range and the tail is zero, which every constructor establishes. The multiplexer
  routes packets by the text form of the destination CID, so the text form must identify the
  CID: \<open>String_eq_iff\<close>.
\<close>

record ConnectionID =
  cid_data :: "byte list"
  cid_len :: nat

definition NewConnectionID :: "byte list \<Rightarrow> ConnectionID result" where
  "NewConnectionID b =
     (if length b < MinCIDLength \<or> length b > MaxCIDLength then Inl ErrInvalidCIDLength
      else Inr \<lparr>cid_data = b @ replicate (MaxCIDLength - length b) 0, cid_len = length b\<rparr>)"

text \<open>
  \<open>rand_Read n\<close> is what \<^verbatim>\<open>crypto/rand.Read\<close> does with a buffer of \<open>n\<close> bytes: fill it, or fail.
\<close>

definition RandomConnectionID :: "(nat \<Rightarrow> byte list option) \<Rightarrow> int \<Rightarrow> ConnectionID result" where
  "RandomConnectionID rand_Read n =
     (if n < int MinCIDLength \<or> n > int MaxCIDLength then Inl ErrInvalidCIDLength
      else if n > 0 then
        (case rand_Read (nat n) of
           None \<Rightarrow> Inl ErrRandFailure
         | Some b \<Rightarrow> Inr \<lparr>cid_data = b @ replicate (MaxCIDLength - nat n) 0, cid_len = nat n\<rparr>)
      else Inr \<lparr>cid_data = replicate MaxCIDLength 0, cid_len = 0\<rparr>)"

definition Len :: "ConnectionID \<Rightarrow> nat" where
  "Len c = cid_len c"

definition Bytes :: "ConnectionID \<Rightarrow> byte list" where
  "Bytes c = take (cid_len c) (cid_data c)"

definition IsZero :: "ConnectionID \<Rightarrow> bool" where
  "IsZero c \<longleftrightarrow> cid_len c = 0"

definition Equal :: "ConnectionID \<Rightarrow> ConnectionID \<Rightarrow> bool" where
  "Equal c other \<longleftrightarrow> cid_len c = cid_len other \<and>
     list_all (\<lambda>i. cid_data c ! i = cid_data other ! i) [0..<cid_len c]"

text \<open>\<^verbatim>\<open>hex.EncodeToString\<close>: two lower-case digits per byte, high nibble first.\<close>

definition hextable :: string where
  "hextable = ''0123456789abcdef''"

fun hex_encode :: "byte list \<Rightarrow> string" where
  "hex_encode [] = []"
| "hex_encode (b # bs) =
     hextable ! unat (drop_bit 4 b) # hextable ! unat (b AND 15) # hex_encode bs"

definition String :: "ConnectionID \<Rightarrow> string" where
  "String c = ''CID('' @ hex_encode (take (cid_len c) (cid_data c)) @ '')''"

section \<open>The type invariant\<close>

definition wf_cid :: "ConnectionID \<Rightarrow> bool" where
  "wf_cid c \<longleftrightarrow> length (cid_data c) = MaxCIDLength \<and> cid_len c \<le> MaxCIDLength \<and>
     drop (cid_len c) (cid_data c) = replicate (MaxCIDLength - cid_len c) 0"

lemma length_Bytes [simp]: "wf_cid c \<Longrightarrow> length (Bytes c) = Len c"
  by (simp add: wf_cid_def Bytes_def Len_def)

lemma Len_le: "wf_cid c \<Longrightarrow> Len c \<le> 20"
  by (simp add: wf_cid_def Len_def)

lemma NewConnectionID_Inr:
  "NewConnectionID b = Inr c \<Longrightarrow> wf_cid c \<and> Bytes c = b \<and> Len c = length b"
  by (auto simp: NewConnectionID_def wf_cid_def Bytes_def Len_def split: if_splits)

lemma NewConnectionID_ok:
  "length b \<le> 20 \<Longrightarrow> \<exists>c. NewConnectionID b = Inr c \<and> wf_cid c \<and> Bytes c = b \<and> Len c = length b"
  by (auto simp: NewConnectionID_def wf_cid_def Bytes_def Len_def)

lemma NewConnectionID_no_panic: "no_panic (NewConnectionID b)"
  by (simp add: NewConnectionID_def)

text \<open>A CID is rebuilt from its own bytes: the round trip the packet parser relies on.\<close>

lemma NewConnectionID_Bytes: "wf_cid c \<Longrightarrow> NewConnectionID (Bytes c) = Inr c"
proof -
  assume wf: "wf_cid c"
  then have "take (cid_len c) (cid_data c) @ replicate (20 - cid_len c) 0 = cid_data c"
    by (metis append_take_drop_id wf_cid_def MaxCIDLength_def)
  with wf show ?thesis
    by (simp add: NewConnectionID_def Bytes_def wf_cid_def)
qed

lemma Bytes_inject: "wf_cid c \<Longrightarrow> wf_cid d \<Longrightarrow> Bytes c = Bytes d \<Longrightarrow> c = d"
  by (metis NewConnectionID_Bytes sum.inject(2))

lemma Equal_iff_Bytes: "wf_cid c \<Longrightarrow> wf_cid d \<Longrightarrow> Equal c d \<longleftrightarrow> Bytes c = Bytes d"
  by (auto simp: Equal_def Bytes_def wf_cid_def list_all_iff list_eq_iff_nth_eq)

lemma Equal_iff_eq: "wf_cid c \<Longrightarrow> wf_cid d \<Longrightarrow> Equal c d \<longleftrightarrow> c = d"
  by (auto simp: Equal_iff_Bytes dest: Bytes_inject)

section \<open>The text form identifies the CID\<close>

lemma hextable_inject:
  "i < 16 \<Longrightarrow> j < 16 \<Longrightarrow> hextable ! i = hextable ! j \<longleftrightarrow> i = j"
proof -
  assume "i < 16" "j < 16"
  moreover have "distinct hextable" and "length hextable = 16"
    by (simp_all add: hextable_def)
  ultimately show ?thesis by (simp add: nth_eq_iff_index_eq)
qed

lemma nibble_bounds: "unat (drop_bit 4 (b :: byte)) < 16" "unat (b AND 15) < 16"
proof -
  have "unat b < 256" using unsigned_less [of b] by simp
  then show "unat (drop_bit 4 b) < 16"
    by (simp add: drop_bit_eq_div unat_div)
  have "b AND 15 \<le> 15" by (rule word_and_le1)
  then show "unat (b AND 15) < 16" by (simp add: word_le_nat_alt)
qed

lemma nibbles_inject:
  assumes "drop_bit 4 b = drop_bit 4 (c :: byte)" and "b AND 15 = c AND 15"
  shows "b = c"
proof (rule bit_word_eqI)
  fix n assume n: "n < LENGTH(8)"
  have m: "(15 :: byte) = mask 4" by (simp add: mask_eq_exp_minus_1)
  show "bit b n = bit c n"
  proof (cases "n < 4")
    case True
    have "bit (b AND 15) n = bit (c AND 15) n" using assms(2) by simp
    with True n show ?thesis by (simp add: m bit_simps)
  next
    case False
    have "bit (drop_bit 4 b) (n - 4) = bit (drop_bit 4 c) (n - 4)" using assms(1) by simp
    with False show ?thesis by (simp add: bit_drop_bit_eq)
  qed
qed

lemma hex_encode_inject: "hex_encode bs = hex_encode cs \<longleftrightarrow> bs = cs"
proof (induction bs arbitrary: cs)
  case Nil
  show ?case by (cases cs) auto
next
  case (Cons b bs)
  show ?case
  proof (cases cs)
    case Nil
    then show ?thesis by simp
  next
    case (Cons c cs')
    then show ?thesis
      using Cons.IH [of cs'] nibble_bounds [of b] nibble_bounds [of c]
      by (auto simp: hextable_inject unat_inject intro: nibbles_inject)
  qed
qed

lemma length_hex_encode: "length (hex_encode bs) = 2 * length bs"
  by (induction bs) auto

text \<open>
  Two connection IDs have the same text form, the multiplexer's routing key, exactly when
  \<^verbatim>\<open>Equal\<close> calls them equal; no two connections share a key.
\<close>

lemma String_eq_iff:
  assumes "wf_cid c" and "wf_cid d"
  shows "String c = String d \<longleftrightarrow> Equal c d"
  using assms by (simp add: String_def Equal_iff_Bytes Bytes_def hex_encode_inject)

end
