(* ===== verification/Udx_Version.thy ===== *)
theory Udx_Version
  imports Udx_Cid
begin

text \<open>
  Version negotiation (\<^verbatim>\<open>version.go\<close>): the supported versions in preference order, the choice of
  a common version, and the version negotiation packet with its serialiser and parser.
\<close>

definition SupportedVersions :: "uint32 list" where
  "SupportedVersions = [VersionV3, VersionV2, VersionV1]"

fun version_in :: "uint32 \<Rightarrow> uint32 list \<Rightarrow> bool" where
  "version_in version [] \<longleftrightarrow> False"
| "version_in version (v # vs) \<longleftrightarrow> (if v = version then True else version_in version vs)"

definition IsVersionSupported :: "uint32 \<Rightarrow> bool" where
  "IsVersionSupported version = version_in version SupportedVersions"

fun negotiate_from :: "uint32 list \<Rightarrow> uint32 list \<Rightarrow> uint32" where
  "negotiate_from [] clientVersions = 0"
| "negotiate_from (sv # svs) clientVersions =
     (if version_in sv clientVersions then sv else negotiate_from svs clientVersions)"

definition NegotiateVersion :: "uint32 list \<Rightarrow> uint32" where
  "NegotiateVersion clientVersions = negotiate_from SupportedVersions clientVersions"

record VersionNegotiationPacket =
  vn_DestinationCID :: ConnectionID
  vn_SourceCID :: ConnectionID
  vn_SupportedVersions :: "uint32 list"

section \<open>Marshalling\<close>

fun version_writes :: "nat \<Rightarrow> uint32 list \<Rightarrow> go_write list" where
  "version_writes offset [] = []"
| "version_writes offset (v # vs) = Put offset (be32 v) # version_writes (offset + 4) vs"

definition vn_writes :: "VersionNegotiationPacket \<Rightarrow> go_write list" where
  "vn_writes p =
     (let d = Len (vn_DestinationCID p); s = Len (vn_SourceCID p) in
      [Put 0 (be32 0),
       Put 4 [of_nat d], Copy 5 (Bytes (vn_DestinationCID p)),
       Put (5 + d) [of_nat s], Copy (6 + d) (Bytes (vn_SourceCID p))]
      @ version_writes (6 + d + s) (vn_SupportedVersions p))"

definition VersionNegotiationPacket_Marshal :: "VersionNegotiationPacket \<Rightarrow> byte list result" where
  "VersionNegotiationPacket_Marshal p =
     do_writes (vn_writes p)
       (replicate (4 + 1 + Len (vn_DestinationCID p) + 1 + Len (vn_SourceCID p)
                   + length (vn_SupportedVersions p) * 4) 0)"

section \<open>Parsing\<close>

function parse_versions :: "byte list \<Rightarrow> nat \<Rightarrow> uint32 list result" where
  "parse_versions data offset =
     (if offset + 4 \<le> length data
      then res_bind (Uint32 data offset) (\<lambda>v.
           res_bind (parse_versions data (offset + 4)) (\<lambda>vs. Inr (v # vs)))
      else Inr [])"
  by pat_completeness auto
termination
  by (relation "measure (\<lambda>(data, offset). length data - offset)") auto

declare parse_versions.simps [simp del]

definition UnmarshalVersionNegotiation :: "byte list \<Rightarrow> VersionNegotiationPacket result" where
  "UnmarshalVersionNegotiation data =
     (if length data < 6 then Inl ErrPacketTooShort else
      res_bind (Uint32 data 0) (\<lambda>version.
      if version \<noteq> 0 then Inl ErrNotVersionNegotiation else
      res_bind (byte_at data 4) (\<lambda>b. let dcidLen = unat b in
      if dcidLen > MaxCIDLength \<or> 5 + dcidLen > length data then Inl ErrInvalidCIDLength else
      res_bind (slice_range data 5 (5 + dcidLen)) (\<lambda>db.
      res_bind (NewConnectionID db) (\<lambda>dcid.
      if 5 + dcidLen \<ge> length data then Inl ErrPacketTooShort else
      res_bind (byte_at data (5 + dcidLen)) (\<lambda>b. let scidLen = unat b; offset = 6 + dcidLen in
      if scidLen > MaxCIDLength \<or> offset + scidLen > length data then Inl ErrInvalidCIDLength else
      res_bind (slice_range data offset (offset + scidLen)) (\<lambda>sb.
      res_bind (NewConnectionID sb) (\<lambda>scid.
      res_bind (parse_versions data (offset + scidLen)) (\<lambda>versions.
        Inr \<lparr>vn_DestinationCID = dcid, vn_SourceCID = scid,
             vn_SupportedVersions = versions\<rparr>)))))))))"

section \<open>Negotiation picks the preferred common version\<close>

lemma version_in_iff: "version_in v vs \<longleftrightarrow> v \<in> set vs"
  by (induction vs) auto

text \<open>
  \<^verbatim>\<open>NegotiateVersion\<close> returns the highest version both sides support, and 0 exactly when they
  share none.
\<close>

lemma NegotiateVersion_highest_common:
  "(if \<exists>v \<in> set clientVersions. IsVersionSupported v
    then IsVersionSupported (NegotiateVersion clientVersions)
       \<and> NegotiateVersion clientVersions \<in> set clientVersions
       \<and> (\<forall>v \<in> set clientVersions. IsVersionSupported v \<longrightarrow> v \<le> NegotiateVersion clientVersions)
    else NegotiateVersion clientVersions = 0)"
  by (auto simp: NegotiateVersion_def IsVersionSupported_def SupportedVersions_def version_in_iff)

section \<open>Round trip of the negotiation packet\<close>

definition wf_vn :: "VersionNegotiationPacket \<Rightarrow> bool" where
  "wf_vn p \<longleftrightarrow> wf_cid (vn_DestinationCID p) \<and> wf_cid (vn_SourceCID p)"

definition versions_bytes :: "uint32 list \<Rightarrow> byte list" where
  "versions_bytes vs = concat (map be32 vs)"

definition vn_bytes :: "VersionNegotiationPacket \<Rightarrow> byte list" where
  "vn_bytes p = be32 0 @ [of_nat (Len (vn_DestinationCID p))] @ Bytes (vn_DestinationCID p)
     @ [of_nat (Len (vn_SourceCID p))] @ Bytes (vn_SourceCID p)
     @ versions_bytes (vn_SupportedVersions p)"

lemma length_versions_bytes [simp]: "length (versions_bytes vs) = length vs * 4"
  by (induction vs) (simp_all add: versions_bytes_def)

lemma version_writes_spec:
  "contiguous off (version_writes off vs)"
  "written (version_writes off vs) = versions_bytes vs"
  by (induction vs arbitrary: off) (simp_all add: versions_bytes_def)

lemma vn_Marshal_eq: "wf_vn p \<Longrightarrow> VersionNegotiationPacket_Marshal p = Inr (vn_bytes p)"
proof -
  assume wf: "wf_vn p"
  have c: "contiguous 0 (vn_writes p)" and w: "written (vn_writes p) = vn_bytes p"
    using wf by (simp_all add: vn_writes_def vn_bytes_def wf_vn_def Let_def version_writes_spec ac_simps)
  have "length (vn_bytes p) = 4 + 1 + Len (vn_DestinationCID p) + 1 + Len (vn_SourceCID p)
      + length (vn_SupportedVersions p) * 4"
    using wf by (simp add: vn_bytes_def wf_vn_def)
  with do_writes_fill [OF c] w show ?thesis
    by (simp add: VersionNegotiationPacket_Marshal_def)
qed

lemma parse_versions_read:
  "drop off data = versions_bytes vs \<Longrightarrow> off \<le> length data \<Longrightarrow> parse_versions data off = Inr vs"
proof (induction vs arbitrary: off)
  case Nil
  then show ?case by (simp add: parse_versions.simps [of data off] versions_bytes_def)
next
  case (Cons v vs)
  have D: "drop off data = be32 v @ versions_bytes vs"
    using Cons.prems by (simp add: versions_bytes_def)
  have L: "off + 4 \<le> length data"
    using drop_nonempty_length [OF D] by (auto simp: be32_def)
  have "parse_versions data (off + 4) = Inr vs"
    using drop_shift [OF D, of 4] L by (intro Cons.IH) simp_all
  then show ?case
    using D L by (simp add: parse_versions.simps [of data off] Uint32_def wire_simps)
qed

text \<open>
  A version negotiation packet parses back from its own serialisation, with any number of
  versions.
\<close>

lemma version_negotiation_roundtrip:
  assumes "wf_vn p"
  shows "\<exists>bs. VersionNegotiationPacket_Marshal p = Inr bs \<and> UnmarshalVersionNegotiation bs = Inr p"
proof -
  let ?d = "Len (vn_DestinationCID p)" and ?s = "Len (vn_SourceCID p)"
  let ?vs = "versions_bytes (vn_SupportedVersions p)"
  define data where "data = vn_bytes p"
  have len: "?d \<le> 20" "?s \<le> 20" using assms by (simp_all add: wf_vn_def Len_le)
  have L: "length data = 6 + ?d + ?s + length ?vs"
    using assms by (simp add: data_def vn_bytes_def wf_vn_def)
  have D: "drop 0 data = be32 0 @ [of_nat ?d] @ Bytes (vn_DestinationCID p) @ [of_nat ?s]
      @ Bytes (vn_SourceCID p) @ ?vs"
    by (simp add: data_def vn_bytes_def)
  note D4 = drop_shift [OF D, of 4, simplified]
  note D5 = drop_shift [OF D, of 5, simplified]
  have D5d: "drop (5 + ?d) data = of_nat ?s # Bytes (vn_SourceCID p) @ ?vs"
    using drop_shift [OF D5, of ?d] assms by (simp add: wf_vn_def)
  have D6d: "drop (6 + ?d) data = Bytes (vn_SourceCID p) @ ?vs"
    using drop_shift [OF D5d, of 1] by (simp add: add.commute)
  have "parse_versions data (6 + ?d + ?s) = Inr (vn_SupportedVersions p)"
    using drop_shift [OF D6d, of ?s] assms L by (intro parse_versions_read) (simp_all add: wf_vn_def)
  then have "UnmarshalVersionNegotiation data = Inr p"
    using assms len L D
    by (simp add: UnmarshalVersionNegotiation_def wire_simps D4 D5 D5d D6d unat_of_nat_less
        slice_range_def NewConnectionID_Bytes wf_vn_def Let_def)
  then show ?thesis using assms by (simp add: vn_Marshal_eq data_def)
qed

end
