(* ===== verification/Udx_Datagram_Io.thy ===== *)
theory Udx_Datagram_Io
  imports Udx_Prelude
begin

text \<open>
  The socket access of the multiplexer (\<^verbatim>\<open>batchconn.go\<close>). The socket and \<^verbatim>\<open>golang.org/x/net/ipv4\<close> are
  arguments: \<open>'s\<close> is the state of the socket, \<open>WriteTo\<close> and \<open>WriteBatch\<close> change it and say what they
  returned. \<open>write_contract\<close> and \<open>batch_contract\<close> state what is documented of them.
\<close>

section \<open>Operations\<close>

type_synonym message = "byte list \<times> string"

record datagramIO =
  batch :: bool
  batchWrites :: bool

definition readBatchSize :: nat where [simp]: "readBatchSize = 64"

text \<open>\<open>udp\<close> says that the socket is a \<^verbatim>\<open>*net.UDPConn\<close>, \<open>v4\<close> that its local address has an IPv4 form.\<close>

definition newDatagramIO :: "bool \<Rightarrow> bool \<Rightarrow> datagramIO" where
  "newDatagramIO udp v4 = \<lparr>batch = udp, batchWrites = udp \<and> v4\<rparr>"

text \<open>
  \<open>ReadBatch\<close> is given how many messages it may fill and returns them; \<open>ReadFrom\<close> returns one. The
  read loop passes \<open>readBatchSize\<close> buffers.
\<close>

definition readMessages ::
    "(nat \<Rightarrow> 's \<Rightarrow> 's \<times> message list option) \<Rightarrow> ('s \<Rightarrow> 's \<times> message option) \<Rightarrow> nat \<Rightarrow> datagramIO \<Rightarrow> 's \<Rightarrow> 's \<times> message list option" where
  "readMessages ReadBatch ReadFrom k d s =
     (if batch d then ReadBatch k s
      else case ReadFrom s of
             (s, None) \<Rightarrow> (s, None)
           | (s, Some msg) \<Rightarrow> (s, Some [msg]))"

datatype write_result = WriteOk | WriteErr | WritePanic

fun writeEach :: "(byte list \<Rightarrow> string \<Rightarrow> 's \<Rightarrow> 's \<times> bool) \<Rightarrow> byte list list \<Rightarrow> string \<Rightarrow> 's \<Rightarrow> 's \<times> write_result" where
  "writeEach WriteTo [] a s = (s, WriteOk)"
| "writeEach WriteTo (b # bufs) a s =
     (case WriteTo b a s of
        (s, False) \<Rightarrow> (s, WriteErr)
      | (s, True) \<Rightarrow> writeEach WriteTo bufs a s)"

text \<open>
  The loop of \<^verbatim>\<open>writeAll\<close> over the messages left; \<open>WriteBatch\<close> returns how many it sent, or fails. Slicing
  past the end is a panic.
\<close>

function write_batches ::
    "(byte list \<Rightarrow> string \<Rightarrow> 's \<Rightarrow> 's \<times> bool) \<Rightarrow> (message list \<Rightarrow> 's \<Rightarrow> 's \<times> int option)
       \<Rightarrow> byte list list \<Rightarrow> string \<Rightarrow> message list \<Rightarrow> 's \<Rightarrow> 's \<times> write_result" where
  "write_batches WriteTo WriteBatch bufs a ms s =
     (if ms = [] then (s, WriteOk)
      else case WriteBatch ms s of
             (s, None) \<Rightarrow> writeEach WriteTo (drop (length bufs - length ms) bufs) a s
           | (s, Some n) \<Rightarrow>
               let n = (if n \<le> 0 then 1 else n)
               in if n > int (length ms) then (s, WritePanic)
                  else write_batches WriteTo WriteBatch bufs a (drop (nat n) ms) s)"
  by pat_completeness auto

termination write_batches
  by (relation "measure (\<lambda>(_, _, _, _, ms, _). length ms)") (auto split: if_splits)

declare write_batches.simps [simp del]

definition writeAll ::
    "(byte list \<Rightarrow> string \<Rightarrow> 's \<Rightarrow> 's \<times> bool) \<Rightarrow> (message list \<Rightarrow> 's \<Rightarrow> 's \<times> int option)
       \<Rightarrow> datagramIO \<Rightarrow> byte list list \<Rightarrow> string \<Rightarrow> 's \<Rightarrow> 's \<times> write_result" where
  "writeAll WriteTo WriteBatch d bufs a s =
     (if \<not> batch d \<or> \<not> batchWrites d \<or> length bufs = 1 then writeEach WriteTo bufs a s
      else write_batches WriteTo WriteBatch bufs a (map (\<lambda>b. (b, a)) bufs) s)"

section \<open>Every datagram goes out once\<close>

text \<open>\<open>sent\<close> lists the datagrams a socket has put on the wire. A write that succeeds adds its own.\<close>

definition write_contract :: "('s \<Rightarrow> message list) \<Rightarrow> (byte list \<Rightarrow> string \<Rightarrow> 's \<Rightarrow> 's \<times> bool) \<Rightarrow> bool" where
  "write_contract sent WriteTo \<longleftrightarrow>
     (\<forall>b a s. sent (fst (WriteTo b a s)) = sent s @ (if snd (WriteTo b a s) then [(b, a)] else []))"

text \<open>A batch write sends a non-empty prefix of the batch, or fails with nothing sent.\<close>

definition batch_contract :: "('s \<Rightarrow> message list) \<Rightarrow> (message list \<Rightarrow> 's \<Rightarrow> 's \<times> int option) \<Rightarrow> bool" where
  "batch_contract sent WriteBatch \<longleftrightarrow>
     (\<forall>ms s. ms \<noteq> [] \<longrightarrow> (case snd (WriteBatch ms s) of
        None \<Rightarrow> sent (fst (WriteBatch ms s)) = sent s
      | Some n \<Rightarrow> 0 < n \<and> n \<le> int (length ms) \<and> sent (fst (WriteBatch ms s)) = sent s @ take (nat n) ms))"

lemma writeEach_sends:
  assumes "write_contract sent WriteTo" "writeEach WriteTo bufs a s = (s', r)"
  shows "r \<noteq> WritePanic \<and> (\<exists>k \<le> length bufs. sent s' = sent s @ map (\<lambda>b. (b, a)) (take k bufs) \<and> (r = WriteOk \<longrightarrow> k = length bufs))"
  using assms(2)
proof (induction bufs arbitrary: s)
  case (Cons b bufs)
  obtain s1 ok where w: "WriteTo b a s = (s1, ok)" by fastforce
  have s1: "sent s1 = sent s @ (if ok then [(b, a)] else [])"
    using assms(1) [unfolded write_contract_def, rule_format, of b a s] by (simp add: w)
  show ?case
  proof (cases ok)
    case True
    then obtain k where "r \<noteq> WritePanic" "k \<le> length bufs" "sent s' = sent s1 @ map (\<lambda>b. (b, a)) (take k bufs)"
        "r = WriteOk \<longrightarrow> k = length bufs"
      using Cons.IH [of s1] Cons.prems w by auto
    then show ?thesis using s1 True by (intro conjI exI [of _ "Suc k"]) simp_all
  next
    case False
    then show ?thesis using Cons.prems w s1 by (intro conjI exI [of _ 0]) auto
  qed
qed auto

lemma write_batches_sends:
  assumes "write_contract sent WriteTo" "batch_contract sent WriteBatch"
    and "ms = map (\<lambda>b. (b, a)) (drop i bufs)" "write_batches WriteTo WriteBatch bufs a ms s = (s', r)"
  shows "r \<noteq> WritePanic \<and> (\<exists>k \<le> length ms. sent s' = sent s @ take k ms \<and> (r = WriteOk \<longrightarrow> k = length ms))"
  using assms(3,4)
proof (induction "length ms" arbitrary: ms i s rule: less_induct)
  case less
  show ?case
  proof (cases "ms = []")
    case True
    then show ?thesis using less.prems(2) by (simp add: write_batches.simps)
  next
    case False
    obtain s1 o1 where w: "WriteBatch ms s = (s1, o1)" by fastforce
    have c: "case o1 of None \<Rightarrow> sent s1 = sent s
        | Some n \<Rightarrow> 0 < n \<and> n \<le> int (length ms) \<and> sent s1 = sent s @ take (nat n) ms"
      using assms(2) [unfolded batch_contract_def, rule_format, OF False, of s] by (simp add: w split: option.splits)
    show ?thesis
    proof (cases o1)
      case None
      have "writeEach WriteTo (drop (length bufs - length ms) bufs) a s1 = (s', r)"
        using less.prems(2) False w None by (simp add: write_batches.simps [of _ _ _ _ ms])
      moreover have "drop (length bufs - length ms) bufs = drop i bufs" using less.prems(1) False by simp
      ultimately obtain k where "r \<noteq> WritePanic" "k \<le> length (drop i bufs)"
          "sent s' = sent s1 @ map (\<lambda>b. (b, a)) (take k (drop i bufs))" "r = WriteOk \<longrightarrow> k = length (drop i bufs)"
        using writeEach_sends [OF assms(1), of "drop i bufs" a s1 s' r] by auto
      then show ?thesis using c None less.prems(1) by (intro conjI exI [of _ k]) (auto simp: take_map)
    next
      case (Some n)
      then have n: "0 < n" "n \<le> int (length ms)" "sent s1 = sent s @ take (nat n) ms" using c by simp_all
      have e: "write_batches WriteTo WriteBatch bufs a (drop (nat n) ms) s1 = (s', r)"
        using less.prems(2) False w Some n by (simp add: write_batches.simps [of _ _ _ _ ms])
      have d: "drop (nat n) ms = map (\<lambda>b. (b, a)) (drop (i + nat n) bufs)"
        using less.prems(1) by (simp add: drop_map add.commute)
      have l: "length (drop (nat n) ms) < length ms" using n False by simp
      note IH = less.hyps [OF l d e]
      from IH obtain k where k: "r \<noteq> WritePanic" "k \<le> length (drop (nat n) ms)"
          "sent s' = sent s1 @ take k (drop (nat n) ms)" "r = WriteOk \<longrightarrow> k = length (drop (nat n) ms)"
        by blast
      then have "sent s' = sent s @ take (nat n + k) ms" using n(3) by (simp add: take_add)
      then show ?thesis using k n(2) by (intro conjI exI [of _ "nat n + k"]) auto
    qed
  qed
qed

section \<open>Properties\<close>

text \<open>
  C34: \<^verbatim>\<open>writeAll\<close> ends and never panics, and what it puts on the wire is a prefix of the buffers it was
  given, in order and each once, whether the socket takes batches, short batches, or fails a batch half
  way and is written to one by one; when it reports success it was all of them.
\<close>

theorem writeAll_sends_once:
  assumes "write_contract sent WriteTo" "batch_contract sent WriteBatch" "writeAll WriteTo WriteBatch d bufs a s = (s', r)"
  shows "r \<noteq> WritePanic \<and> (\<exists>k \<le> length bufs. sent s' = sent s @ map (\<lambda>b. (b, a)) (take k bufs) \<and> (r = WriteOk \<longrightarrow> k = length bufs))"
proof (cases "\<not> batch d \<or> \<not> batchWrites d \<or> length bufs = 1")
  case True
  then show ?thesis using writeEach_sends [OF assms(1)] assms(3) by (simp add: writeAll_def)
next
  case False
  then have "write_batches WriteTo WriteBatch bufs a (map (\<lambda>b. (b, a)) bufs) s = (s', r)" using assms(3) by (simp add: writeAll_def)
  from write_batches_sends [OF assms(1,2) _ this, of 0] show ?thesis by (simp add: take_map)
qed

text \<open>A socket that takes two messages a batch, and fails batches once four are out.\<close>

definition sample_write :: "byte list \<Rightarrow> string \<Rightarrow> message list \<Rightarrow> message list \<times> bool" where
  "sample_write b a s = (s @ [(b, a)], True)"

definition sample_batch :: "message list \<Rightarrow> message list \<Rightarrow> message list \<times> int option" where
  "sample_batch ms s = (if ms = [] \<or> length s \<ge> 4 then (s, None) else (s @ take 2 ms, Some (int (min 2 (length ms)))))"

lemma sample_contracts: "write_contract id sample_write" "batch_contract id sample_batch"
  by (auto simp: write_contract_def batch_contract_def sample_write_def sample_batch_def min_def)

lemma sample_writeAll:
  "writeAll sample_write sample_batch (newDatagramIO True True) [[1], [2], [3], [4], [5]] ''b'' []
     = ([([1], ''b''), ([2], ''b''), ([3], ''b''), ([4], ''b''), ([5], ''b'')], WriteOk)"
  by code_simp

theorem writeAll_sends_once_witness:
  "write_contract id sample_write \<and> batch_contract id sample_batch
   \<and> snd (writeAll sample_write sample_batch (newDatagramIO True True) [[1], [2], [3], [4], [5]] ''b'' []) \<noteq> WritePanic"
  using writeAll_sends_once [OF sample_contracts sample_writeAll] sample_contracts sample_writeAll by simp

end
