(* ===== verification/Udx_Float.thy ===== *)
theory Udx_Float
  imports Complex_Main "HOL-Library.Log_Nat" Udx_Prelude
begin

text \<open>
  The \<^verbatim>\<open>float64\<close> arithmetic the congestion controller and the pacer use: every operation is
  the exact rational result rounded to 53 significant bits, ties to even. The exponent range is
  not bounded: the values that occur (window sizes, rates, seconds and their cubes) are far
  from overflow and from the subnormal numbers. Conversion to an integer truncates; outside the
  range of an \<^verbatim>\<open>int64\<close> its result is implementation-specific, and so a parameter.
\<close>

section \<open>Rounding\<close>

text \<open>The binary exponent of a positive number.\<close>

definition flog2 :: "rat \<Rightarrow> int" where
  "flog2 x = (let (p, q) = quotient_of x; e = bitlen p - bitlen q
              in if 2 powi e \<le> x then e else e - 1)"

definition round_half_even :: "rat \<Rightarrow> int" where
  "round_half_even x =
     (let f = \<lfloor>x\<rfloor>; r = x - of_int f
      in if r < 1 / 2 then f else if r > 1 / 2 then f + 1 else if even f then f else f + 1)"

definition fl :: "rat \<Rightarrow> rat" where
  "fl x = (if x = 0 then 0
           else let u = 2 powi (flog2 \<bar>x\<bar> - 52) in of_int (round_half_even (x / u)) * u)"

section \<open>Operations\<close>

definition float_of_int :: "int \<Rightarrow> rat" where
  "float_of_int n = fl (of_int n)"

text \<open>\<^verbatim>\<open>int(x)\<close>, with \<open>oob\<close> the implementation's answer outside the range of an \<^verbatim>\<open>int64\<close>.\<close>

definition trunc_rat :: "rat \<Rightarrow> int" where
  "trunc_rat x = (if x < 0 then - \<lfloor>- x\<rfloor> else \<lfloor>x\<rfloor>)"

definition int_of_float :: "(rat \<Rightarrow> int) \<Rightarrow> rat \<Rightarrow> int" where
  "int_of_float oob x =
     (if - (2 ^ 63) \<le> trunc_rat x \<and> trunc_rat x < 2 ^ 63 then trunc_rat x else oob x)"

text \<open>\<^verbatim>\<open>Duration.Seconds\<close>: whole seconds plus the remaining nanoseconds divided by 10^9.\<close>

definition Seconds :: "duration \<Rightarrow> rat" where
  "Seconds d = (let sec = go_div d second; nsec = d - sec * second
                in fl (float_of_int sec + fl (float_of_int nsec / 1000000000)))"

text \<open>
  What Go leaves to the implementation: the low bits of \<^verbatim>\<open>math.Cbrt\<close> (within one unit in the
  last place) and the conversion of an out-of-range \<^verbatim>\<open>float64\<close> to \<^verbatim>\<open>int\<close>.
\<close>

record go_math =
  Cbrt :: "rat \<Rightarrow> rat"
  int_oob :: "rat \<Rightarrow> int"

text \<open>\<^verbatim>\<open>math.Pow(x, 3)\<close>: multiplication by repeated squaring on the mantissa.\<close>

definition pow3 :: "rat \<Rightarrow> rat" where
  "pow3 x = fl (x * fl (x * x))"

section \<open>Accuracy\<close>

lemma bitlen_rat_bounds:
  assumes "0 < n"
  shows "2 powi (bitlen n - 1) \<le> (of_int n :: rat)" and "(of_int n :: rat) < 2 powi bitlen n"
proof -
  have len: "1 \<le> bitlen n" using assms bitlen_nonneg [of n] bitlen_eq_zero_iff [of n] by linarith
  have b: "2 ^ nat (bitlen n - 1) \<le> n" "n < 2 ^ nat (bitlen n)"
    using bitlen_bounds [OF assms] by simp_all
  have "(2 :: rat) powi (bitlen n - 1) = of_int (2 ^ nat (bitlen n - 1))"
    using len by (simp add: power_int_def)
  then show "2 powi (bitlen n - 1) \<le> (of_int n :: rat)" using b(1) by (simp only: of_int_le_iff)
  have "(2 :: rat) powi bitlen n = of_int (2 ^ nat (bitlen n))"
    using len by (simp add: power_int_def)
  then show "(of_int n :: rat) < 2 powi bitlen n" using b(2) by (simp only: of_int_less_iff)
qed

lemma flog2_bounds:
  assumes "0 < x"
  shows "2 powi flog2 x \<le> x" and "x < 2 powi (flog2 x + 1)"
proof -
  obtain p q where pq: "quotient_of x = (p, q)" by (cases "quotient_of x")
  have q: "0 < q" and x: "x = of_int p / of_int q"
    using quotient_of_denom_pos [OF pq] quotient_of_div [OF pq] by auto
  then have p: "0 < p" using assms by (simp add: zero_less_divide_iff)
  let ?e = "bitlen p - bitlen q"
  note bp = bitlen_rat_bounds [OF p] and bq = bitlen_rat_bounds [OF q]
  have "(2 :: rat) powi (?e - 1) = 2 powi (bitlen p - 1) / 2 powi bitlen q"
    by (simp add: power_int_diff [symmetric] algebra_simps)
  also have "\<dots> \<le> x" unfolding x using bp bq p q by (intro frac_le) (auto intro: less_imp_le)
  finally have lo: "2 powi (?e - 1) \<le> x" .
  have "x < 2 powi bitlen p / 2 powi (bitlen q - 1)"
    unfolding x using bp bq p q by (intro frac_less) auto
  also have "\<dots> = 2 powi (?e + 1)" by (simp add: power_int_diff [symmetric] algebra_simps)
  finally have hi: "x < 2 powi (?e + 1)" .
  show "2 powi flog2 x \<le> x" "x < 2 powi (flog2 x + 1)"
    using lo hi by (auto simp: flog2_def pq Let_def)
qed

lemma round_half_even_error: "\<bar>of_int (round_half_even x) - x\<bar> \<le> 1 / 2"
proof -
  have "0 \<le> x - of_int \<lfloor>x\<rfloor>" "x - of_int \<lfloor>x\<rfloor> < 1" by linarith+
  then show ?thesis by (auto simp: round_half_even_def Let_def)
qed

lemma round_half_even_int [simp]: "round_half_even (of_int n) = n"
  by (simp add: round_half_even_def)

text \<open>The relative error of a rounding is at most half a unit in the 53rd place.\<close>

lemma fl_error: "\<bar>fl x - x\<bar> \<le> \<bar>x\<bar> / 2 ^ 53"
proof (cases "x = 0")
  case False
  define u where "u = (2 :: rat) powi (flog2 \<bar>x\<bar> - 52)"
  have u: "0 < u" by (simp add: u_def)
  have "fl x - x = (of_int (round_half_even (x / u)) - x / u) * u"
    using False u by (simp add: fl_def u_def [symmetric] Let_def left_diff_distrib)
  then have "\<bar>fl x - x\<bar> = \<bar>of_int (round_half_even (x / u)) - x / u\<bar> * u"
    using u by (simp add: abs_mult)
  also have "\<dots> \<le> 1 / 2 * u" using u round_half_even_error by (intro mult_right_mono) auto
  also have "\<dots> = 2 powi flog2 \<bar>x\<bar> / 2 ^ 53"
    by (simp add: u_def power_int_diff)
  also have "\<dots> \<le> \<bar>x\<bar> / 2 ^ 53"
    using False flog2_bounds(1) [of "\<bar>x\<bar>"] by (intro divide_right_mono) auto
  finally show ?thesis .
qed (simp add: fl_def)

lemma fl_pos: "0 < x \<Longrightarrow> 0 < fl x"
  using fl_error [of x] by (auto simp: field_simps abs_if split: if_splits)

lemma fl_0 [simp]: "fl 0 = 0"
  by (simp add: fl_def)

lemma fl_nonneg: "0 \<le> x \<Longrightarrow> 0 \<le> fl x"
  using fl_pos [of x] by (cases "x = 0") auto

text \<open>Integers of up to 53 bits are exact.\<close>

lemma fl_of_int:
  assumes "\<bar>n\<bar> \<le> 2 ^ 53"
  shows "fl (of_int n) = of_int n"
proof (cases "n = 0")
  case False
  define e where "e = flog2 \<bar>of_int n\<bar>"
  define u where "u = (2 :: rat) powi (e - 52)"
  have u: "0 < u" by (simp add: u_def)
  have lo: "2 powi e \<le> \<bar>of_int n :: rat\<bar>"
    using False flog2_bounds(1) [of "\<bar>of_int n\<bar>"] by (simp add: e_def)
  have n: "\<bar>of_int n :: rat\<bar> \<le> 2 powi 53"
    using assms by (simp add: of_int_abs [symmetric] del: of_int_abs)
  then have "\<not> (2 :: rat) powi 53 < 2 powi e" using lo by linarith
  then have e53: "e \<le> 53" using power_int_strict_increasing [of 53 e "2 :: rat"] by fastforce
  have "\<exists>k. of_int n / u = of_int k"
  proof (cases "e = 53")
    case True
    then have "\<bar>n\<bar> = 2 ^ 53"
      using lo assms by (simp add: of_int_abs [symmetric] del: of_int_abs)
    then have "even n" using dvd_abs_iff [of 2 n] by simp
    then have "n = 2 * (n div 2)" by simp
    then have "of_int n = u * of_int (n div 2)"
      using True by (simp add: u_def)
    then show ?thesis using u by (intro exI [of _ "n div 2"]) (simp add: field_simps)
  next
    case False
    then have "inverse u = 2 ^ nat (52 - e)"
      using e53 by (simp add: u_def power_int_def power_one_over)
    then have "of_int n / u = of_int (n * 2 ^ nat (52 - e))" by (simp add: divide_inverse)
    then show ?thesis by blast
  qed
  then obtain k where k: "of_int n / u = of_int k" by blast
  then have "fl (of_int n) = of_int k * u"
    using False by (simp add: fl_def e_def [symmetric] u_def [symmetric] Let_def)
  then show ?thesis using k u by (simp add: field_simps)
qed simp

lemma float_of_int_exact: "\<bar>n\<bar> \<le> 2 ^ 53 \<Longrightarrow> float_of_int n = of_int n"
  by (simp add: float_of_int_def fl_of_int)

lemma trunc_rat_bounds:
  "0 \<le> x \<Longrightarrow> 0 \<le> trunc_rat x \<and> of_int (trunc_rat x) \<le> x \<and> x < of_int (trunc_rat x) + 1"
  using floor_correct [of x] by (simp add: trunc_rat_def)

lemma int_of_float_in_range:
  assumes "0 \<le> x" and "x < 2 ^ 63"
  shows "int_of_float oob x = trunc_rat x"
proof -
  have "of_int (trunc_rat x) < (of_int (2 ^ 63) :: rat)"
    using trunc_rat_bounds [OF assms(1)] assms(2) by simp
  then have "trunc_rat x < 2 ^ 63" by (simp only: of_int_less_iff)
  then show ?thesis using trunc_rat_bounds [OF assms(1)] by (simp add: int_of_float_def)
qed

section \<open>Error accumulation\<close>

text \<open>\<open>y\<close> approximates \<open>x\<close> to within \<open>k\<close> roundings.\<close>

definition fl_eps :: rat where
  "fl_eps = 1 / 2 ^ 53"

definition near :: "nat \<Rightarrow> rat \<Rightarrow> rat \<Rightarrow> bool" where
  "near k x y \<longleftrightarrow> x * (1 - fl_eps) ^ k \<le> y \<and> y \<le> x * (1 + fl_eps) ^ k"

lemma fl_eps_bounds: "0 < fl_eps" "fl_eps \<le> 1 / 4" "0 < 1 - fl_eps" "1 - fl_eps \<le> 1"
  by (simp_all add: fl_eps_def)

lemma near_refl [simp]: "near 0 x x"
  by (simp add: near_def)

lemma near_nonneg: "near k x y \<Longrightarrow> 0 \<le> x \<Longrightarrow> 0 \<le> y"
  unfolding near_def using fl_eps_bounds
  by (meson order_trans mult_nonneg_nonneg zero_le_power less_imp_le)

lemma near_pos: "near k x y \<Longrightarrow> 0 < x \<Longrightarrow> 0 < y"
  unfolding near_def using fl_eps_bounds
  by (meson less_le_trans mult_pos_pos zero_less_power)

lemma fl_between: "0 \<le> y \<Longrightarrow> y * (1 - fl_eps) \<le> fl y \<and> fl y \<le> y * (1 + fl_eps)"
  using abs_le_D1 [OF fl_error [of y]] abs_le_D2 [OF fl_error [of y]]
  by (simp add: fl_eps_def field_simps)

lemma near_fl:
  assumes "near k x y" and "0 \<le> x"
  shows "near (Suc k) x (fl y)"
proof -
  have y: "0 \<le> y" using near_nonneg assms by blast
  have "x * (1 - fl_eps) ^ Suc k = (x * (1 - fl_eps) ^ k) * (1 - fl_eps)" by simp
  also have "\<dots> \<le> y * (1 - fl_eps)"
    using assms fl_eps_bounds by (intro mult_right_mono) (auto simp: near_def)
  finally have lo: "x * (1 - fl_eps) ^ Suc k \<le> fl y" using fl_between [OF y] by linarith
  have "y * (1 + fl_eps) \<le> (x * (1 + fl_eps) ^ k) * (1 + fl_eps)"
    using assms fl_eps_bounds by (intro mult_right_mono) (auto simp: near_def)
  then have "fl y \<le> x * (1 + fl_eps) ^ Suc k" using fl_between [OF y] by (simp add: ac_simps)
  with lo show ?thesis by (simp add: near_def)
qed

lemma near_mult: "near k x y \<Longrightarrow> 0 \<le> c \<Longrightarrow> near k (c * x) (c * y)"
  by (auto simp: near_def mult.assoc intro: mult_left_mono)

lemma near_mono:
  assumes "near k x y" and "k \<le> m" and "0 \<le> x"
  shows "near m x y"
proof -
  have "(1 - fl_eps) ^ m \<le> (1 - fl_eps) ^ k" "(1 + fl_eps) ^ k \<le> (1 + fl_eps) ^ m"
    using assms(2) fl_eps_bounds by (auto intro: power_decreasing power_increasing)
  then show ?thesis
    using assms(1,3) unfolding near_def by (meson order_trans mult_left_mono)
qed

lemma near_add: "near k x y \<Longrightarrow> near k u v \<Longrightarrow> near k (x + u) (y + v)"
  by (simp add: near_def distrib_right add_mono)

lemma near_div:
  assumes "near k x y" and "near m u v" and "0 \<le> x" and "0 < u"
  shows "near (k + 2 * m) (x / u) (y / v)"
proof -
  have v: "0 < v" using near_pos assms by blast
  let ?l = "1 - fl_eps" and ?h = "1 + fl_eps"
  have sq: "1 \<le> ?l * ?h ^ 2"
    using fl_eps_bounds by (simp add: fl_eps_def power2_eq_square)
  have "1 \<le> (?l * ?h ^ 2) ^ m" using one_le_power [OF sq] .
  moreover have "(?l * ?h ^ 2) ^ m = ?h ^ (2 * m) * ?l ^ m"
    unfolding power_mult [of ?h 2 m] power_mult_distrib by (rule mult.commute)
  ultimately have "1 \<le> ?h ^ (2 * m) * ?l ^ m" by simp
  then have h: "1 / ?l ^ m \<le> ?h ^ (2 * m)"
    using fl_eps_bounds(3) by (simp add: pos_divide_le_eq del: power_mult)
  have l: "?l ^ m \<le> 1 / ?h ^ m"
  proof -
    have "(?l * ?h) ^ m \<le> 1 ^ m"
      using fl_eps_bounds by (intro power_mono) (auto simp: fl_eps_def)
    then have "?l ^ m * ?h ^ m \<le> 1" unfolding power_mult_distrib by simp
    then show ?thesis using fl_eps_bounds by (simp add: pos_le_divide_eq)
  qed
  have "?l ^ (2 * m) \<le> ?l ^ m"
    using fl_eps_bounds by (intro power_decreasing) auto
  then have l2: "?l ^ (2 * m) \<le> 1 / ?h ^ m" using l by linarith
  have "x / u * ?l ^ (k + 2 * m) = (x * ?l ^ k) * ?l ^ (2 * m) / u" by (simp add: power_add)
  also have "\<dots> \<le> (x * ?l ^ k) * (1 / ?h ^ m) / u"
    using assms l2 fl_eps_bounds by (intro divide_right_mono mult_left_mono) auto
  also have "\<dots> = (x * ?l ^ k) / (u * ?h ^ m)" by simp
  also have "\<dots> \<le> y / v"
    using assms v near_nonneg [OF assms(1,3)] by (intro frac_le) (auto simp: near_def)
  finally have lo: "x / u * ?l ^ (k + 2 * m) \<le> y / v" .
  have "y / v \<le> (x * ?h ^ k) / (u * ?l ^ m)"
    using assms fl_eps_bounds near_nonneg [OF assms(1,3)] by (intro frac_le) (auto simp: near_def)
  also have "\<dots> = x / u * ?h ^ k * (1 / ?l ^ m)" by simp
  also have "\<dots> \<le> x / u * ?h ^ k * ?h ^ (2 * m)"
    using h assms fl_eps_bounds by (intro mult_left_mono) auto
  finally have "y / v \<le> x / u * ?h ^ (k + 2 * m)" by (simp add: power_add mult.assoc)
  with lo show ?thesis by (simp add: near_def)
qed

end
