(* ===== verification/Udx_Pacing.thy ===== *)
theory Udx_Pacing
  imports Udx_Float Udx_Constants
begin

text \<open>
  The pacer (\<^verbatim>\<open>pacing.go\<close>): a send budget that refills at a rate and holds at most a burst.
  The rate \<open>None\<close> is +Inf, unpaced; the clock is the argument \<open>now\<close>.
\<close>

section \<open>The controller\<close>

definition PacingGain :: rat where "PacingGain = 5 / 4"
definition PacingGainSlowStart :: rat where "PacingGainSlowStart = 2"

record PacingController =
  rate :: "rat option"
  budgetAtLastSend :: rat
  pace_lastSendTime :: time

definition NewPacingController :: PacingController where
  "NewPacingController = \<lparr>rate = None, budgetAtLastSend = 0, pace_lastSendTime = 0\<rparr>"

definition UpdateRate :: "int \<Rightarrow> duration \<Rightarrow> bool \<Rightarrow> PacingController \<Rightarrow> PacingController" where
  "UpdateRate cwnd srtt slowStart p =
     (if srtt \<le> 0 then p\<lparr>rate := None\<rparr>
      else let gain = (if slowStart then PacingGainSlowStart else PacingGain)
           in p\<lparr>rate := Some (fl (fl (gain * float_of_int cwnd) / Seconds srtt))\<rparr>)"

definition maxBurst :: "PacingController \<Rightarrow> rat" where
  "maxBurst p =
     (let burst = float_of_int (PacingBurstPackets * MaxDatagramSize)
      in case rate p of
           None \<Rightarrow> burst
         | Some r \<Rightarrow> let byDelay = fl (r * Seconds MinPacingDelay)
                     in if byDelay > burst then byDelay else burst)"

text \<open>The budget at a finite rate \<open>r\<close>.\<close>

definition budget :: "rat \<Rightarrow> time \<Rightarrow> PacingController \<Rightarrow> rat" where
  "budget r now p =
     (if pace_lastSendTime p = 0 then maxBurst p
      else let b = fl (budgetAtLastSend p + fl (r * Seconds (time_sub now (pace_lastSendTime p))))
           in if b > maxBurst p then maxBurst p else b)"

definition TimeUntilSend :: "go_math \<Rightarrow> time \<Rightarrow> PacingController \<Rightarrow> duration" where
  "TimeUntilSend gm now p =
     (case rate p of
        None \<Rightarrow> 0
      | Some r \<Rightarrow>
          let short = fl (float_of_int MaxDatagramSize - budget r now p)
          in if short \<le> 0 then 0
             else let wait = int_of_float (int_oob gm) (of_int \<lceil>fl (fl (short / r) * 1000000000)\<rceil>)
                  in if wait < MinPacingDelay then MinPacingDelay else wait)"

definition Pacer_OnPacketSent :: "time \<Rightarrow> int \<Rightarrow> PacingController \<Rightarrow> PacingController" where
  "Pacer_OnPacketSent now packetSize p =
     (case rate p of
        None \<Rightarrow> p
      | Some r \<Rightarrow> p\<lparr>budgetAtLastSend := fl (budget r now p - float_of_int packetSize),
                     pace_lastSendTime := now\<rparr>)"

definition PacingRate :: "PacingController \<Rightarrow> rat option" where
  "PacingRate p = rate p"

definition Budget :: "time \<Rightarrow> PacingController \<Rightarrow> rat option" where
  "Budget now p = (case rate p of None \<Rightarrow> None | Some r \<Rightarrow> Some (budget r now p))"

section \<open>Properties\<close>

lemma Seconds_pos: "0 < d \<Longrightarrow> 0 < Seconds d"
proof -
  assume d: "0 < d"
  let ?s = "d div second" and ?n = "d - d div second * second"
  have n: "0 \<le> ?n" "?n < second"
    using d by (simp_all add: minus_div_mult_eq_mod)
  have s: "0 \<le> ?s" using d by (simp add: pos_imp_zdiv_nonneg_iff)
  have nn: "0 \<le> float_of_int ?s" "0 \<le> fl (float_of_int ?n / 1000000000)"
    using s n by (simp_all add: float_of_int_def fl_nonneg)
  have "0 < ?s \<or> 0 < ?n" using d n s by (cases "?s = 0") auto
  then have "0 < float_of_int ?s \<or> 0 < fl (float_of_int ?n / 1000000000)"
    by (auto simp: float_of_int_def fl_pos)
  then have "0 < float_of_int ?s + fl (float_of_int ?n / 1000000000)" using nn by linarith
  then show ?thesis using d by (simp add: Seconds_def go_div_nonneg Let_def fl_pos)
qed

lemma UpdateRate_pos:
  assumes "0 < cwnd" and "0 < srtt"
  shows "\<exists>r > 0. rate (UpdateRate cwnd srtt ss p) = Some r"
  using assms Seconds_pos [of srtt]
  by (auto simp: UpdateRate_def Let_def PacingGain_def PacingGainSlowStart_def float_of_int_def
      intro!: fl_pos divide_pos_pos mult_pos_pos)

lemma budget_le_maxBurst: "budget r now p \<le> maxBurst p"
  by (auto simp: budget_def Let_def)

lemma maxBurst_ge: "14720 \<le> maxBurst p"
  by (auto simp: maxBurst_def Let_def float_of_int_exact split: option.splits)

lemma Seconds_near:
  assumes "0 \<le> d" and "d \<le> 2 ^ 53"
  shows "near 2 (of_int d / 1000000000) (Seconds d)"
proof -
  let ?s = "d div second" and ?n = "d mod second"
  have b: "0 \<le> ?s" "?s \<le> 2 ^ 53" "0 \<le> ?n" "?n \<le> 2 ^ 53"
    using assms by (auto simp: pos_imp_zdiv_nonneg_iff intro: order_trans [of _ d] zdiv_mono2 [of d 1 second, simplified])
  have exact: "float_of_int ?s = of_int ?s" "float_of_int ?n = of_int ?n"
    using b by (simp_all add: float_of_int_exact)
  have eq: "Seconds d = fl (of_int ?s + fl (of_int ?n / 1000000000))"
    using assms(1) by (simp add: Seconds_def go_div_nonneg Let_def minus_div_mult_eq_mod exact)
  have "near 1 (of_int ?s :: rat) (of_int ?s)"
    using near_mono [OF near_refl, of 1 "of_int ?s"] b by simp
  moreover have "near 1 (of_int ?n / 1000000000) (fl (of_int ?n / 1000000000))"
    using near_fl [OF near_refl] b by simp
  ultimately have "near 1 (of_int ?s + of_int ?n / 1000000000) (of_int ?s + fl (of_int ?n / 1000000000))"
    by (rule near_add)
  then have two: "near (Suc 1) (of_int ?s + of_int ?n / 1000000000) (Seconds d)"
    unfolding eq using b by (intro near_fl) auto
  have "(of_int d :: rat) = of_int (?s * second + ?n)" by simp
  then have "(of_int d :: rat) = of_int ?s * 1000000000 + of_int ?n"
    by (simp only: of_int_add of_int_mult of_int_numeral)
  then have "of_int d / 1000000000 = (of_int ?s + of_int ?n / 1000000000 :: rat)"
    by (simp add: add_divide_distrib)
  then show ?thesis using two by (simp only: numeral_2_eq_2 One_nat_def)
qed

text \<open>
  The pacing rate is the gain times the congestion window over the smoothed RTT, in bytes
  per second, up to seven roundings of relative size 2^-53.
\<close>

lemma pacing_rate_accurate:
  assumes "0 < cwnd" and "cwnd \<le> 2 ^ 53" and "0 < srtt" and "srtt \<le> 2 ^ 53"
  shows "\<exists>r. PacingRate (UpdateRate cwnd srtt slowStart p) = Some r
    \<and> near 7 ((if slowStart then 2 else 5 / 4) * of_int cwnd * 1000000000 / of_int srtt) r"
proof -
  let ?g = "(if slowStart then 2 else 5 / 4) :: rat"
  have g: "?g = (if slowStart then PacingGainSlowStart else PacingGain)"
    by (simp add: PacingGain_def PacingGainSlowStart_def)
  have "near 1 (?g * of_int cwnd) (fl (?g * of_int cwnd))"
    using near_fl [OF near_refl, of "?g * of_int cwnd"] assms by simp
  from near_div [OF this Seconds_near, of srtt]
  have "near 5 (?g * of_int cwnd / (of_int srtt / 1000000000)) (fl (?g * of_int cwnd) / Seconds srtt)"
    using assms by simp
  then have "near (Suc 5) (?g * of_int cwnd / (of_int srtt / 1000000000))
      (fl (fl (?g * of_int cwnd) / Seconds srtt))"
    using assms by (intro near_fl) auto
  then have "near 7 (?g * of_int cwnd / (of_int srtt / 1000000000))
      (fl (fl (?g * of_int cwnd) / Seconds srtt))"
    using assms by (intro near_mono [where k = "Suc 5" and m = 7]) auto
  then show ?thesis
    using assms g by (auto simp: PacingRate_def UpdateRate_def Let_def float_of_int_exact)
qed

lemma fl_nonpos_iff: "fl x \<le> 0 \<longleftrightarrow> x \<le> 0"
proof
  assume "x \<le> 0"
  have "fl x - x \<le> - x / 2 ^ 53" using abs_le_D1 [OF fl_error [of x]] \<open>x \<le> 0\<close> by simp
  then show "fl x \<le> 0" using \<open>x \<le> 0\<close> by (simp add: field_simps)
next
  assume "fl x \<le> 0"
  then show "x \<le> 0" using fl_pos [of x] by linarith
qed

text \<open>
  A paced sender is told to go on exactly when the budget holds a full datagram, and
  otherwise to wait at least \<^verbatim>\<open>MinPacingDelay\<close>; an unpaced one never waits. The budget never
  exceeds the burst.
\<close>

lemma pacer_waits_iff_short:
  "(case PacingRate p of
      None \<Rightarrow> TimeUntilSend gm now p = 0
    | Some r \<Rightarrow> budget r now p \<le> maxBurst p
        \<and> (if of_int MaxDatagramSize \<le> budget r now p then TimeUntilSend gm now p = 0
           else MinPacingDelay \<le> TimeUntilSend gm now p))"
  using budget_le_maxBurst
  by (auto simp: PacingRate_def TimeUntilSend_def Let_def float_of_int_exact fl_nonpos_iff
      split: option.splits)



end
