(* ===== verification/Udx_Congestion.thy ===== *)
theory Udx_Congestion
  imports Udx_Pacing
begin

text \<open>
  The congestion controller (\<^verbatim>\<open>congestion.go\<close>): RTT estimation, slow start, CUBIC, recovery
  and the probe timeout. \<^verbatim>\<open>cc.clock\<close> is the argument \<open>now\<close>, a timer is the instant it is set
  to fire at, and the callback \<^verbatim>\<open>lastSentSeqFn\<close> is its answer (\<open>None\<close> when it is not set).
  Window sizes and durations are integers; \<^verbatim>\<open>cubicUpdate\<close>, whose target grows with the cube of
  the time since the last loss, has the wrap-around of its \<^verbatim>\<open>int\<close> arithmetic written out.
  A product followed by a sum is rounded twice, as on a machine without fused multiply-add.
\<close>

section \<open>State\<close>

definition BetaCubic :: rat where "BetaCubic = fl (7 / 10)"
definition CubicC :: rat where "CubicC = fl (4 / 10)"

record CongestionController =
  cwnd :: int
  ssthresh :: int
  wMax :: int
  cubic_k :: rat
  epochStart :: time
  smoothedRtt :: duration
  rttVar :: duration
  minRtt :: duration
  latestRtt :: duration
  firstRttSample :: bool
  inflight :: int
  inRecovery :: bool
  recoveryEndSeq :: int
  ptoTimer :: "time option"
  ptoCount :: int
  lastSendTime :: time
  Pacer :: PacingController

definition NewCongestionController :: CongestionController where
  "NewCongestionController =
     \<lparr>cwnd = InitialCwnd, ssthresh = 2 ^ 63 - 1, wMax = 0, cubic_k = 0, epochStart = 0,
      smoothedRtt = InitialRTT, rttVar = InitialRTTVar, minRtt = 0, latestRtt = 0,
      firstRttSample = True, inflight = 0, inRecovery = False, recoveryEndSeq = -1,
      ptoTimer = None, ptoCount = 0, lastSendTime = 0, Pacer = NewPacingController\<rparr>"

section \<open>The probe timeout\<close>

definition pto :: "CongestionController \<Rightarrow> duration" where
  "pto cc = (let v = 4 * rttVar cc;
                 v = (if v < LossTimerGranularity then LossTimerGranularity else v)
             in smoothedRtt cc + v + MaxAckDelay)"

definition nextPTO :: "CongestionController \<Rightarrow> duration" where
  "nextPTO cc = (let shift = (if ptoCount cc > 20 then 20 else ptoCount cc)
                 in push_bit (nat shift) (pto cc))"

definition armPtoTimer :: "time \<Rightarrow> CongestionController \<Rightarrow> CongestionController" where
  "armPtoTimer now cc =
     (let wait = nextPTO cc;
          wait = (if lastSendTime cc \<noteq> 0
                  then let remaining = time_sub (lastSendTime cc + wait) now
                       in if remaining < wait then remaining else wait
                  else wait);
          wait = (if wait < LossTimerGranularity then LossTimerGranularity else wait)
      in cc\<lparr>ptoTimer := Some (now + wait)\<rparr>)"

text \<open>
  \<^verbatim>\<open>onPtoTimeout\<close> releases the mutex to call \<^verbatim>\<open>OnProbe\<close>: \<open>probe\<close> is what that call does to the
  controller.
\<close>

definition onPtoTimeout ::
    "time \<Rightarrow> (CongestionController \<Rightarrow> CongestionController) \<Rightarrow> CongestionController \<Rightarrow> CongestionController" where
  "onPtoTimeout now probe cc =
     (let cc = probe (cc\<lparr>ptoCount := ptoCount cc + 1, ptoTimer := None\<rparr>)
      in if inflight cc > 0 \<and> ptoTimer cc = None
         then let cc = cc\<lparr>lastSendTime := now\<rparr> in cc\<lparr>ptoTimer := Some (now + nextPTO cc)\<rparr>
         else cc)"

definition FirePTO ::
    "time \<Rightarrow> (CongestionController \<Rightarrow> CongestionController) \<Rightarrow> CongestionController \<Rightarrow> CongestionController" where
  "FirePTO now probe cc = onPtoTimeout now probe cc"

definition CC_Destroy :: "CongestionController \<Rightarrow> CongestionController" where
  "CC_Destroy cc = cc\<lparr>ptoTimer := None\<rparr>"

definition PersistentCongestionDuration :: "CongestionController \<Rightarrow> duration" where
  "PersistentCongestionDuration cc = pto cc * PersistentCongestionThreshold"

section \<open>Sending and acknowledgement\<close>

definition CC_CanSend :: "int \<Rightarrow> CongestionController \<Rightarrow> bool" where
  "CC_CanSend bytes cc \<longleftrightarrow> inflight cc + bytes \<le> cwnd cc"

definition Available :: "CongestionController \<Rightarrow> int" where
  "Available cc = (if inflight cc \<ge> cwnd cc then 0 else cwnd cc - inflight cc)"

definition CC_OnPacketSent :: "time \<Rightarrow> int \<Rightarrow> CongestionController \<Rightarrow> CongestionController" where
  "CC_OnPacketSent now bytes cc =
     armPtoTimer now (cc\<lparr>inflight := inflight cc + bytes, lastSendTime := now\<rparr>)"

definition updatePacingRate :: "CongestionController \<Rightarrow> CongestionController" where
  "updatePacingRate cc =
     (if firstRttSample cc then cc
      else cc\<lparr>Pacer := UpdateRate (cwnd cc) (smoothedRtt cc) (cwnd cc < ssthresh cc) (Pacer cc)\<rparr>)"

definition updateRtt :: "time \<Rightarrow> time \<Rightarrow> duration \<Rightarrow> CongestionController \<Rightarrow> CongestionController" where
  "updateRtt now sentTime ackDelay cc =
     (let latest = time_sub now sentTime
      in if latest < 0 then cc
         else if firstRttSample cc
         then cc\<lparr>firstRttSample := False, latestRtt := latest, minRtt := latest,
                 smoothedRtt := latest, rttVar := go_div latest 2\<rparr>
         else let cc = (if latest < minRtt cc then cc\<lparr>minRtt := latest\<rparr> else cc);
                  ackDelay = (if ackDelay > MaxAckDelay then MaxAckDelay else ackDelay);
                  latest = (if latest \<ge> minRtt cc + ackDelay then latest - ackDelay else latest);
                  cc = cc\<lparr>latestRtt := latest\<rparr>;
                  rttVarSample = smoothedRtt cc - latest;
                  rttVarSample = (if rttVarSample < 0 then - rttVarSample else rttVarSample)
              in cc\<lparr>rttVar := go_div (3 * rttVar cc + rttVarSample) 4,
                    smoothedRtt := go_div (7 * smoothedRtt cc + latest) 8\<rparr>)"

definition cubicUpdate :: "go_math \<Rightarrow> time \<Rightarrow> int \<Rightarrow> CongestionController \<Rightarrow> CongestionController" where
  "cubicUpdate gm now bytes cc =
     (let cc = (if epochStart cc = 0 then cc\<lparr>epochStart := now\<rparr> else cc);
          t = Seconds (time_sub now (epochStart cc));
          wCubic = fl (fl (CubicC * pow3 (fl (t - cubic_k cc)))
                       + fl (float_of_int (wMax cc) / float_of_int MaxDatagramSize));
          targetCwndBytes = int_of_float (int_oob gm) (fl (wCubic * float_of_int MaxDatagramSize));
          wTcp = wrap64 (cwnd cc + go_div (wrap64 (MaxDatagramSize * bytes)) (cwnd cc))
      in if targetCwndBytes < wTcp then cc\<lparr>cwnd := wTcp\<rparr>
         else if cwnd cc < targetCwndBytes
         then let increase = go_div (wrap64 (wrap64 (targetCwndBytes - cwnd cc) * MaxDatagramSize)) (cwnd cc)
              in cc\<lparr>cwnd := wrap64 (cwnd cc + increase)\<rparr>
         else cc\<lparr>cwnd := wrap64 (cwnd cc + go_div (wrap64 (MaxDatagramSize * bytes)) (cwnd cc))\<rparr>)"

definition OnPacketAcked ::
    "go_math \<Rightarrow> time \<Rightarrow> int \<Rightarrow> time \<Rightarrow> duration \<Rightarrow> bool \<Rightarrow> int \<Rightarrow> CongestionController \<Rightarrow> CongestionController" where
  "OnPacketAcked gm now bytes sentTime ackDelay isNewCumulativeAck largest_acked cc =
     (let cc = cc\<lparr>inflight := inflight cc - bytes\<rparr>;
          cc = (if inflight cc < 0 then cc\<lparr>inflight := 0\<rparr> else cc);
          cc = (if isNewCumulativeAck
                then let cc = updateRtt now sentTime ackDelay cc;
                         cc = (if inRecovery cc \<and> largest_acked > recoveryEndSeq cc
                               then cc\<lparr>inRecovery := False\<rparr> else cc)
                     in if \<not> inRecovery cc
                        then if cwnd cc < ssthresh cc then cc\<lparr>cwnd := cwnd cc + bytes\<rparr>
                             else cubicUpdate gm now bytes cc
                        else cc
                else cc);
          cc = cc\<lparr>ptoTimer := None, ptoCount := 0\<rparr>;
          cc = (if inflight cc > 0 then armPtoTimer now cc else cc)
      in updatePacingRate cc)"

section \<open>Loss\<close>

definition OnCongestionEvent ::
    "go_math \<Rightarrow> time \<Rightarrow> int option \<Rightarrow> CongestionController \<Rightarrow> CongestionController" where
  "OnCongestionEvent gm now lastSentSeqFn cc =
     (if inRecovery cc then cc
      else let cc = cc\<lparr>epochStart := now, inRecovery := True\<rparr>;
               cc = (case lastSentSeqFn of Some q \<Rightarrow> cc\<lparr>recoveryEndSeq := q\<rparr> | None \<Rightarrow> cc);
               cc = cc\<lparr>wMax := cwnd cc\<rparr>;
               cc = cc\<lparr>ssthresh := int_of_float (int_oob gm) (fl (float_of_int (wMax cc) * BetaCubic))\<rparr>;
               cc = (if ssthresh cc < MinCwnd then cc\<lparr>ssthresh := MinCwnd\<rparr> else cc);
               wMaxMSS = fl (float_of_int (wMax cc) / float_of_int MaxDatagramSize);
               diff = fl (fl (wMaxMSS * fl (3 / 10)) / CubicC);
               cc = cc\<lparr>cubic_k := Cbrt gm diff\<rparr>
           in updatePacingRate (cc\<lparr>cwnd := ssthresh cc\<rparr>))"

definition OnPacketLost ::
    "go_math \<Rightarrow> time \<Rightarrow> int option \<Rightarrow> int \<Rightarrow> CongestionController \<Rightarrow> CongestionController" where
  "OnPacketLost gm now lastSentSeqFn bytes cc =
     (let cc = cc\<lparr>inflight := inflight cc - bytes\<rparr>;
          cc = (if inflight cc < 0 then cc\<lparr>inflight := 0\<rparr> else cc)
      in OnCongestionEvent gm now lastSentSeqFn cc)"

definition OnPersistentCongestion :: "CongestionController \<Rightarrow> CongestionController" where
  "OnPersistentCongestion cc =
     updatePacingRate (cc\<lparr>cwnd := MinCwnd, inRecovery := False, recoveryEndSeq := -1, epochStart := 0\<rparr>)"

definition SetSmoothedRtt :: "duration \<Rightarrow> CongestionController \<Rightarrow> CongestionController" where
  "SetSmoothedRtt d cc = cc\<lparr>smoothedRtt := d\<rparr>"

definition SetRttVar :: "duration \<Rightarrow> CongestionController \<Rightarrow> CongestionController" where
  "SetRttVar d cc = cc\<lparr>rttVar := d\<rparr>"

definition HasRttSample :: "CongestionController \<Rightarrow> bool" where
  "HasRttSample cc \<longleftrightarrow> \<not> firstRttSample cc"

section \<open>The window arithmetic\<close>

lemma fl_abs_le: "\<bar>x\<bar> \<le> B \<Longrightarrow> \<bar>fl x\<bar> \<le> B * (101 / 100)"
proof -
  assume x: "\<bar>x\<bar> \<le> B"
  have "\<bar>fl x - x\<bar> \<le> \<bar>x\<bar> / 2 ^ 53" by (rule fl_error)
  moreover have "\<bar>x\<bar> / 2 ^ 53 \<le> \<bar>x\<bar> / 100" by (rule divide_left_mono) auto
  ultimately show ?thesis using x by linarith
qed

lemma abs_mult_le:
  fixes x y :: rat
  shows "\<bar>x\<bar> \<le> A \<Longrightarrow> \<bar>y\<bar> \<le> B \<Longrightarrow> \<bar>x * y\<bar> \<le> A * B"
  unfolding abs_mult by (rule mult_mono) auto

lemma pow3_abs_le: "\<bar>x\<bar> \<le> 10100 \<Longrightarrow> \<bar>pow3 x\<bar> \<le> 1100000000000"
proof -
  assume x: "\<bar>x\<bar> \<le> 10100"
  have "\<bar>fl (x * x)\<bar> \<le> 10100 * 10100 * (101 / 100)" by (rule fl_abs_le [OF abs_mult_le [OF x x]])
  from fl_abs_le [OF abs_mult_le [OF x this]] show ?thesis unfolding pow3_def by simp
qed

definition epoch_ok :: "time \<Rightarrow> CongestionController \<Rightarrow> bool" where
  "epoch_ok now cc \<longleftrightarrow> epochStart cc = 0 \<or> (0 \<le> now - epochStart cc \<and> now - epochStart cc \<le> 3600 * second)"

lemma Seconds_hour:
  assumes "0 \<le> d" and "d \<le> 3600 * second"
  shows "0 \<le> Seconds d" and "Seconds d \<le> 3700"
proof -
  let ?s = "d div second" and ?n = "d mod second"
  have s: "0 \<le> ?s" "?s \<le> 3600" using assms by (auto simp: pos_imp_zdiv_nonneg_iff)
  have n: "0 \<le> ?n" "?n \<le> second" by (auto intro: less_imp_le)
  have ex: "float_of_int ?s = of_int ?s" "float_of_int ?n = of_int ?n"
    using s n by (simp_all add: float_of_int_exact)
  have eq: "Seconds d = fl (of_int ?s + fl (of_int ?n / 1000000000))"
    using assms(1) by (simp add: Seconds_def go_div_nonneg Let_def minus_div_mult_eq_mod ex)
  have q: "0 \<le> fl (of_int ?n / 1000000000)" by (rule fl_nonneg) simp
  then show "0 \<le> Seconds d" unfolding eq using s by (intro fl_nonneg) simp
  have "(of_int ?n :: rat) \<le> of_int second" using n(2) by (simp only: of_int_le_iff)
  then have "\<bar>of_int ?n / 1000000000 :: rat\<bar> \<le> 1" by simp
  from fl_abs_le [OF this] have n2: "fl (of_int ?n / 1000000000) \<le> 101 / 100" by simp
  have "(of_int ?s :: rat) \<le> 3600" using s(2) by simp
  then have "\<bar>of_int ?s + fl (of_int ?n / 1000000000)\<bar> \<le> (3602 :: rat)"
    using n2 q s(1) by simp
  from fl_abs_le [OF this] show "Seconds d \<le> 3700" unfolding eq by simp
qed

lemma CubicC_bounds: "0 < CubicC" "\<bar>CubicC\<bar> \<le> 41 / 100"
proof -
  show "0 < CubicC" unfolding CubicC_def by (rule fl_pos) simp
  have "\<bar>4 / 10 :: rat\<bar> \<le> 4 / 10" by simp
  from fl_abs_le [OF this] show "\<bar>CubicC\<bar> \<le> 41 / 100" unfolding CubicC_def by simp
qed

lemma CubicC_ge: "39 / 100 \<le> CubicC"
proof -
  have "\<bar>fl (4 / 10) - 4 / 10\<bar> \<le> 1 / 100" by (rule order_trans [OF fl_error]) simp
  then show ?thesis unfolding CubicC_def abs_diff_le_iff by simp
qed

lemma BetaCubic_error: "\<bar>BetaCubic - 7 / 10\<bar> \<le> 1 / 2 ^ 53"
  using fl_error [of "7 / 10"] unfolding BetaCubic_def by simp

lemma trunc_rat_abs: "\<bar>x\<bar> \<le> of_int B \<Longrightarrow> \<bar>trunc_rat x\<bar> \<le> B"
  unfolding trunc_rat_def by (auto simp: abs_le_iff) linarith+

lemma int_of_float_abs: "\<bar>x\<bar> \<le> of_int B \<Longrightarrow> B < 2 ^ 63 \<Longrightarrow> \<bar>int_of_float oob x\<bar> \<le> B"
  using trunc_rat_abs [of x B] by (auto simp: int_of_float_def abs_le_iff)

lemma cubic_target_bounded:
  assumes t: "0 \<le> t" "t \<le> 3700" and k: "0 \<le> k" "k \<le> 10000" and w: "0 \<le> w" "w \<le> 2 ^ 40"
  shows "\<bar>int_of_float oob (fl (fl (fl (CubicC * pow3 (fl (t - k)))
            + fl (float_of_int w / float_of_int MaxDatagramSize)) * float_of_int MaxDatagramSize))\<bar> \<le> 2 ^ 50"
    (is "\<bar>int_of_float oob ?x\<bar> \<le> _")
proof -
  have "\<bar>t - k\<bar> \<le> 10000" using t k by simp
  from fl_abs_le [OF this] have "\<bar>fl (t - k)\<bar> \<le> 10100" by simp
  from fl_abs_le [OF abs_mult_le [OF CubicC_bounds(2) pow3_abs_le [OF this]]]
  have a: "\<bar>fl (CubicC * pow3 (fl (t - k)))\<bar> \<le> 460000000000" by simp
  have ex: "float_of_int w = of_int w" "float_of_int 1472 = 1472"
    using w by (simp_all add: float_of_int_exact)
  have "(of_int w :: rat) \<le> of_int (2 ^ 40)" using w(2) by (simp only: of_int_le_iff)
  then have "\<bar>float_of_int w / float_of_int MaxDatagramSize\<bar> \<le> 1000000000" using w(1) by (simp add: ex)
  from fl_abs_le [OF this]
  have "\<bar>fl (float_of_int w / float_of_int MaxDatagramSize)\<bar> \<le> 1010000000" by simp
  with a have "\<bar>fl (CubicC * pow3 (fl (t - k))) + fl (float_of_int w / float_of_int MaxDatagramSize)\<bar>
      \<le> 470000000000" by linarith
  from fl_abs_le [OF this] have b: "\<bar>fl (fl (CubicC * pow3 (fl (t - k)))
      + fl (float_of_int w / float_of_int MaxDatagramSize))\<bar> \<le> 480000000000" by simp
  have "\<bar>float_of_int MaxDatagramSize\<bar> \<le> (1472 :: rat)" by (simp add: ex)
  from fl_abs_le [OF abs_mult_le [OF b this]] have "\<bar>?x\<bar> \<le> of_int (2 ^ 50)" by simp
  then show ?thesis by (rule int_of_float_abs) simp
qed

text \<open>The range in which the window arithmetic is exact.\<close>

definition window_ok :: "CongestionController \<Rightarrow> bool" where
  "window_ok cc \<longleftrightarrow> MinCwnd \<le> cwnd cc \<and> cwnd cc \<le> 2 ^ 40 \<and> 0 \<le> wMax cc \<and> wMax cc \<le> 2 ^ 40
     \<and> 0 \<le> cubic_k cc \<and> cubic_k cc \<le> 10000"

lemma window_increase:
  assumes "MinCwnd \<le> c" "c \<le> 2 ^ 40" "0 \<le> a" "a \<le> 2 ^ 51 * 1472"
  shows "c \<le> wrap64 (c + go_div (wrap64 a) c)"
proof -
  have a: "wrap64 a = a" using assms by (intro wrap64_id) auto
  have "0 \<le> go_div a c \<and> go_div a c \<le> a" using assms by (intro go_div_bounds) auto
  then show ?thesis unfolding a using assms by (subst wrap64_id) auto
qed

lemma cubicUpdate_grows:
  assumes ok: "window_ok cc" and e: "epoch_ok now cc" and b: "0 \<le> bytes" "bytes \<le> 65535"
  shows "cwnd cc \<le> cwnd (cubicUpdate gm now bytes cc)"
proof -
  define cc1 where "cc1 = (if epochStart cc = 0 then cc\<lparr>epochStart := now\<rparr> else cc)"
  have same: "cwnd cc1 = cwnd cc" "wMax cc1 = wMax cc" "cubic_k cc1 = cubic_k cc" by (auto simp: cc1_def)
  define d where "d = time_sub now (epochStart cc1)"
  have d: "0 \<le> d" "d \<le> 3600 * second"
    using e by (auto simp: d_def cc1_def epoch_ok_def time_sub_def maxDuration_def minDuration_def)
  define target where "target = int_of_float (int_oob gm) (fl (fl (fl (CubicC * pow3 (fl (Seconds d - cubic_k cc1)))
            + fl (float_of_int (wMax cc1) / float_of_int MaxDatagramSize)) * float_of_int MaxDatagramSize))"
  have t: "\<bar>target\<bar> \<le> 2 ^ 50" unfolding target_def
    using Seconds_hour [OF d] ok by (intro cubic_target_bounded) (simp_all add: same window_ok_def)
  have c: "MinCwnd \<le> cwnd cc" "cwnd cc \<le> 2 ^ 40" using ok by (simp_all add: window_ok_def)
  have tcp: "cwnd cc \<le> wrap64 (cwnd cc + go_div (wrap64 (MaxDatagramSize * bytes)) (cwnd cc))"
    using b by (intro window_increase c) auto
  have cub: "cwnd cc \<le> wrap64 (cwnd cc + go_div (wrap64 (wrap64 (target - cwnd cc) * MaxDatagramSize)) (cwnd cc))"
    if "cwnd cc < target"
  proof -
    have "wrap64 (target - cwnd cc) = target - cwnd cc" using t c by (intro wrap64_id) auto
    then show ?thesis using that t c by (intro window_increase c) auto
  qed
  have "cubicUpdate gm now bytes cc =
     (let wTcp = wrap64 (cwnd cc + go_div (wrap64 (MaxDatagramSize * bytes)) (cwnd cc))
      in if target < wTcp then cc1\<lparr>cwnd := wTcp\<rparr>
         else if cwnd cc < target
         then cc1\<lparr>cwnd := wrap64 (cwnd cc + go_div (wrap64 (wrap64 (target - cwnd cc) * MaxDatagramSize)) (cwnd cc))\<rparr>
         else cc1\<lparr>cwnd := wTcp\<rparr>)"
    unfolding cubicUpdate_def Let_def cc1_def [symmetric] same target_def d_def by (rule refl)
  then show ?thesis using tcp cub by (auto simp: Let_def)
qed

section \<open>What each helper leaves alone\<close>

lemma updateRtt_frame [simp]:
  "cwnd (updateRtt now sent d cc) = cwnd cc" "ssthresh (updateRtt now sent d cc) = ssthresh cc"
  "wMax (updateRtt now sent d cc) = wMax cc" "cubic_k (updateRtt now sent d cc) = cubic_k cc"
  "epochStart (updateRtt now sent d cc) = epochStart cc" "inflight (updateRtt now sent d cc) = inflight cc"
  "inRecovery (updateRtt now sent d cc) = inRecovery cc"
  "recoveryEndSeq (updateRtt now sent d cc) = recoveryEndSeq cc"
  by (simp_all add: updateRtt_def Let_def)

lemma updatePacingRate_frame [simp]:
  "cwnd (updatePacingRate cc) = cwnd cc" "ssthresh (updatePacingRate cc) = ssthresh cc"
  "wMax (updatePacingRate cc) = wMax cc" "cubic_k (updatePacingRate cc) = cubic_k cc"
  "inflight (updatePacingRate cc) = inflight cc" "inRecovery (updatePacingRate cc) = inRecovery cc"
  "recoveryEndSeq (updatePacingRate cc) = recoveryEndSeq cc" "ptoTimer (updatePacingRate cc) = ptoTimer cc"
  by (simp_all add: updatePacingRate_def)

lemma armPtoTimer_frame [simp]:
  "cwnd (armPtoTimer now cc) = cwnd cc" "ssthresh (armPtoTimer now cc) = ssthresh cc"
  "wMax (armPtoTimer now cc) = wMax cc" "cubic_k (armPtoTimer now cc) = cubic_k cc"
  "inflight (armPtoTimer now cc) = inflight cc" "inRecovery (armPtoTimer now cc) = inRecovery cc"
  "\<exists>t. ptoTimer (armPtoTimer now cc) = Some t"
  by (simp_all add: armPtoTimer_def Let_def)

lemma cubicUpdate_frame [simp]:
  "ssthresh (cubicUpdate gm now b cc) = ssthresh cc" "wMax (cubicUpdate gm now b cc) = wMax cc"
  "cubic_k (cubicUpdate gm now b cc) = cubic_k cc" "inflight (cubicUpdate gm now b cc) = inflight cc"
  "inRecovery (cubicUpdate gm now b cc) = inRecovery cc"
  by (simp_all add: cubicUpdate_def Let_def)

lemma OnPacketAcked_fields:
  "inflight (OnPacketAcked gm now b sent d cum l cc) = max 0 (inflight cc - b)"
  "ssthresh (OnPacketAcked gm now b sent d cum l cc) = ssthresh cc"
  "wMax (OnPacketAcked gm now b sent d cum l cc) = wMax cc"
  "cubic_k (OnPacketAcked gm now b sent d cum l cc) = cubic_k cc"
  "inflight cc - b > 0 \<Longrightarrow> ptoTimer (OnPacketAcked gm now b sent d cum l cc) \<noteq> None"
  by (simp_all add: OnPacketAcked_def Let_def)

lemma cubicUpdate_cong:
  assumes "cwnd c1 = cwnd c2" "epochStart c1 = epochStart c2" "wMax c1 = wMax c2" "cubic_k c1 = cubic_k c2"
  shows "cwnd (cubicUpdate gm now b c1) = cwnd (cubicUpdate gm now b c2)"
  using assms by (simp add: cubicUpdate_def Let_def)

text \<open>The window after an acknowledgement, branch by branch.\<close>

lemma OnPacketAcked_cwnd:
  "cwnd (OnPacketAcked gm now b sent d cum l cc) =
     (if \<not> cum \<or> inRecovery cc \<and> l \<le> recoveryEndSeq cc then cwnd cc
      else if cwnd cc < ssthresh cc then cwnd cc + b
      else cwnd (cubicUpdate gm now b cc))"
  by (auto simp: OnPacketAcked_def Let_def intro!: cubicUpdate_cong)

section \<open>Runs of the controller\<close>

text \<open>
  The calls the connection makes, with what the window theorems need of them: packet sizes are
  non-negative and fit a datagram, the window stays within 2^40 bytes and an epoch within an hour
  (beyond about six hours the cubic target times the datagram size leaves the range of an
  \<^verbatim>\<open>int\<close>). A PTO sends probes of the given sizes.
\<close>

inductive cc_step :: "go_math \<Rightarrow> CongestionController \<Rightarrow> CongestionController \<Rightarrow> bool" for gm where
  step_sent: "0 \<le> b \<Longrightarrow> cc_step gm cc (CC_OnPacketSent now b cc)"
| step_acked: "0 \<le> b \<Longrightarrow> b \<le> 65535 \<Longrightarrow> cwnd cc \<le> 2 ^ 40 \<Longrightarrow> epoch_ok now cc \<Longrightarrow>
    cc_step gm cc (OnPacketAcked gm now b sent d cum l cc)"
| step_lost: "0 \<le> b \<Longrightarrow> cwnd cc \<le> 2 ^ 40 \<Longrightarrow> cc_step gm cc (OnPacketLost gm now seq b cc)"
| step_persistent: "cc_step gm cc (OnPersistentCongestion cc)"
| step_pto: "\<forall>b \<in> set bs. 0 \<le> b \<Longrightarrow> cc_step gm cc (onPtoTimeout now (fold (CC_OnPacketSent now) bs) cc)"

text \<open>What is relied on of \<^verbatim>\<open>math.Cbrt\<close>: the cube of its result is not twice too large.\<close>

definition cbrt_ok :: "go_math \<Rightarrow> bool" where
  "cbrt_ok gm \<longleftrightarrow> (\<forall>x \<ge> 0. 0 \<le> Cbrt gm x \<and> Cbrt gm x ^ 3 \<le> 2 * x)"

definition cc_inv :: "CongestionController \<Rightarrow> bool" where
  "cc_inv cc \<longleftrightarrow> MinCwnd \<le> cwnd cc \<and> MinCwnd \<le> ssthresh cc \<and> 0 \<le> inflight cc
     \<and> 0 \<le> wMax cc \<and> wMax cc \<le> 2 ^ 40 \<and> 0 \<le> cubic_k cc \<and> cubic_k cc \<le> 10000
     \<and> (inflight cc > 0 \<longrightarrow> ptoTimer cc \<noteq> None)"

lemma cube_root_le: "(0 :: rat) \<le> k \<Longrightarrow> k ^ 3 \<le> 10000 ^ 3 \<Longrightarrow> k \<le> 10000"
  by (rule power_le_imp_le_base [where n = 2]) (simp_all add: eval_nat_numeral)

lemma cc_inv_init: "cc_inv NewCongestionController"
  by (simp add: cc_inv_def NewCongestionController_def)

lemma cc_inv_sent: "cc_inv cc \<Longrightarrow> 0 \<le> b \<Longrightarrow> cc_inv (CC_OnPacketSent now b cc)"
  by (simp add: cc_inv_def CC_OnPacketSent_def)

lemma OnPacketAcked_grows:
  assumes "cc_inv cc" "cwnd cc \<le> 2 ^ 40" "epoch_ok now cc" "0 \<le> b" "b \<le> 65535"
  shows "cwnd cc \<le> cwnd (OnPacketAcked gm now b sent d cum l cc)"
proof -
  have "window_ok cc" using assms by (simp add: cc_inv_def window_ok_def)
  from cubicUpdate_grows [OF this assms(3-5)] show ?thesis using assms(4) by (simp add: OnPacketAcked_cwnd)
qed

lemma cc_inv_acked:
  assumes "cc_inv cc" "cwnd cc \<le> 2 ^ 40" "epoch_ok now cc" "0 \<le> b" "b \<le> 65535"
  shows "cc_inv (OnPacketAcked gm now b sent d cum l cc)"
  using OnPacketAcked_grows [OF assms, of gm sent d cum l] assms(1) OnPacketAcked_fields(5) [where b = b and cc = cc]
  by (auto simp: cc_inv_def OnPacketAcked_fields(1-4))

lemma OnCongestionEvent_cwnd:
  "\<not> inRecovery cc \<Longrightarrow> cwnd (OnCongestionEvent gm now q cc)
     = max MinCwnd (int_of_float (int_oob gm) (fl (float_of_int (cwnd cc) * BetaCubic)))"
  by (simp add: OnCongestionEvent_def Let_def split: option.splits)

lemma OnCongestionEvent_fields:
  "inflight (OnCongestionEvent gm now q cc) = inflight cc"
  "ptoTimer (OnCongestionEvent gm now q cc) = ptoTimer cc"
  "inRecovery (OnCongestionEvent gm now q cc)"
  "\<not> inRecovery cc \<Longrightarrow> wMax (OnCongestionEvent gm now q cc) = cwnd cc"
  "\<not> inRecovery cc \<Longrightarrow> ssthresh (OnCongestionEvent gm now q cc) = cwnd (OnCongestionEvent gm now q cc)"
  "\<not> inRecovery cc \<Longrightarrow> cubic_k (OnCongestionEvent gm now q cc) =
     Cbrt gm (fl (fl (fl (float_of_int (cwnd cc) / float_of_int MaxDatagramSize) * fl (3 / 10)) / CubicC))"
  by (simp_all add: OnCongestionEvent_def Let_def split: option.splits)

lemma recovery_k_bounded:
  assumes "cbrt_ok gm" "0 \<le> w" "w \<le> 2 ^ 40"
  defines "x \<equiv> fl (fl (fl (float_of_int w / float_of_int MaxDatagramSize) * fl (3 / 10)) / CubicC)"
  shows "0 \<le> Cbrt gm x \<and> Cbrt gm x \<le> 10000"
proof -
  have ex: "float_of_int w = of_int w" "float_of_int 1472 = 1472" using assms by (simp_all add: float_of_int_exact)
  have "(of_int w :: rat) \<le> of_int (2 ^ 40)" using assms(3) by (simp only: of_int_le_iff)
  then have "\<bar>float_of_int w / float_of_int MaxDatagramSize\<bar> \<le> 1000000000" using assms(2) by (simp add: ex)
  from fl_abs_le [OF this] have a: "\<bar>fl (float_of_int w / float_of_int MaxDatagramSize)\<bar> \<le> 1010000000" by simp
  have "\<bar>3 / 10 :: rat\<bar> \<le> 3 / 10" by simp
  from fl_abs_le [OF abs_mult_le [OF a fl_abs_le [OF this]]]
  have b: "\<bar>fl (fl (float_of_int w / float_of_int MaxDatagramSize) * fl (3 / 10))\<bar> \<le> 390000000" by simp
  have "\<bar>fl (fl (float_of_int w / float_of_int MaxDatagramSize) * fl (3 / 10)) / CubicC\<bar> \<le> 390000000 / (39 / 100)"
    unfolding abs_divide using b CubicC_ge by (intro frac_le) auto
  from fl_abs_le [OF this] have hi: "x \<le> 2000000000" unfolding x_def by simp
  have "0 \<le> x" unfolding x_def using assms(2) CubicC_bounds(1)
    by (intro fl_nonneg divide_nonneg_nonneg mult_nonneg_nonneg) (simp_all add: ex)
  then have c: "0 \<le> Cbrt gm x" "Cbrt gm x ^ 3 \<le> 2 * x" using assms(1) by (simp_all add: cbrt_ok_def)
  then show ?thesis using hi by (auto intro!: cube_root_le)
qed

lemma cc_inv_event:
  assumes "cc_inv cc" "cwnd cc \<le> 2 ^ 40" "cbrt_ok gm"
  shows "cc_inv (OnCongestionEvent gm now q cc)"
proof (cases "inRecovery cc")
  case True
  then show ?thesis using assms(1) by (simp add: OnCongestionEvent_def)
next
  case False
  have w: "0 \<le> cwnd cc" using assms(1) by (simp add: cc_inv_def)
  show ?thesis
    using assms(1,2) recovery_k_bounded [OF assms(3) w assms(2)] w OnCongestionEvent_cwnd [OF False, of gm now q]
    by (simp add: cc_inv_def OnCongestionEvent_fields False)
qed

lemma cc_inv_lost:
  assumes "cc_inv cc" "cwnd cc \<le> 2 ^ 40" "cbrt_ok gm" "0 \<le> b"
  shows "cc_inv (OnPacketLost gm now q b cc)"
  unfolding OnPacketLost_def Let_def using assms
  by (intro cc_inv_event) (auto simp: cc_inv_def)

lemma cc_inv_persistent: "cc_inv cc \<Longrightarrow> cc_inv (OnPersistentCongestion cc)"
  by (simp add: cc_inv_def OnPersistentCongestion_def)

text \<open>The part of the invariant that holds while the timer is being replaced.\<close>

lemma cc_inv_sends:
  "cc_inv (cc\<lparr>ptoTimer := Some 0\<rparr>) \<Longrightarrow> \<forall>b \<in> set bs. 0 \<le> b \<Longrightarrow>
     cc_inv ((fold (CC_OnPacketSent now) bs cc)\<lparr>ptoTimer := Some 0\<rparr>)"
  by (induction bs arbitrary: cc) (simp_all add: cc_inv_def CC_OnPacketSent_def)

lemma cc_inv_pto:
  assumes "cc_inv cc" "\<forall>b \<in> set bs. 0 \<le> b"
  shows "cc_inv (onPtoTimeout now (fold (CC_OnPacketSent now) bs) cc)"
proof -
  let ?c = "cc\<lparr>ptoCount := ptoCount cc + 1, ptoTimer := None\<rparr>"
  have "cc_inv (?c\<lparr>ptoTimer := Some 0\<rparr>)" using assms(1) by (simp add: cc_inv_def)
  from cc_inv_sends [OF this assms(2), of now] show ?thesis
    by (simp add: onPtoTimeout_def Let_def cc_inv_def)
qed

lemma cc_inv_step: "cc_step gm cc cc' \<Longrightarrow> cbrt_ok gm \<Longrightarrow> cc_inv cc \<Longrightarrow> cc_inv cc'"
  by (induction rule: cc_step.induct)
    (simp_all add: cc_inv_sent cc_inv_acked cc_inv_lost cc_inv_persistent cc_inv_pto)

lemma cc_inv_run:
  "(cc_step gm)\<^sup>*\<^sup>* cc cc' \<Longrightarrow> cbrt_ok gm \<Longrightarrow> cc_inv cc \<Longrightarrow> cc_inv cc'"
  by (induction rule: rtranclp_induct) (blast intro: cc_inv_step)+

section \<open>Contraction\<close>

lemma beta_window:
  assumes "0 \<le> w" "w \<le> 2 ^ 40"
  shows "7 * w - 11 \<le> 10 * int_of_float oob (fl (float_of_int w * BetaCubic))"
    and "10 * int_of_float oob (fl (float_of_int w * BetaCubic)) \<le> 7 * w + 1"
proof -
  have ex: "float_of_int w = of_int w" using assms by (simp add: float_of_int_exact)
  have w: "(0 :: rat) \<le> of_int w" "(of_int w :: rat) \<le> 1099511627776"
    using assms(1) of_int_le_iff [where ?'a = rat, of w "2 ^ 40"] assms(2) by simp_all
  have "\<bar>of_int w * (BetaCubic - 7 / 10)\<bar> \<le> 2 ^ 40 * (1 / 2 ^ 53)"
    using w by (intro abs_mult_le BetaCubic_error) simp_all
  then have p: "\<bar>of_int w * BetaCubic - of_int w * (7 / 10)\<bar> \<le> 1 / 8192" by (simp add: algebra_simps)
  then have "\<bar>of_int w * BetaCubic\<bar> \<le> 1099511627776" using w by linarith
  then have "\<bar>of_int w * BetaCubic\<bar> / 2 ^ 53 \<le> 1 / 8192" by simp
  with fl_error [of "of_int w * BetaCubic"]
  have "\<bar>fl (of_int w * BetaCubic) - of_int w * BetaCubic\<bar> \<le> 1 / 8192" by linarith
  with p have x: "\<bar>fl (of_int w * BetaCubic) - of_int w * (7 / 10)\<bar> \<le> 1 / 4096" by linarith
  have nn: "0 \<le> fl (of_int w * BetaCubic)"
    using w(1) fl_pos [of "7 / 10"] by (intro fl_nonneg) (simp add: BetaCubic_def)
  let ?n = "\<lfloor>fl (of_int w * BetaCubic)\<rfloor>"
  have f: "of_int ?n \<le> fl (of_int w * BetaCubic)" "fl (of_int w * BetaCubic) < of_int ?n + 1" by linarith+
  have "(of_int (7 * w - 11) :: rat) < of_int (10 * ?n)" "(of_int (10 * ?n) :: rat) < of_int (7 * w + 1)"
    using x f unfolding of_int_diff of_int_add of_int_mult of_int_numeral of_int_1 by linarith+
  then have n: "7 * w - 11 < 10 * ?n" "10 * ?n < 7 * w + 1" by (simp_all only: of_int_less_iff)
  moreover have "int_of_float oob (fl (of_int w * BetaCubic)) = ?n"
  proof -
    have "- (2 ^ 63) \<le> ?n" "?n < 2 ^ 63" using n assms by simp_all linarith+
    then show ?thesis using nn by (simp add: int_of_float_def trunc_rat_def)
  qed
  ultimately show "7 * w - 11 \<le> 10 * int_of_float oob (fl (float_of_int w * BetaCubic))"
    "10 * int_of_float oob (fl (float_of_int w * BetaCubic)) \<le> 7 * w + 1" by (simp_all add: ex)
qed

lemma OnPacketLost_in_recovery:
  "inRecovery cc \<Longrightarrow> cwnd (OnPacketLost gm now q b cc) = cwnd cc \<and> inRecovery (OnPacketLost gm now q b cc)"
  by (simp add: OnPacketLost_def OnCongestionEvent_def Let_def)

lemma lost_in_recovery:
  "inRecovery cc \<Longrightarrow> cwnd (fold (OnPacketLost gm now q) bs cc) = cwnd cc"
  by (induction bs arbitrary: cc) (simp_all add: OnPacketLost_in_recovery)

lemma lost_burst_cwnd:
  assumes "\<not> inRecovery cc" "bs \<noteq> []"
  shows "cwnd (fold (OnPacketLost gm now q) bs cc)
    = max MinCwnd (int_of_float (int_oob gm) (fl (float_of_int (cwnd cc) * BetaCubic)))"
proof -
  obtain b bs' where bs: "bs = b # bs'" using assms(2) by (cases bs) auto
  have "inRecovery (OnPacketLost gm now q b cc)" by (simp add: OnPacketLost_def Let_def OnCongestionEvent_fields)
  then show ?thesis using assms(1)
    by (simp add: bs lost_in_recovery) (simp add: OnPacketLost_def Let_def OnCongestionEvent_cwnd)
qed

section \<open>Round-trip estimates\<close>

definition take_samples :: "(time \<times> time \<times> duration) list \<Rightarrow> CongestionController \<Rightarrow> CongestionController" where
  "take_samples ss cc = fold (\<lambda>(now, sent, ackDelay). updateRtt now sent ackDelay) ss cc"

definition sample_in :: "duration \<Rightarrow> duration \<Rightarrow> time \<times> time \<times> duration \<Rightarrow> bool" where
  "sample_in lo hi s = (case s of (now, sent, ackDelay) \<Rightarrow> lo \<le> now - sent \<and> now - sent \<le> hi \<and> 0 \<le> ackDelay)"

definition rtt_in :: "duration \<Rightarrow> duration \<Rightarrow> CongestionController \<Rightarrow> bool" where
  "rtt_in lo hi cc \<longleftrightarrow> \<not> firstRttSample cc \<and> lo \<le> minRtt cc \<and> minRtt cc \<le> latestRtt cc \<and> latestRtt cc \<le> hi
     \<and> minRtt cc \<le> smoothedRtt cc \<and> smoothedRtt cc \<le> hi \<and> 0 \<le> rttVar cc \<and> rttVar cc \<le> hi"

lemma weighted_mean_bounds:
  fixes a :: int
  shows "a \<le> s \<Longrightarrow> a \<le> x \<Longrightarrow> s \<le> b \<Longrightarrow> x \<le> b \<Longrightarrow> a \<le> (7 * s + x) div 8 \<and> (7 * s + x) div 8 \<le> b"
    and "a \<le> s \<Longrightarrow> a \<le> x \<Longrightarrow> s \<le> b \<Longrightarrow> x \<le> b \<Longrightarrow> a \<le> (3 * s + x) div 4 \<and> (3 * s + x) div 4 \<le> b"
  by linarith+

lemma updateRtt_in:
  assumes "0 \<le> lo" "hi \<le> maxDuration" "sample_in lo hi (now, sent, d)" "firstRttSample cc \<or> rtt_in lo hi cc"
  shows "rtt_in lo hi (updateRtt now sent d cc)"
proof -
  have l: "time_sub now sent = now - sent" "lo \<le> now - sent" "now - sent \<le> hi" "0 \<le> d"
    using assms(1-3) by (auto simp: sample_in_def intro!: time_sub_exact)
  define r where "r = now - sent"
  have r: "lo \<le> r" "r \<le> hi" using l by (simp_all add: r_def)
  show ?thesis
  proof (cases "firstRttSample cc")
    case True
    then show ?thesis using r assms(1)
      by (simp add: updateRtt_def l(1) r_def [symmetric] Let_def rtt_in_def go_div_nonneg)
  next
    case False
    then have i: "lo \<le> minRtt cc" "minRtt cc \<le> smoothedRtt cc" "smoothedRtt cc \<le> hi" "0 \<le> rttVar cc" "rttVar cc \<le> hi"
      using assms(4) by (auto simp: rtt_in_def)
    define m where "m = (if r < minRtt cc then r else minRtt cc)"
    define e where "e = (if d > MaxAckDelay then MaxAckDelay else d)"
    define x where "x = (if r \<ge> m + e then r - e else r)"
    have m: "lo \<le> m" "m \<le> smoothedRtt cc" using i r by (auto simp: m_def)
    have e: "0 \<le> e" using l(4) by (simp add: e_def)
    have x: "m \<le> x" "x \<le> hi" using r e by (auto simp: x_def m_def)
    let ?v = "\<bar>smoothedRtt cc - x\<bar>"
    have eq: "updateRtt now sent d cc = cc\<lparr>minRtt := m, latestRtt := x,
        rttVar := go_div (3 * rttVar cc + ?v) 4, smoothedRtt := go_div (7 * smoothedRtt cc + x) 8\<rparr>"
      using False r assms(1) by (simp add: updateRtt_def l(1) r_def [symmetric] Let_def m_def e_def x_def abs_if)
    have v: "0 \<le> ?v" "?v \<le> hi" using i m x assms(1) by linarith+
    have "m \<le> (7 * smoothedRtt cc + x) div 8 \<and> (7 * smoothedRtt cc + x) div 8 \<le> hi"
      using m x i by (intro weighted_mean_bounds)
    moreover have "0 \<le> (3 * rttVar cc + ?v) div 4 \<and> (3 * rttVar cc + ?v) div 4 \<le> hi"
      using v i by (intro weighted_mean_bounds)
    ultimately show ?thesis using False i m x assms(1) by (simp add: eq rtt_in_def go_div_nonneg)
  qed
qed

lemma take_samples_in:
  assumes "0 \<le> lo" "hi \<le> maxDuration"
  shows "\<forall>s \<in> set ss. sample_in lo hi s \<Longrightarrow> rtt_in lo hi cc \<Longrightarrow> rtt_in lo hi (take_samples ss cc)"
  by (induction ss arbitrary: cc) (auto simp: take_samples_def intro: updateRtt_in [OF assms])

section \<open>Backoff\<close>

lemma pto_pos: "0 \<le> smoothedRtt cc \<Longrightarrow> LossTimerGranularity + MaxAckDelay \<le> pto cc"
  by (simp add: pto_def Let_def)

lemma nextPTO_eq: "0 \<le> ptoCount cc \<Longrightarrow> nextPTO cc = pto cc * 2 ^ min 20 (nat (ptoCount cc))"
  by (auto simp: nextPTO_def Let_def push_bit_eq_mult min_def nat_le_iff)

lemma nextPTO_bounds:
  assumes "0 \<le> ptoCount cc" "0 \<le> smoothedRtt cc" "pto cc * 2 ^ 20 \<le> maxDuration"
  shows "LossTimerGranularity \<le> nextPTO cc" and "nextPTO cc \<le> maxDuration"
proof -
  have p: "LossTimerGranularity \<le> pto cc" using pto_pos [OF assms(2)] by simp
  have "pto cc * 1 \<le> pto cc * 2 ^ min 20 (nat (ptoCount cc))" using p by (intro mult_left_mono) auto
  then show "LossTimerGranularity \<le> nextPTO cc" unfolding nextPTO_eq [OF assms(1)] using p by linarith
  have "pto cc * 2 ^ min 20 (nat (ptoCount cc)) \<le> pto cc * 2 ^ 20"
    using p by (intro mult_left_mono power_increasing) auto
  then show "nextPTO cc \<le> maxDuration" unfolding nextPTO_eq [OF assms(1)] using assms(3) by linarith
qed

lemma CC_OnPacketSent_deadline:
  assumes "0 \<le> ptoCount cc" "0 \<le> smoothedRtt cc" "pto cc * 2 ^ 20 \<le> maxDuration"
  shows "CC_OnPacketSent now b cc =
    cc\<lparr>inflight := inflight cc + b, lastSendTime := now, ptoTimer := Some (now + nextPTO cc)\<rparr>"
proof -
  have same: "nextPTO (cc\<lparr>inflight := inflight cc + b, lastSendTime := now\<rparr>) = nextPTO cc"
    by (simp add: nextPTO_def pto_def)
  note bounds = nextPTO_bounds [OF assms]
  have "time_sub (now + nextPTO cc) now = nextPTO cc" using bounds by (subst time_sub_exact) auto
  then show ?thesis using bounds(1) by (simp add: CC_OnPacketSent_def armPtoTimer_def Let_def same)
qed

lemma sends_deadline:
  assumes "0 \<le> ptoCount cc" "0 \<le> smoothedRtt cc" "pto cc * 2 ^ 20 \<le> maxDuration" "\<forall>b \<in> set bs. 0 \<le> b"
  shows "ptoCount (fold (CC_OnPacketSent now) bs cc) = ptoCount cc
    \<and> smoothedRtt (fold (CC_OnPacketSent now) bs cc) = smoothedRtt cc
    \<and> rttVar (fold (CC_OnPacketSent now) bs cc) = rttVar cc
    \<and> inflight cc \<le> inflight (fold (CC_OnPacketSent now) bs cc)
    \<and> ptoTimer (fold (CC_OnPacketSent now) bs cc) \<in> {Some (now + nextPTO cc), ptoTimer cc}"
  using assms
proof (induction bs arbitrary: cc)
  case (Cons b bs)
  let ?c = "cc\<lparr>inflight := inflight cc + b, lastSendTime := now, ptoTimer := Some (now + nextPTO cc)\<rparr>"
  have sent: "CC_OnPacketSent now b cc = ?c" by (rule CC_OnPacketSent_deadline) (use Cons.prems in auto)
  have same: "nextPTO ?c = nextPTO cc" "pto ?c = pto cc" by (simp_all add: nextPTO_def pto_def)
  have "0 \<le> ptoCount ?c" "0 \<le> smoothedRtt ?c" "pto ?c * 2 ^ 20 \<le> maxDuration" "\<forall>b \<in> set bs. 0 \<le> b"
    using Cons.prems by (simp_all add: same)
  from Cons.IH [OF this] show ?case using Cons.prems(4) by (simp add: sent same)
qed simp

text \<open>One PTO that nothing answers.\<close>

lemma onPtoTimeout_unanswered:
  fixes now :: time
  assumes "0 \<le> ptoCount cc" "0 \<le> smoothedRtt cc" "pto cc * 2 ^ 20 \<le> maxDuration"
    "\<forall>b \<in> set bs. 0 \<le> b" "0 < inflight cc"
  defines "cc' \<equiv> onPtoTimeout now (fold (CC_OnPacketSent now) bs) cc"
  shows "ptoCount cc' = ptoCount cc + 1" "smoothedRtt cc' = smoothedRtt cc" "pto cc' = pto cc"
    "0 < inflight cc'" "ptoTimer cc' = Some (now + nextPTO cc')"
proof -
  let ?c = "cc\<lparr>ptoCount := ptoCount cc + 1, ptoTimer := None\<rparr>"
  let ?p = "fold (CC_OnPacketSent now) bs ?c"
  have pc: "pto ?c = pto cc" by (simp add: pto_def)
  have f: "ptoCount ?p = ptoCount cc + 1" "smoothedRtt ?p = smoothedRtt cc" "rttVar ?p = rttVar cc"
    "inflight cc \<le> inflight ?p" "ptoTimer ?p = Some (now + nextPTO ?c) \<or> ptoTimer ?p = None"
    using sends_deadline [of ?c bs now] assms(1-4) by (auto simp: pc)
  have eq: "nextPTO ?p = nextPTO ?c" using f(1-3) by (simp add: nextPTO_def pto_def)
  have e: "cc' = (if ptoTimer ?p = None then ?p\<lparr>lastSendTime := now, ptoTimer := Some (now + nextPTO ?p)\<rparr> else ?p)"
    using assms(5) f(4) by (simp add: cc'_def onPtoTimeout_def Let_def nextPTO_def pto_def)
  have n: "nextPTO cc' = nextPTO ?p" by (simp add: e nextPTO_def pto_def)
  show "ptoCount cc' = ptoCount cc + 1" "smoothedRtt cc' = smoothedRtt cc" "0 < inflight cc'"
    using assms(5) f(1,2,4) by (simp_all add: e)
  show "pto cc' = pto cc" using f(2,3) by (simp add: e pto_def)
  show "ptoTimer cc' = Some (now + nextPTO cc')" unfolding n using f(5) by (auto simp: e eq)
qed

definition unanswered_ptos :: "(time \<times> int list) list \<Rightarrow> CongestionController \<Rightarrow> CongestionController" where
  "unanswered_ptos ps cc = fold (\<lambda>(now, bs). onPtoTimeout now (fold (CC_OnPacketSent now) bs)) ps cc"

lemma unanswered_ptos_deadline:
  assumes "0 \<le> ptoCount cc" "0 \<le> smoothedRtt cc" "pto cc * 2 ^ 20 \<le> maxDuration" "0 < inflight cc"
    "\<forall>(now, bs) \<in> set ps. \<forall>b \<in> set bs. 0 \<le> b" "ps \<noteq> []"
  shows "ptoTimer (unanswered_ptos ps cc)
    = Some (fst (last ps) + pto cc * 2 ^ min 20 (nat (ptoCount cc) + length ps))"
  using assms
proof (induction ps arbitrary: cc)
  case (Cons p ps)
  obtain now bs where p: "p = (now, bs)" by (cases p)
  let ?c = "onPtoTimeout now (fold (CC_OnPacketSent now) bs) cc"
  have "\<forall>b \<in> set bs. 0 \<le> b" using Cons.prems(5) by (simp add: p)
  note u = onPtoTimeout_unanswered [OF Cons.prems(1-3) this Cons.prems(4), of now]
  have n: "nat (ptoCount cc + 1) = Suc (nat (ptoCount cc))" using Cons.prems(1) by simp
  show ?case
  proof (cases "ps = []")
    case True
    then show ?thesis using u Cons.prems(1) by (simp add: unanswered_ptos_def p nextPTO_eq n)
  next
    case False
    have "ptoTimer (unanswered_ptos ps ?c)
        = Some (fst (last ps) + pto ?c * 2 ^ min 20 (nat (ptoCount ?c) + length ps))"
      by (rule Cons.IH) (use u Cons.prems False in auto)
    then show ?thesis using False u by (simp add: unanswered_ptos_def p n)
  qed
qed simp

section \<open>Properties\<close>

text \<open>A cube root to a power of two, for the concrete instances.\<close>

definition binary_cbrt :: "rat \<Rightarrow> rat" where
  "binary_cbrt x = (if x \<le> 0 then 0 else 2 powi (flog2 x div 3))"

definition sample_math :: go_math where
  "sample_math = \<lparr>Cbrt = binary_cbrt, int_oob = \<lambda>_. - (2 ^ 63)\<rparr>"

lemma cbrt_ok_sample: "cbrt_ok sample_math"
proof -
  have "0 \<le> binary_cbrt x \<and> binary_cbrt x ^ 3 \<le> 2 * x" if "0 \<le> x" for x
  proof (cases "x = 0")
    case False
    with that have x: "0 < x" by simp
    have "binary_cbrt x ^ 3 = 2 powi (flog2 x div 3 * 3)" using x by (simp add: binary_cbrt_def power_int_mult)
    also have "\<dots> \<le> 2 powi flog2 x" by (rule power_int_increasing) auto
    also have "\<dots> \<le> x" by (rule flog2_bounds(1) [OF x])
    finally show ?thesis using x by (simp add: binary_cbrt_def)
  qed (simp add: binary_cbrt_def)
  then show ?thesis by (simp add: cbrt_ok_def sample_math_def)
qed


lemma lost_step:
  "(cc_step gm)\<^sup>*\<^sup>* NewCongestionController (OnPacketLost gm 1 None 1200 NewCongestionController)"
  by (rule r_into_rtranclp, rule step_lost) (simp_all add: NewCongestionController_def)






text \<open>
  C17. However many packets one loss event declares lost, the window contracts once: to 0.7 of
  its size, within a byte or so of rounding, and not below two datagrams.
\<close>

theorem loss_burst_contracts_once:
  assumes "\<not> inRecovery cc" and "0 \<le> cwnd cc" and "cwnd cc \<le> 2 ^ 40" and "bs \<noteq> []"
  shows "let w = cwnd (fold (OnPacketLost gm now q) bs cc)
    in 7 * cwnd cc - 11 \<le> 10 * w \<and> (w = MinCwnd \<or> 10 * w \<le> 7 * cwnd cc + 1) \<and> MinCwnd \<le> w"
  using beta_window [OF assms(2,3), of "int_oob gm"]
  unfolding lost_burst_cwnd [OF assms(1,4)] Let_def max_def by (auto simp del: MinCwnd_def)

theorem loss_burst_contracts_once_witness:
  "let w = cwnd (fold (OnPacketLost sample_math 9 (Some 3)) [1200, 1200, 700] NewCongestionController)
   in 103029 \<le> 10 * w \<and> (w = MinCwnd \<or> 10 * w \<le> 103041) \<and> MinCwnd \<le> w"
  using loss_burst_contracts_once [of NewCongestionController "[1200, 1200, 700]" sample_math 9 "Some 3"]
  unfolding Let_def by (auto simp: NewCongestionController_def)

text \<open>
  C27. From samples between \<open>lo\<close> and \<open>hi\<close>, whatever acknowledgement delays the peer reports, every
  estimate lies between them (the variation below \<open>hi\<close>), and the probe timeout between
  \<open>lo\<close> plus the peer's delay and five times \<open>hi\<close> plus it.
\<close>

theorem rtt_estimates_within_samples:
  assumes "firstRttSample cc" and "ss \<noteq> []" and "\<forall>s \<in> set ss. sample_in lo hi s"
    and "0 \<le> lo" and "hi \<le> maxDuration"
  shows "let c = take_samples ss cc
    in lo \<le> minRtt c \<and> minRtt c \<le> smoothedRtt c \<and> smoothedRtt c \<le> hi \<and> latestRtt c \<le> hi
      \<and> lo + MaxAckDelay \<le> pto c \<and> pto c \<le> 5 * hi + LossTimerGranularity + MaxAckDelay"
proof -
  obtain now sent d ss' where ss: "ss = (now, sent, d) # ss'" using assms(2) by (cases ss) auto
  have "rtt_in lo hi (updateRtt now sent d cc)"
    using assms by (intro updateRtt_in) (simp_all add: ss)
  then have "rtt_in lo hi (take_samples ss' (updateRtt now sent d cc))"
    using assms by (intro take_samples_in) (simp_all add: ss)
  then have "rtt_in lo hi (take_samples ss cc)" by (simp add: ss take_samples_def)
  then show ?thesis using assms(4) by (auto simp: rtt_in_def Let_def pto_def)
qed

theorem rtt_estimates_within_samples_witness:
  "let c = take_samples [(50, 10, 5), (100, 70, 8)] NewCongestionController
   in 30 \<le> minRtt c \<and> smoothedRtt c \<le> 40 \<and> pto c \<le> 200 + LossTimerGranularity + MaxAckDelay"
  using rtt_estimates_within_samples [of NewCongestionController "[(50, 10, 5), (100, 70, 8)]" 30 40]
  unfolding Let_def by (simp add: NewCongestionController_def sample_in_def maxDuration_def)

text \<open>
  Probe timeouts that nothing answers back off: after \<open>n\<close> in a row, whatever probes each of
  them sent, the next one is due 2^n base timeouts after the last (2^20 at most).
\<close>

lemma pto_backs_off:
  assumes "ptoCount cc = 0" and "0 \<le> smoothedRtt cc" and "pto cc * 2 ^ 20 \<le> maxDuration"
    and "0 < inflight cc" and "\<forall>(now, bs) \<in> set ps. \<forall>b \<in> set bs. 0 \<le> b" and "ps \<noteq> []"
  shows "ptoTimer (unanswered_ptos ps cc) = Some (fst (last ps) + pto cc * 2 ^ min 20 (length ps))"
  using unanswered_ptos_deadline [of cc ps] assms by simp

end
