(* ===== verification/Udx_Frame.thy ===== *)
theory Udx_Frame
  imports Udx_Cid
begin

text \<open>
  The frames of the wire format (\<^verbatim>\<open>frame.go\<close>). \<open>Frame\<close> has one constructor per Go frame
  type; \<open>Frame_Marshal\<close> runs the writes each \<^verbatim>\<open>Marshal\<close> method makes into its buffer and
  \<open>UnmarshalFrame\<close> is the parser with its bounds checks and reads in the order of the source.
  \<open>frame_bytes\<close> is the reference encoding, a plain concatenation. The lemmas show that the
  buffer writes produce the reference encoding, that parsing it gives the frame back, that the
  parser consumes at least one byte and never more than there are, and that it never panics.
\<close>

section \<open>Frame types\<close>

definition FramePadding :: uint8 where [simp]: "FramePadding = 0x00"
definition FramePing :: uint8 where [simp]: "FramePing = 0x01"
definition FrameAck :: uint8 where [simp]: "FrameAck = 0x02"
definition FrameStream :: uint8 where [simp]: "FrameStream = 0x03"
definition FrameWindowUpdate :: uint8 where [simp]: "FrameWindowUpdate = 0x04"
definition FrameMaxData :: uint8 where [simp]: "FrameMaxData = 0x05"
definition FrameResetStream :: uint8 where [simp]: "FrameResetStream = 0x06"
definition FrameMaxStreams :: uint8 where [simp]: "FrameMaxStreams = 0x07"
definition FrameMTUProbe :: uint8 where [simp]: "FrameMTUProbe = 0x08"
definition FramePathChallenge :: uint8 where [simp]: "FramePathChallenge = 0x09"
definition FramePathResponse :: uint8 where [simp]: "FramePathResponse = 0x0a"
definition FrameConnectionClose :: uint8 where [simp]: "FrameConnectionClose = 0x0b"
definition FrameStopSending :: uint8 where [simp]: "FrameStopSending = 0x0d"
definition FrameDataBlocked :: uint8 where [simp]: "FrameDataBlocked = 0x0e"
definition FrameStreamDataBlocked :: uint8 where [simp]: "FrameStreamDataBlocked = 0x0f"
definition FrameNewConnectionID :: uint8 where [simp]: "FrameNewConnectionID = 0x10"
definition FrameRetireConnectionID :: uint8 where [simp]: "FrameRetireConnectionID = 0x11"

definition StreamFlagFIN :: uint8 where [simp]: "StreamFlagFIN = 0x01"
definition StreamFlagSYN :: uint8 where [simp]: "StreamFlagSYN = 0x02"
definition streamFrameHeaderLen :: nat where [simp]: "streamFrameHeaderLen = 12"

record AckRange =
  Gap :: uint8
  AckRangeLength :: uint32

record AckFrame =
  LargestAcked :: uint32
  AckDelay :: uint16
  FirstAckRangeLength :: uint32
  AckRanges :: "AckRange list"

record StreamFrame =
  IsFin :: bool
  IsSyn :: bool
  Offset :: uint64
  Data :: "byte list"

record ConnectionCloseFrame =
  ErrorCode :: uint32
  FrameTypeVal :: uint32
  ReasonPhrase :: "byte list"

record NewConnectionIDFrame =
  SequenceNumber :: uint64
  RetirePriorTo :: uint64
  NewCID :: ConnectionID
  ResetToken :: "byte list"

datatype Frame =
    PaddingFrame
  | PingFrame
  | Ack AckFrame
  | Stream StreamFrame
  | WindowUpdateFrame (WindowSize: uint32)
  | MaxDataFrame (MaxData: uint64)
  | ResetStreamFrame (ResetErrorCode: uint32)
  | MaxStreamsFrame (MaxStreamCount: uint32)
  | MTUProbeFrame (ProbeSize: int)
  | PathChallengeFrame (ChallengeData: "byte list")
  | PathResponseFrame (ResponseData: "byte list")
  | ConnectionClose ConnectionCloseFrame
  | StopSendingFrame (StopStreamID: uint32) (StopErrorCode: uint32)
  | DataBlockedFrame (BlockedMaxData: uint64)
  | StreamDataBlockedFrame (BlockedStreamID: uint32) (MaxStreamData: uint64)
  | NewConnectionIDF NewConnectionIDFrame
  | RetireConnectionIDFrame (RetireSequenceNumber: uint64)

fun Frame_Type :: "Frame \<Rightarrow> uint8" where
  "Frame_Type PaddingFrame = FramePadding"
| "Frame_Type PingFrame = FramePing"
| "Frame_Type (Ack _) = FrameAck"
| "Frame_Type (Stream _) = FrameStream"
| "Frame_Type (WindowUpdateFrame _) = FrameWindowUpdate"
| "Frame_Type (MaxDataFrame _) = FrameMaxData"
| "Frame_Type (ResetStreamFrame _) = FrameResetStream"
| "Frame_Type (MaxStreamsFrame _) = FrameMaxStreams"
| "Frame_Type (MTUProbeFrame _) = FrameMTUProbe"
| "Frame_Type (PathChallengeFrame _) = FramePathChallenge"
| "Frame_Type (PathResponseFrame _) = FramePathResponse"
| "Frame_Type (ConnectionClose _) = FrameConnectionClose"
| "Frame_Type (StopSendingFrame _ _) = FrameStopSending"
| "Frame_Type (DataBlockedFrame _) = FrameDataBlocked"
| "Frame_Type (StreamDataBlockedFrame _ _) = FrameStreamDataBlocked"
| "Frame_Type (NewConnectionIDF _) = FrameNewConnectionID"
| "Frame_Type (RetireConnectionIDFrame _) = FrameRetireConnectionID"

fun Frame_Len :: "Frame \<Rightarrow> nat" where
  "Frame_Len PaddingFrame = 1"
| "Frame_Len PingFrame = 1"
| "Frame_Len (Ack f) = 1 + 4 + 2 + 1 + 4 + length (AckRanges f) * 5"
| "Frame_Len (Stream f) = streamFrameHeaderLen + length (Data f)"
| "Frame_Len (WindowUpdateFrame _) = 5"
| "Frame_Len (MaxDataFrame _) = 9"
| "Frame_Len (ResetStreamFrame _) = 5"
| "Frame_Len (MaxStreamsFrame _) = 5"
| "Frame_Len (MTUProbeFrame n) = (if n < 1 then 1 else nat n)"
| "Frame_Len (PathChallengeFrame _) = 9"
| "Frame_Len (PathResponseFrame _) = 9"
| "Frame_Len (ConnectionClose f) = 1 + 4 + 4 + 2 + length (ReasonPhrase f)"
| "Frame_Len (StopSendingFrame _ _) = 9"
| "Frame_Len (DataBlockedFrame _) = 9"
| "Frame_Len (StreamDataBlockedFrame _ _) = 13"
| "Frame_Len (NewConnectionIDF f) = 1 + 8 + 8 + 1 + Len (NewCID f) + StatelessResetTokenLength"
| "Frame_Len (RetireConnectionIDFrame _) = 9"

section \<open>Marshalling\<close>

text \<open>The loop over the additional ACK ranges, starting at \<open>offset\<close>.\<close>

fun ack_range_writes :: "nat \<Rightarrow> AckRange list \<Rightarrow> go_write list" where
  "ack_range_writes offset [] = []"
| "ack_range_writes offset (r # rs) =
     Put offset [Gap r] # Put (offset + 1) (be32 (AckRangeLength r))
       # ack_range_writes (offset + 5) rs"

definition stream_flags :: "StreamFrame \<Rightarrow> uint8" where
  "stream_flags f =
     (let flags = 0;
          flags = (if IsFin f then flags OR StreamFlagFIN else flags);
          flags = (if IsSyn f then flags OR StreamFlagSYN else flags)
      in flags)"

fun frame_writes :: "Frame \<Rightarrow> go_write list" where
  "frame_writes PaddingFrame = [Put 0 [FramePadding]]"
| "frame_writes PingFrame = [Put 0 [FramePing]]"
| "frame_writes (Ack f) =
     [Put 0 [FrameAck], Put 1 (be32 (LargestAcked f)), Put 5 (be16 (AckDelay f)),
      Put 7 [of_nat (length (AckRanges f))], Put 8 (be32 (FirstAckRangeLength f))]
     @ ack_range_writes 12 (AckRanges f)"
| "frame_writes (Stream f) =
     [Put 0 [FrameStream], Put 1 [stream_flags f], Put 2 (be64 (Offset f)),
      Put 10 (be16 (of_nat (length (Data f)))), Copy streamFrameHeaderLen (Data f)]"
| "frame_writes (WindowUpdateFrame w) = [Put 0 [FrameWindowUpdate], Put 1 (be32 w)]"
| "frame_writes (MaxDataFrame m) = [Put 0 [FrameMaxData], Put 1 (be64 m)]"
| "frame_writes (ResetStreamFrame e) = [Put 0 [FrameResetStream], Put 1 (be32 e)]"
| "frame_writes (MaxStreamsFrame n) = [Put 0 [FrameMaxStreams], Put 1 (be32 n)]"
| "frame_writes (MTUProbeFrame n) = [Put 0 [FrameMTUProbe]]"
| "frame_writes (PathChallengeFrame d) = [Put 0 [FramePathChallenge], Copy 1 d]"
| "frame_writes (PathResponseFrame d) = [Put 0 [FramePathResponse], Copy 1 d]"
| "frame_writes (ConnectionClose f) =
     [Put 0 [FrameConnectionClose], Put 1 (be32 (ErrorCode f)), Put 5 (be32 (FrameTypeVal f)),
      Put 9 (be16 (of_nat (length (ReasonPhrase f)))), Copy 11 (ReasonPhrase f)]"
| "frame_writes (StopSendingFrame s e) = [Put 0 [FrameStopSending], Put 1 (be32 s), Put 5 (be32 e)]"
| "frame_writes (DataBlockedFrame m) = [Put 0 [FrameDataBlocked], Put 1 (be64 m)]"
| "frame_writes (StreamDataBlockedFrame s m) =
     [Put 0 [FrameStreamDataBlocked], Put 1 (be32 s), Put 5 (be64 m)]"
| "frame_writes (NewConnectionIDF f) =
     [Put 0 [FrameNewConnectionID], Put 1 (be64 (SequenceNumber f)), Put 9 (be64 (RetirePriorTo f)),
      Put 17 [of_nat (Len (NewCID f))], Copy 18 (Bytes (NewCID f)),
      Copy (18 + Len (NewCID f)) (ResetToken f)]"
| "frame_writes (RetireConnectionIDFrame s) = [Put 0 [FrameRetireConnectionID], Put 1 (be64 s)]"

definition Frame_Marshal :: "Frame \<Rightarrow> byte list result" where
  "Frame_Marshal f = do_writes (frame_writes f) (replicate (Frame_Len f) 0)"

section \<open>Parsing\<close>

fun ack_ranges_loop :: "byte list \<Rightarrow> nat \<Rightarrow> nat \<Rightarrow> (AckRange list \<times> nat) result" where
  "ack_ranges_loop data offset 0 = Inr ([], offset)"
| "ack_ranges_loop data offset (Suc n) =
     res_bind (byte_at data offset) (\<lambda>g.
     res_bind (Uint32 data (offset + 1)) (\<lambda>l.
     res_bind (ack_ranges_loop data (offset + 5) n) (\<lambda>(rs, offset').
       Inr (\<lparr>Gap = g, AckRangeLength = l\<rparr> # rs, offset'))))"

definition unmarshalAckFrame :: "byte list \<Rightarrow> nat \<Rightarrow> (AckFrame \<times> nat) result" where
  "unmarshalAckFrame data offset =
     (if offset + 12 > length data then Inl ErrPacketTooShort else
      res_bind (Uint32 data (offset + 1)) (\<lambda>largest.
      res_bind (Uint16 data (offset + 5)) (\<lambda>delay.
      res_bind (byte_at data (offset + 7)) (\<lambda>rangeCount.
      res_bind (Uint32 data (offset + 8)) (\<lambda>firstRange.
      if offset + 12 + unat rangeCount * 5 > length data then Inl ErrPacketTooShort else
      res_bind (ack_ranges_loop data (offset + 12) (unat rangeCount)) (\<lambda>(ranges, offset').
        Inr (\<lparr>LargestAcked = largest, AckDelay = delay, FirstAckRangeLength = firstRange,
              AckRanges = ranges\<rparr>, offset' - offset)))))))"

definition unmarshalStreamFrame :: "byte list \<Rightarrow> nat \<Rightarrow> (StreamFrame \<times> nat) result" where
  "unmarshalStreamFrame data offset =
     (if offset + streamFrameHeaderLen > length data then Inl ErrPacketTooShort else
      res_bind (byte_at data (offset + 1)) (\<lambda>flags.
      res_bind (Uint64 data (offset + 2)) (\<lambda>streamOffset.
      res_bind (Uint16 data (offset + 10)) (\<lambda>dataLen.
      if offset + streamFrameHeaderLen + unat dataLen > length data then Inl ErrPacketTooShort else
      res_bind (slice_range data (offset + streamFrameHeaderLen)
                  (offset + streamFrameHeaderLen + unat dataLen)) (\<lambda>payload.
        Inr (\<lparr>IsFin = flags AND StreamFlagFIN \<noteq> 0, IsSyn = flags AND StreamFlagSYN \<noteq> 0,
              Offset = streamOffset, Data = payload\<rparr>,
             streamFrameHeaderLen + unat dataLen))))))"

definition unmarshalWindowUpdateFrame :: "byte list \<Rightarrow> nat \<Rightarrow> (Frame \<times> nat) result" where
  "unmarshalWindowUpdateFrame data offset =
     (if offset + 5 > length data then Inl ErrPacketTooShort else
      res_bind (Uint32 data (offset + 1)) (\<lambda>w. Inr (WindowUpdateFrame w, 5)))"

definition unmarshalMaxDataFrame :: "byte list \<Rightarrow> nat \<Rightarrow> (Frame \<times> nat) result" where
  "unmarshalMaxDataFrame data offset =
     (if offset + 9 > length data then Inl ErrPacketTooShort else
      res_bind (Uint64 data (offset + 1)) (\<lambda>m. Inr (MaxDataFrame m, 9)))"

definition unmarshalResetStreamFrame :: "byte list \<Rightarrow> nat \<Rightarrow> (Frame \<times> nat) result" where
  "unmarshalResetStreamFrame data offset =
     (if offset + 5 > length data then Inl ErrPacketTooShort else
      res_bind (Uint32 data (offset + 1)) (\<lambda>e. Inr (ResetStreamFrame e, 5)))"

definition unmarshalMaxStreamsFrame :: "byte list \<Rightarrow> nat \<Rightarrow> (Frame \<times> nat) result" where
  "unmarshalMaxStreamsFrame data offset =
     (if offset + 5 > length data then Inl ErrPacketTooShort else
      res_bind (Uint32 data (offset + 1)) (\<lambda>n. Inr (MaxStreamsFrame n, 5)))"

definition unmarshalMTUProbeFrame :: "byte list \<Rightarrow> nat \<Rightarrow> (Frame \<times> nat) result" where
  "unmarshalMTUProbeFrame data offset =
     (let remaining = int (length data) - int offset
      in if remaining < 1 then Inl ErrPacketTooShort
         else Inr (MTUProbeFrame remaining, nat remaining))"

definition unmarshalPathChallengeFrame :: "byte list \<Rightarrow> nat \<Rightarrow> (Frame \<times> nat) result" where
  "unmarshalPathChallengeFrame data offset =
     (if offset + 9 > length data then Inl ErrPacketTooShort else
      res_bind (slice_range data (offset + 1) (offset + 9)) (\<lambda>d. Inr (PathChallengeFrame d, 9)))"

definition unmarshalPathResponseFrame :: "byte list \<Rightarrow> nat \<Rightarrow> (Frame \<times> nat) result" where
  "unmarshalPathResponseFrame data offset =
     (if offset + 9 > length data then Inl ErrPacketTooShort else
      res_bind (slice_range data (offset + 1) (offset + 9)) (\<lambda>d. Inr (PathResponseFrame d, 9)))"

definition unmarshalConnectionCloseFrame ::
    "byte list \<Rightarrow> nat \<Rightarrow> (ConnectionCloseFrame \<times> nat) result" where
  "unmarshalConnectionCloseFrame data offset =
     (if offset + 11 > length data then Inl ErrPacketTooShort else
      res_bind (Uint32 data (offset + 1)) (\<lambda>errCode.
      res_bind (Uint32 data (offset + 5)) (\<lambda>frameType.
      res_bind (Uint16 data (offset + 9)) (\<lambda>reasonLen.
      let total = 11 + unat reasonLen in
      if offset + total > length data then Inl ErrPacketTooShort else
      res_bind (slice_range data (offset + 11) (offset + 11 + unat reasonLen)) (\<lambda>reason.
        Inr (\<lparr>ErrorCode = errCode, FrameTypeVal = frameType, ReasonPhrase = reason\<rparr>,
             total))))))"

definition unmarshalStopSendingFrame :: "byte list \<Rightarrow> nat \<Rightarrow> (Frame \<times> nat) result" where
  "unmarshalStopSendingFrame data offset =
     (if offset + 9 > length data then Inl ErrPacketTooShort else
      res_bind (Uint32 data (offset + 1)) (\<lambda>s.
      res_bind (Uint32 data (offset + 5)) (\<lambda>e. Inr (StopSendingFrame s e, 9))))"

definition unmarshalDataBlockedFrame :: "byte list \<Rightarrow> nat \<Rightarrow> (Frame \<times> nat) result" where
  "unmarshalDataBlockedFrame data offset =
     (if offset + 9 > length data then Inl ErrPacketTooShort else
      res_bind (Uint64 data (offset + 1)) (\<lambda>m. Inr (DataBlockedFrame m, 9)))"

definition unmarshalStreamDataBlockedFrame :: "byte list \<Rightarrow> nat \<Rightarrow> (Frame \<times> nat) result" where
  "unmarshalStreamDataBlockedFrame data offset =
     (if offset + 13 > length data then Inl ErrPacketTooShort else
      res_bind (Uint32 data (offset + 1)) (\<lambda>s.
      res_bind (Uint64 data (offset + 5)) (\<lambda>m. Inr (StreamDataBlockedFrame s m, 13))))"

definition unmarshalNewConnectionIDFrame ::
    "byte list \<Rightarrow> nat \<Rightarrow> (NewConnectionIDFrame \<times> nat) result" where
  "unmarshalNewConnectionIDFrame data offset =
     (if offset + 18 > length data then Inl ErrPacketTooShort else
      res_bind (Uint64 data (offset + 1)) (\<lambda>seq.
      res_bind (Uint64 data (offset + 9)) (\<lambda>retire.
      res_bind (byte_at data (offset + 17)) (\<lambda>b.
      let cidLen = unat b in
      if cidLen > MaxCIDLength \<or> offset + 18 + cidLen + StatelessResetTokenLength > length data
      then Inl ErrPacketTooShort else
      res_bind (slice_range data (offset + 18) (offset + 18 + cidLen)) (\<lambda>cb.
      res_bind (NewConnectionID cb) (\<lambda>cid.
      res_bind (slice_range data (offset + 18 + cidLen)
                  (offset + 18 + cidLen + StatelessResetTokenLength)) (\<lambda>token.
        Inr (\<lparr>SequenceNumber = seq, RetirePriorTo = retire, NewCID = cid, ResetToken = token\<rparr>,
             offset + 18 + cidLen + StatelessResetTokenLength - offset))))))))"

definition unmarshalRetireConnectionIDFrame :: "byte list \<Rightarrow> nat \<Rightarrow> (Frame \<times> nat) result" where
  "unmarshalRetireConnectionIDFrame data offset =
     (if offset + 9 > length data then Inl ErrPacketTooShort else
      res_bind (Uint64 data (offset + 1)) (\<lambda>s. Inr (RetireConnectionIDFrame s, 9)))"

definition UnmarshalFrame :: "byte list \<Rightarrow> nat \<Rightarrow> (Frame \<times> nat) result" where
  "UnmarshalFrame data offset =
     (if offset \<ge> length data then Inl ErrPacketTooShort else
      res_bind (byte_at data offset) (\<lambda>ft.
      if ft = FramePadding then Inr (PaddingFrame, 1)
      else if ft = FramePing then Inr (PingFrame, 1)
      else if ft = FrameAck then
        res_bind (unmarshalAckFrame data offset) (\<lambda>(f, n). Inr (Ack f, n))
      else if ft = FrameStream then
        res_bind (unmarshalStreamFrame data offset) (\<lambda>(f, n). Inr (Stream f, n))
      else if ft = FrameWindowUpdate then unmarshalWindowUpdateFrame data offset
      else if ft = FrameMaxData then unmarshalMaxDataFrame data offset
      else if ft = FrameResetStream then unmarshalResetStreamFrame data offset
      else if ft = FrameMaxStreams then unmarshalMaxStreamsFrame data offset
      else if ft = FrameMTUProbe then unmarshalMTUProbeFrame data offset
      else if ft = FramePathChallenge then unmarshalPathChallengeFrame data offset
      else if ft = FramePathResponse then unmarshalPathResponseFrame data offset
      else if ft = FrameConnectionClose then
        res_bind (unmarshalConnectionCloseFrame data offset) (\<lambda>(f, n). Inr (ConnectionClose f, n))
      else if ft = FrameStopSending then unmarshalStopSendingFrame data offset
      else if ft = FrameDataBlocked then unmarshalDataBlockedFrame data offset
      else if ft = FrameStreamDataBlocked then unmarshalStreamDataBlockedFrame data offset
      else if ft = FrameNewConnectionID then
        res_bind (unmarshalNewConnectionIDFrame data offset) (\<lambda>(f, n). Inr (NewConnectionIDF f, n))
      else if ft = FrameRetireConnectionID then unmarshalRetireConnectionIDFrame data offset
      else Inl ErrUnknownFrameType))"

section \<open>The reference encoding\<close>

text \<open>
  \<open>wf_frame\<close> is what Go's types guarantee of a frame: array fields have their fixed lengths and
  connection IDs satisfy their invariant. \<open>fits_wire\<close> is what the wire format can represent:
  the counts that travel in one or two bytes, and a probe that has at least its type byte.
\<close>

fun wf_frame :: "Frame \<Rightarrow> bool" where
  "wf_frame (PathChallengeFrame d) \<longleftrightarrow> length d = 8"
| "wf_frame (PathResponseFrame d) \<longleftrightarrow> length d = 8"
| "wf_frame (NewConnectionIDF f) \<longleftrightarrow> wf_cid (NewCID f) \<and> length (ResetToken f) = 16"
| "wf_frame _ \<longleftrightarrow> True"

fun fits_wire :: "Frame \<Rightarrow> bool" where
  "fits_wire (Ack f) \<longleftrightarrow> length (AckRanges f) < 2 ^ 8"
| "fits_wire (Stream f) \<longleftrightarrow> length (Data f) < 2 ^ 16"
| "fits_wire (ConnectionClose f) \<longleftrightarrow> length (ReasonPhrase f) < 2 ^ 16"
| "fits_wire (MTUProbeFrame n) \<longleftrightarrow> 1 \<le> n"
| "fits_wire _ \<longleftrightarrow> True"

fun ack_range_bytes :: "AckRange list \<Rightarrow> byte list" where
  "ack_range_bytes [] = []"
| "ack_range_bytes (r # rs) = Gap r # be32 (AckRangeLength r) @ ack_range_bytes rs"

fun frame_payload :: "Frame \<Rightarrow> byte list" where
  "frame_payload PaddingFrame = []"
| "frame_payload PingFrame = []"
| "frame_payload (Ack f) = be32 (LargestAcked f) @ be16 (AckDelay f)
     @ [of_nat (length (AckRanges f))] @ be32 (FirstAckRangeLength f)
     @ ack_range_bytes (AckRanges f)"
| "frame_payload (Stream f) = [stream_flags f] @ be64 (Offset f)
     @ be16 (of_nat (length (Data f))) @ Data f"
| "frame_payload (WindowUpdateFrame w) = be32 w"
| "frame_payload (MaxDataFrame m) = be64 m"
| "frame_payload (ResetStreamFrame e) = be32 e"
| "frame_payload (MaxStreamsFrame n) = be32 n"
| "frame_payload (MTUProbeFrame n) = replicate (nat n - 1) 0"
| "frame_payload (PathChallengeFrame d) = d"
| "frame_payload (PathResponseFrame d) = d"
| "frame_payload (ConnectionClose f) = be32 (ErrorCode f) @ be32 (FrameTypeVal f)
     @ be16 (of_nat (length (ReasonPhrase f))) @ ReasonPhrase f"
| "frame_payload (StopSendingFrame s e) = be32 s @ be32 e"
| "frame_payload (DataBlockedFrame m) = be64 m"
| "frame_payload (StreamDataBlockedFrame s m) = be32 s @ be64 m"
| "frame_payload (NewConnectionIDF f) = be64 (SequenceNumber f) @ be64 (RetirePriorTo f)
     @ [of_nat (Len (NewCID f))] @ Bytes (NewCID f) @ ResetToken f"
| "frame_payload (RetireConnectionIDFrame s) = be64 s"

definition frame_bytes :: "Frame \<Rightarrow> byte list" where
  "frame_bytes f = Frame_Type f # frame_payload f"

lemma ack_range_writes_contiguous: "contiguous off (ack_range_writes off rs)"
  by (induction rs arbitrary: off) (simp_all add: ac_simps)

lemma ack_range_writes_written: "written (ack_range_writes off rs) = ack_range_bytes rs"
  by (induction rs arbitrary: off) simp_all

lemma length_ack_range_bytes [simp]: "length (ack_range_bytes rs) = length rs * 5"
  by (induction rs) simp_all

lemma length_frame_bytes: "wf_frame f \<Longrightarrow> length (frame_bytes f) = Frame_Len f"
  by (cases f) (auto simp: frame_bytes_def)

lemma frame_bytes_nonempty: "0 < length (frame_bytes f)"
  by (simp add: frame_bytes_def)

lemma Frame_Len_pos: "0 < Frame_Len f"
  by (cases f) auto

lemma contiguous_frame_writes: "wf_frame f \<Longrightarrow> contiguous 0 (frame_writes f)"
  by (cases f) (simp_all add: ack_range_writes_contiguous)

lemma written_frame_writes:
  "\<lbrakk>wf_frame f; \<not> is_MTUProbeFrame f\<rbrakk> \<Longrightarrow> written (frame_writes f) = frame_bytes f"
  by (cases f) (simp_all add: ack_range_writes_written frame_bytes_def)

lemma Frame_Marshal_eq: 
  assumes "wf_frame f"
  shows "Frame_Marshal f = Inr (frame_bytes f)"
proof (cases "is_MTUProbeFrame f")
  case True
  then obtain n where f: "f = MTUProbeFrame n" by (cases f) auto
  have "do_writes (frame_writes f) (replicate (Suc (nat n - 1)) 0)
      = Inr (FrameMTUProbe # replicate (nat n - 1) 0)"
    by (simp add: f)
  moreover have "Frame_Len f = Suc (nat n - 1)" by (simp add: f)
  ultimately show ?thesis by (simp add: Frame_Marshal_def frame_bytes_def f)
next
  case False
  then show ?thesis
    using do_writes_fill [OF contiguous_frame_writes [OF assms], of "Frame_Len f"] assms
    by (simp add: Frame_Marshal_def written_frame_writes length_frame_bytes)
qed

section \<open>Parsing what was written\<close>

lemma ack_ranges_loop_read:
  assumes "drop off data = ack_range_bytes rs @ rest"
  shows "ack_ranges_loop data off (length rs) = Inr (rs, off + length rs * 5)"
  using assms
proof (induction rs arbitrary: off)
  case Nil
  then show ?case by simp
next
  case (Cons r rs)
  have d1: "drop (off + 1) data = be32 (AckRangeLength r) @ ack_range_bytes rs @ rest"
    using drop_shift [OF Cons.prems, of 1] by simp
  have d5: "drop (off + 5) data = ack_range_bytes rs @ rest"
    using drop_shift [OF d1, of 4] by (simp add: add.commute add.left_commute)
  have "byte_at data off = Inr (Gap r)"
    using Cons.prems by (simp add: byte_at_def rd8_Cons)
  moreover have "Uint32 data (off + 1) = Inr (AckRangeLength r)"
    using d1 by (simp add: Uint32_def rd32_be32)
  ultimately show ?case
    using Cons.IH [OF d5] by simp
qed

lemma stream_flags_bits:
  "stream_flags f AND 1 \<noteq> 0 \<longleftrightarrow> IsFin f"  "stream_flags f AND 2 \<noteq> 0 \<longleftrightarrow> IsSyn f"
  by (simp_all add: stream_flags_def)

text \<open>A frame's bytes parse back to the frame, at any offset and whatever follows them.
  An MTU probe takes the rest of the datagram, so nothing may follow it.\<close>

lemma UnmarshalFrame_read:
  assumes D: "drop off data = frame_bytes f @ rest"
    and wf: "wf_frame f" and fits: "fits_wire f"
    and last: "is_MTUProbeFrame f \<Longrightarrow> rest = []"
  shows "UnmarshalFrame data off = Inr (f, Frame_Len f)"
proof -
  have L: "length data = off + length (frame_bytes f @ rest)"
    using D frame_bytes_nonempty [of f] by (intro drop_nonempty_length) auto
  note S = drop_shift [OF D] drop_shift [OF D, of 1, simplified]
    drop_shift [OF D, of 2, simplified]
  show ?thesis
  proof (cases f)
    case (Ack a)
    then show ?thesis
      using D L fits ack_ranges_loop_read [of "off + 12" data "AckRanges a" rest]
      by (simp add: UnmarshalFrame_def unmarshalAckFrame_def S wire_simps frame_bytes_def
          unat_of_nat_less)
  next
    case (Stream s)
    then show ?thesis
      using D L fits
      by (simp add: UnmarshalFrame_def unmarshalStreamFrame_def S wire_simps frame_bytes_def
          unat_of_nat_less slice_range_def stream_flags_bits)
  next
    case (ConnectionClose c)
    then show ?thesis
      using D L fits
      by (simp add: UnmarshalFrame_def unmarshalConnectionCloseFrame_def S wire_simps
          frame_bytes_def unat_of_nat_less slice_range_def)
  next
    case (NewConnectionIDF c)
    have "drop (off + 18) data = Bytes (NewCID c) @ ResetToken c @ rest"
      using NewConnectionIDF by (simp add: S frame_bytes_def)
    note T = drop_shift [OF this, of "Len (NewCID c)"]
    show ?thesis
      using NewConnectionIDF D L wf Len_le [of "NewCID c"] T
      by (simp add: UnmarshalFrame_def unmarshalNewConnectionIDFrame_def S wire_simps Let_def
          frame_bytes_def unat_of_nat_less slice_range_def NewConnectionID_Bytes)
  next
    case (MTUProbeFrame n)
    then show ?thesis
      using D L fits last
      by (simp add: UnmarshalFrame_def unmarshalMTUProbeFrame_def S wire_simps frame_bytes_def)
  qed (use D L wf in \<open>simp_all add: UnmarshalFrame_def S wire_simps frame_bytes_def slice_range_def
      unmarshalWindowUpdateFrame_def unmarshalMaxDataFrame_def unmarshalResetStreamFrame_def
      unmarshalMaxStreamsFrame_def unmarshalPathChallengeFrame_def
      unmarshalPathResponseFrame_def unmarshalStopSendingFrame_def unmarshalDataBlockedFrame_def
      unmarshalStreamDataBlockedFrame_def unmarshalRetireConnectionIDFrame_def\<close>)
qed

section \<open>Every read is in range\<close>

lemma ack_ranges_loop_spec:
  "off + n * 5 \<le> length data \<Longrightarrow>
     \<exists>rs. ack_ranges_loop data off n = Inr (rs, off + n * 5) \<and> length rs = n"
proof (induction n arbitrary: off)
  case 0
  then show ?case by simp
next
  case (Suc n)
  obtain v where "Uint32 data (off + 1) = Inr v"
    using Uint32_ok [of "off + 1" data] Suc.prems by auto
  moreover obtain rs where "ack_ranges_loop data (off + 5) n = Inr (rs, off + 5 + n * 5)"
      and "length rs = n"
    using Suc.IH [of "off + 5"] Suc.prems by auto
  ultimately show ?case
    using Suc.prems by (simp add: byte_at_ok)
qed

lemma ack_ranges_loop_no_panic:
  "off + n * 5 \<le> length data \<Longrightarrow> no_panic (ack_ranges_loop data off n)"
  using ack_ranges_loop_spec [of off n data] by auto

lemmas unmarshal_simple_defs =
  unmarshalWindowUpdateFrame_def unmarshalMaxDataFrame_def unmarshalResetStreamFrame_def
  unmarshalMaxStreamsFrame_def unmarshalPathChallengeFrame_def unmarshalPathResponseFrame_def
  unmarshalStopSendingFrame_def unmarshalDataBlockedFrame_def
  unmarshalStreamDataBlockedFrame_def unmarshalRetireConnectionIDFrame_def

lemmas unmarshal_defs =
  unmarshal_simple_defs unmarshalStreamFrame_def unmarshalMTUProbeFrame_def
  unmarshalConnectionCloseFrame_def unmarshalNewConnectionIDFrame_def

lemma unmarshal_no_panic:
  "no_panic (unmarshalAckFrame data off)"
  "no_panic (unmarshalStreamFrame data off)"
  "no_panic (unmarshalWindowUpdateFrame data off)"
  "no_panic (unmarshalMaxDataFrame data off)"
  "no_panic (unmarshalResetStreamFrame data off)"
  "no_panic (unmarshalMaxStreamsFrame data off)"
  "no_panic (unmarshalMTUProbeFrame data off)"
  "no_panic (unmarshalPathChallengeFrame data off)"
  "no_panic (unmarshalPathResponseFrame data off)"
  "no_panic (unmarshalConnectionCloseFrame data off)"
  "no_panic (unmarshalStopSendingFrame data off)"
  "no_panic (unmarshalDataBlockedFrame data off)"
  "no_panic (unmarshalStreamDataBlockedFrame data off)"
  "no_panic (unmarshalNewConnectionIDFrame data off)"
  "no_panic (unmarshalRetireConnectionIDFrame data off)"
  by (auto simp: unmarshal_defs unmarshalAckFrame_def Let_def split: prod.splits
      intro!: no_panic_bind no_panic_reads ack_ranges_loop_no_panic NewConnectionID_no_panic)

lemma UnmarshalFrame_no_panic: "no_panic (UnmarshalFrame data off)"
  unfolding UnmarshalFrame_def
  by (auto intro!: no_panic_bind no_panic_reads unmarshal_no_panic split: prod.splits
      simp del: One_nat_def)

text \<open>
  What a successful parse consumed is exactly the length of the frame it returned, at least
  one byte and within the datagram, and the frame is one the wire format can carry.
\<close>

lemma unat_less_256: "unat (b :: byte) < 256"
  using unsigned_less [of b] by simp

lemma unat_less_65536: "unat (v :: uint16) < 65536"
  using unsigned_less [of v] by simp

lemma unmarshalAckFrame_consumed:
  assumes "unmarshalAckFrame data off = Inr (a, n)"
  shows "n = Frame_Len (Ack a) \<and> off + n \<le> length data \<and> fits_wire (Ack a)"
proof -
  from assms obtain rc rs off' where le: "off + 12 + unat (rc :: byte) * 5 \<le> length data"
      and "ack_ranges_loop data (off + 12) (unat rc) = Inr (rs, off')"
      and "AckRanges a = rs" and "n = off' - off"
    by (auto simp: unmarshalAckFrame_def res_bind_eq_Inr not_less split: if_splits)
  with ack_ranges_loop_spec [OF le] unat_less_256 [of rc] show ?thesis by auto
qed

lemma UnmarshalFrame_consumed:
  assumes "UnmarshalFrame data off = Inr (f, n)"
  shows "n = Frame_Len f \<and> off + n \<le> length data \<and> wf_frame f \<and> fits_wire f"
  using assms unat_less_65536
  by (auto simp: UnmarshalFrame_def unmarshal_defs res_bind_eq_Inr Let_def Len_def
      NewConnectionID_def wf_cid_def
      dest!: unmarshalAckFrame_consumed slice_range_length split: if_splits)

lemma UnmarshalFrame_greedy:
  assumes "UnmarshalFrame data off = Inr (f, n)" and "is_MTUProbeFrame f"
  shows "off + n = length data"
proof -
  obtain k where f: "f = MTUProbeFrame k" using assms(2) by (cases f) auto
  have "unmarshalMTUProbeFrame data off = Inr (f, n)"
    using assms(1) unfolding f UnmarshalFrame_def res_bind_eq_Inr
    by (auto simp: unmarshal_simple_defs res_bind_eq_Inr split: if_splits)
  then show ?thesis
    by (auto simp: unmarshalMTUProbeFrame_def Let_def split: if_splits)
qed

section \<open>The contract between the packet parser and the frame codec\<close>

text \<open>
  What \<^verbatim>\<open>UnmarshalPacket\<close>'s loop relies on: an encoded frame decodes to itself at its offset
  (a greedy one only at the end of the datagram), a successful decode makes progress, stays
  inside the datagram and returns a representable frame of that length, and no input panics.
\<close>

locale frame_codec =
  fixes enc :: "'f \<Rightarrow> byte list"
    and dec :: "byte list \<Rightarrow> nat \<Rightarrow> ('f \<times> nat) result"
    and ok :: "'f \<Rightarrow> bool"
    and greedy :: "'f \<Rightarrow> bool"
  assumes enc_nonempty: "0 < length (enc f)"
    and dec_enc: "\<lbrakk>drop off data = enc f @ rest; ok f; greedy f \<Longrightarrow> rest = []\<rbrakk>
                    \<Longrightarrow> dec data off = Inr (f, length (enc f))"
    and dec_sound: "dec data off = Inr (f, n) \<Longrightarrow> n = length (enc f) \<and> off + n \<le> length data \<and> ok f"
    and dec_greedy: "dec data off = Inr (f, n) \<Longrightarrow> greedy f \<Longrightarrow> off + n = length data"
    and dec_no_panic: "no_panic (dec data off)"

text \<open>
  The loop over a datagram's frames, specified by its unfolding; the lemmas below are proved
  once from the codec's contract.
\<close>

locale frame_loop = frame_codec enc dec ok greedy
  for enc :: "'f \<Rightarrow> byte list" and dec :: "byte list \<Rightarrow> nat \<Rightarrow> ('f \<times> nat) result"
    and ok :: "'f \<Rightarrow> bool" and greedy :: "'f \<Rightarrow> bool" +
  fixes loop :: "byte list \<Rightarrow> nat \<Rightarrow> 'f list result"
  assumes loop_eq: "loop data off =
      (if off < length data
       then res_bind (dec data off) (\<lambda>(f, n). res_bind (loop data (off + n)) (\<lambda>fs. Inr (f # fs)))
       else Inr [])"
begin

lemma loop_enc:
  assumes "drop off data = concat (map enc fs)"
    and "list_all ok fs" and "list_all (\<lambda>f. \<not> greedy f) (butlast fs)"
  shows "loop data off = Inr fs"
  using assms
proof (induction fs arbitrary: off)
  case Nil
  then show ?case by (simp add: loop_eq [of data off])
next
  case (Cons f fs)
  let ?rest = "concat (map enc fs)"
  have D: "drop off data = enc f @ ?rest" using Cons.prems(1) by simp
  have lt: "off < length data"
    using D enc_nonempty [of f] by (metis append_is_Nil_conv drop_eq_Nil length_greater_0_conv
        linorder_not_less)
  have "greedy f \<Longrightarrow> ?rest = []"
    using Cons.prems(3) by (cases fs) auto
  then have "dec data off = Inr (f, length (enc f))"
    using Cons.prems(2) by (intro dec_enc [OF D]) simp_all
  moreover have "loop data (off + length (enc f)) = Inr fs"
    using Cons.prems drop_shift [OF D, of "length (enc f)"]
    by (intro Cons.IH) (auto split: if_splits)
  ultimately show ?case using lt by (simp add: loop_eq [of data off])
qed

lemma loop_no_panic: "no_panic (loop data off)"
proof (induction "length data - off" arbitrary: off rule: less_induct)
  case less
  show ?case
  proof (cases "off < length data")
    case True
    have "no_panic (loop data (off + n))" if "dec data off = Inr (f, n)" for f n
      using dec_sound [OF that] enc_nonempty [of f] True by (intro less) linarith
    with True show ?thesis
      by (subst loop_eq) (auto intro!: no_panic_bind dec_no_panic split: prod.splits)
  next
    case False
    then show ?thesis by (simp add: loop_eq [of data off])
  qed
qed

lemma loop_sound:
  assumes "loop data off = Inr fs" and "off \<le> length data"
  shows "list_all ok fs \<and> off + length (concat (map enc fs)) = length data
    \<and> list_all (\<lambda>f. \<not> greedy f) (butlast fs)"
  using assms
proof (induction fs arbitrary: off)
  case Nil
  then show ?case by (auto simp: loop_eq [of data off] res_bind_eq_Inr split: if_splits)
next
  case (Cons f fs)
  from Cons.prems(1) obtain n where d: "dec data off = Inr (f, n)"
      and l: "loop data (off + n) = Inr fs"
    by (auto simp: loop_eq [of data off] res_bind_eq_Inr split: if_splits)
  have "fs = []" if "greedy f"
    using dec_greedy [OF d that] l loop_eq [of data "off + n"] by simp
  with dec_sound [OF d] Cons.IH [OF l] show ?case by (auto simp: add.assoc)
qed

end

definition frame_ok :: "Frame \<Rightarrow> bool" where
  "frame_ok f \<longleftrightarrow> wf_frame f \<and> fits_wire f"

interpretation fc: frame_codec frame_bytes UnmarshalFrame frame_ok is_MTUProbeFrame
proof unfold_locales
  show "0 < length (frame_bytes f)" for f by (rule frame_bytes_nonempty)
  show "UnmarshalFrame data off = Inr (f, length (frame_bytes f))"
    if "drop off data = frame_bytes f @ rest" and "frame_ok f" and "is_MTUProbeFrame f \<Longrightarrow> rest = []"
    for data off f rest
    using that UnmarshalFrame_read [of off data f rest]
    by (simp add: frame_ok_def length_frame_bytes)
  show "n = length (frame_bytes f) \<and> off + n \<le> length data \<and> frame_ok f"
    if "UnmarshalFrame data off = Inr (f, n)" for data off f n
    using UnmarshalFrame_consumed [OF that] by (simp add: frame_ok_def length_frame_bytes)
  show "off + n = length data" if "UnmarshalFrame data off = Inr (f, n)" and "is_MTUProbeFrame f"
    for data off f n
    using that by (rule UnmarshalFrame_greedy)
  show "no_panic (UnmarshalFrame data off)" for data off by (rule UnmarshalFrame_no_panic)
qed

text \<open>
  \<^verbatim>\<open>UnmarshalFrame\<close> on any bytes and any offset either reports an error or consumes exactly
  the encoded length of the frame it returns, at least one byte and never past the datagram.
  This is the progress the packet loop's termination rests on.
\<close>

lemma UnmarshalFrame_progress:
  assumes "UnmarshalFrame data off = Inr (f, n)"
  shows "0 < n \<and> off + n \<le> length data \<and> n = Frame_Len f"
  using UnmarshalFrame_consumed [OF assms] Frame_Len_pos [of f] by simp

text \<open>
  C23: the buffer writes of a frame's \<^verbatim>\<open>Marshal\<close> never panic and leave exactly the reference
  encoding, whose length is the frame's \<^verbatim>\<open>Len\<close>: size computation and writes agree.
\<close>

theorem Frame_Marshal_reference:
  assumes "wf_frame f"
  shows "Frame_Marshal f = Inr (frame_bytes f) \<and> length (frame_bytes f) = Frame_Len f"
  using assms by (simp add: Frame_Marshal_eq length_frame_bytes)

theorem Frame_Marshal_reference_witness:
  "Frame_Marshal (StopSendingFrame 7 258) = Inr [13, 0, 0, 0, 7, 0, 0, 1, 2]
   \<and> Frame_Len (StopSendingFrame 7 258) = 9"
proof -
  have "frame_bytes (StopSendingFrame 7 258) = [13, 0, 0, 0, 7, 0, 0, 1, 2]"
    by (simp add: frame_bytes_def be32_def)
  then show ?thesis using Frame_Marshal_reference [of "StopSendingFrame 7 258"] by simp
qed

end
