(* ===== verification/Udx_Ack_Tracker.thy ===== *)
theory Udx_Ack_Tracker
  imports Udx_Constants Udx_Frame
begin

text \<open>
  The receiver's record of which packets have arrived (\<^verbatim>\<open>ack_tracker.go\<close>): the largest
  sequence and a bitmap of the \<open>ackHistory\<close> sequences below it, and the ACK frame built from
  it. The record refines a plain set of sequences (locale \<open>recent_set\<close>), and the frame
  describes that set exactly down to where it stops.
\<close>

section \<open>The tracker\<close>

record recvTracker =
  largest :: uint32
  any_recvd :: bool
  bits :: "uint64 list"

definition newTracker :: recvTracker where
  "newTracker = \<lparr>largest = 0, any_recvd = False, bits = replicate 8 0\<rparr>"

definition has :: "recvTracker \<Rightarrow> uint32 \<Rightarrow> bool" where
  "has r seq =
     (if \<not> any_recvd r \<or> seq > largest r \<or> largest r - seq \<ge> of_nat ackHistory then False
      else let i = seq mod of_nat ackHistory
           in bits r ! unat (i div 64) AND push_bit (unat (i mod 64)) 1 \<noteq> 0)"

definition set_bit_at :: "uint32 \<Rightarrow> recvTracker \<Rightarrow> recvTracker" where
  "set_bit_at seq r =
     (let i = seq mod of_nat ackHistory; w = unat (i div 64)
      in r\<lparr>bits := (bits r)[w := bits r ! w OR push_bit (unat (i mod 64)) 1]\<rparr>)"

definition clear_bit_at :: "uint32 \<Rightarrow> recvTracker \<Rightarrow> recvTracker" where
  "clear_bit_at seq r =
     (let i = seq mod of_nat ackHistory; w = unat (i div 64)
      in r\<lparr>bits := (bits r)[w := bits r ! w AND NOT (push_bit (unat (i mod 64)) 1)]\<rparr>)"

text \<open>\<^verbatim>\<open>for s := r.largest + 1; s < seq; s++ { r.clear(s) }\<close>\<close>

function clear_loop :: "uint32 \<Rightarrow> uint32 \<Rightarrow> recvTracker \<Rightarrow> recvTracker" where
  "clear_loop s seq r = (if s < seq then clear_loop (s + 1) seq (clear_bit_at s r) else r)"
  by pat_completeness auto

termination clear_loop
  by (relation "measure (\<lambda>(s, q, r). unat q - unat s)")
    (auto simp: unat_plus_one_less word_less_nat_alt)

declare clear_loop.simps [simp del]

definition add :: "uint32 \<Rightarrow> recvTracker \<Rightarrow> recvTracker \<times> bool" where
  "add seq r =
     (if \<not> any_recvd r
      then (set_bit_at seq (r\<lparr>any_recvd := True, largest := seq\<rparr>), False)
      else if seq > largest r
      then let gap = seq - largest r - 1;
               r1 = (if seq - largest r \<ge> of_nat ackHistory then r\<lparr>bits := replicate 8 0\<rparr>
                     else clear_loop (largest r + 1) seq r)
           in (set_bit_at seq (r1\<lparr>largest := seq\<rparr>), gap > 0)
      else if seq = largest r then (r, False)
      else if largest r - seq \<ge> of_nat ackHistory then (r, True)
      else if has r seq then (r, False)
      else (set_bit_at seq r, True))"

text \<open>
  The closures \<^verbatim>\<open>run\<close> and \<^verbatim>\<open>gap\<close> of \<^verbatim>\<open>frame\<close> share the variables \<^verbatim>\<open>cursor\<close> and \<^verbatim>\<open>steps\<close>;
  here each takes them and returns them updated after its count.
\<close>

function run_loop :: "recvTracker \<Rightarrow> uint32 \<Rightarrow> uint32 \<Rightarrow> uint32 \<Rightarrow> uint32 \<times> uint32 \<times> uint32" where
  "run_loop r n cursor steps =
     (if steps < of_nat ackHistory \<and> has r cursor
      then if cursor = 0 then (n + 1, cursor, of_nat ackHistory)
           else run_loop r (n + 1) (cursor - 1) (steps + 1)
      else (n, cursor, steps))"
  by pat_completeness auto

termination run_loop
  by (relation "measure (\<lambda>(r, n, c, t). ackHistory - unat t)")
    (auto simp: unat_plus_one word_less_nat_alt)

function gap_loop :: "recvTracker \<Rightarrow> uint8 \<Rightarrow> uint32 \<Rightarrow> uint32 \<Rightarrow> uint8 \<times> uint32 \<times> uint32" where
  "gap_loop r n cursor steps =
     (if steps < of_nat ackHistory \<and> n < 255 \<and> \<not> has r cursor
      then if cursor = 0 then (n + 1, cursor, of_nat ackHistory)
           else gap_loop r (n + 1) (cursor - 1) (steps + 1)
      else (n, cursor, steps))"
  by pat_completeness auto

termination gap_loop
  by (relation "measure (\<lambda>(r, n, c, t). ackHistory - unat t)")
    (auto simp: unat_plus_one word_less_nat_alt)

function ranges_loop :: "recvTracker \<Rightarrow> AckRange list \<Rightarrow> uint32 \<Rightarrow> uint32 \<Rightarrow> AckRange list" where
  "ranges_loop r acc cursor steps =
     (if length acc < 5 \<and> steps < of_nat ackHistory
      then let (g, cursor, steps) = gap_loop r 0 cursor steps
           in if g = 0 then acc
              else let (n, cursor, steps) = run_loop r 0 cursor steps
                   in if n = 0 then acc
                      else ranges_loop r (acc @ [\<lparr>Gap = g, AckRangeLength = n\<rparr>]) cursor steps
      else acc)"
  by pat_completeness auto

termination ranges_loop
  by (relation "measure (\<lambda>(r, acc, c, t). 5 - length acc)") auto

declare run_loop.simps [simp del] gap_loop.simps [simp del] ranges_loop.simps [simp del]

definition frame :: "recvTracker \<Rightarrow> uint16 \<Rightarrow> AckFrame" where
  "frame r ackDelay =
     (if \<not> any_recvd r
      then \<lparr>LargestAcked = 0, AckDelay = ackDelay, FirstAckRangeLength = 1, AckRanges = []\<rparr>
      else let (n, cursor, steps) = run_loop r 0 (largest r) 0
           in \<lparr>LargestAcked = largest r, AckDelay = ackDelay, FirstAckRangeLength = n,
               AckRanges = ranges_loop r [] cursor steps\<rparr>)"

section \<open>The bitmap as a set of slots\<close>

definition slot :: "recvTracker \<Rightarrow> nat \<Rightarrow> bool" where
  "slot r k \<longleftrightarrow> bit (bits r ! (k div 64)) (k mod 64)"

lemma slot_index:
  fixes seq :: uint32
  shows "unat ((seq mod of_nat ackHistory) div 64) = (unat seq mod 512) div 64"
    and "unat ((seq mod of_nat ackHistory) mod 64) = (unat seq mod 512) mod 64"
  by (simp_all add: unat_div unat_mod)

lemma test_bit_slot: "w AND 2 ^ n \<noteq> 0 \<longleftrightarrow> bit w n" for w :: uint64
  by (simp add: bit_iff_and_push_bit_not_eq_0)

lemma has_iff:
  "has r s \<longleftrightarrow> any_recvd r \<and> unat s \<le> unat (largest r)
     \<and> unat (largest r) - unat s < 512 \<and> slot r (unat s mod 512)"
proof (cases "s \<le> largest r")
  case True
  then have "largest r - s \<ge> of_nat ackHistory \<longleftrightarrow> 512 \<le> unat (largest r) - unat s"
    by (simp add: word_le_nat_alt unat_minus_le)
  with True show ?thesis
    by (auto simp: has_def slot_def slot_index test_bit_slot Let_def word_le_nat_alt
        word_less_nat_alt simp del: ackHistory_def)
next
  case False
  then show ?thesis by (auto simp: has_def word_le_nat_alt word_less_nat_alt)
qed

lemma div_mod_64: "k div 64 = j div 64 \<and> k mod 64 = j mod 64 \<longleftrightarrow> k = j" for k j :: nat
  by (metis div_mult_mod_eq)

lemma slot_set:
  assumes "length (bits r) = 8" and "k < 512"
  shows "slot (set_bit_at s r) k \<longleftrightarrow> k = unat s mod 512 \<or> slot r k"
  using assms div_mod_64 [of k "unat s mod 512"]
  by (auto simp: set_bit_at_def slot_def slot_index Let_def nth_list_update bit_simps
      simp del: ackHistory_def)

lemma slot_clear:
  assumes "length (bits r) = 8" and "k < 512"
  shows "slot (clear_bit_at s r) k \<longleftrightarrow> k \<noteq> unat s mod 512 \<and> slot r k"
  using assms div_mod_64 [of k "unat s mod 512"]
  by (auto simp: clear_bit_at_def slot_def slot_index Let_def nth_list_update bit_simps
      simp del: ackHistory_def)

lemma set_clear_fields [simp]:
  "length (bits (set_bit_at s r)) = length (bits r)"
  "any_recvd (set_bit_at s r) = any_recvd r" "largest (set_bit_at s r) = largest r"
  "length (bits (clear_bit_at s r)) = length (bits r)"
  "any_recvd (clear_bit_at s r) = any_recvd r" "largest (clear_bit_at s r) = largest r"
  by (simp_all add: set_bit_at_def clear_bit_at_def Let_def)

lemma slot_update [simp]:
  "slot (r\<lparr>largest := q\<rparr>) k = slot r k" "slot (r\<lparr>any_recvd := b\<rparr>) k = slot r k"
  by (simp_all add: slot_def)

lemma clear_loop_fields [simp]:
  "length (bits (clear_loop s q r)) = length (bits r)"
  "any_recvd (clear_loop s q r) = any_recvd r" "largest (clear_loop s q r) = largest r"
  by (induction s q r rule: clear_loop.induct; subst clear_loop.simps; simp)+

lemma slot_clear_loop:
  assumes "length (bits r) = 8" and "k < 512"
  shows "slot (clear_loop s q r) k \<longleftrightarrow>
           slot r k \<and> (\<forall>t. unat s \<le> t \<and> t < unat q \<longrightarrow> k \<noteq> t mod 512)"
  using assms
proof (induction s q r rule: clear_loop.induct)
  case (1 s q r)
  show ?case
  proof (cases "s < q")
    case True
    have "slot (clear_loop s q r) k \<longleftrightarrow> slot (clear_loop (s + 1) q (clear_bit_at s r)) k"
      using True by (subst clear_loop.simps) simp
    also have "\<dots> \<longleftrightarrow> (k \<noteq> unat s mod 512 \<and> slot r k)
        \<and> (\<forall>t. Suc (unat s) \<le> t \<and> t < unat q \<longrightarrow> k \<noteq> t mod 512)"
      using 1 True by (simp add: slot_clear unat_plus_one_less)
    also have "\<dots> \<longleftrightarrow> slot r k \<and> (\<forall>t. unat s \<le> t \<and> t < unat q \<longrightarrow> k \<noteq> t mod 512)"
      using True by (auto simp: word_less_nat_alt Suc_le_eq dest: le_neq_implies_less less_imp_le)
    finally show ?thesis .
  next
    case False
    then show ?thesis by (subst clear_loop.simps) (auto simp: word_less_nat_alt)
  qed
qed

section \<open>The tracker refines the set of recent arrivals\<close>

text \<open>
  What a receiver with a bounded history promises: it holds the arrivals less than
  \<open>ackHistory\<close> below the largest. A provider gives its abstraction to a set and an invariant.
\<close>

definition recent :: "uint32 set \<Rightarrow> uint32 set" where
  "recent A = {s \<in> A. unat (Max A) - unat s < ackHistory}"

locale recent_set =
  fixes empty :: 's and insert_seq :: "uint32 \<Rightarrow> 's \<Rightarrow> 's"
    and abs :: "'s \<Rightarrow> uint32 set" and inv :: "'s \<Rightarrow> bool"
  assumes empty_abs: "abs empty = {}" and empty_inv: "inv empty"
    and insert_inv: "inv r \<Longrightarrow> inv (insert_seq q r)"
    and insert_abs: "inv r \<Longrightarrow> abs (insert_seq q r) = recent (insert q (abs r))"
begin

lemma Max_recent: "A \<noteq> {} \<Longrightarrow> Max (recent A) = Max A"
  by (rule Max_eqI) (auto simp: recent_def)

lemma recent_insert_recent: "recent (insert q (recent A)) = recent (insert q A)"
proof (cases "A = {}")
  case False
  then have "Max A \<in> recent A" by (simp add: recent_def)
  then have "Max (insert q (recent A)) = Max (insert q A)"
    using False by (subst (1 2) Max_insert) (auto simp: Max_recent)
  moreover have "unat (Max A) \<le> unat (Max (insert q A))"
    using False by (simp add: word_le_nat_alt [symmetric])
  ultimately show ?thesis
    by (auto simp: recent_def)
qed (simp add: recent_def)

lemma arrivals_inv: "inv (fold insert_seq qs empty)"
  by (induction qs rule: rev_induct) (simp_all add: empty_inv insert_inv)

text \<open>Whatever the order and the repetitions of the arrivals, the record is their recent part.\<close>

lemma arrivals_abs: "abs (fold insert_seq qs empty) = recent (set qs)"
  by (induction qs rule: rev_induct)
    (simp_all add: empty_abs insert_abs arrivals_inv recent_insert_recent, simp add: recent_def)

end

definition wf_tracker :: "recvTracker \<Rightarrow> bool" where
  "wf_tracker r \<longleftrightarrow> length (bits r) = 8
     \<and> (if any_recvd r then has r (largest r) else \<forall>k<512. \<not> slot r k)"

definition received :: "recvTracker \<Rightarrow> uint32 set" where
  "received r = {s. has r s}"

lemma Max_received: "wf_tracker r \<Longrightarrow> any_recvd r \<Longrightarrow> Max (received r) = largest r"
  by (rule Max_eqI) (auto simp: received_def wf_tracker_def has_iff word_le_nat_alt)

lemma received_none: "\<not> any_recvd r \<Longrightarrow> received r = {}"
  by (simp add: received_def has_iff)

lemma unat_slot_inj:
  assumes "unat a \<le> unat b" and "unat b - unat a < 512"
  shows "unat a mod 512 = unat b mod 512 \<longleftrightarrow> a = b"
  using assms mod_distinct [of "unat a" "unat b" 512] by (auto simp: unat_inject order_le_less)

lemma add_first:
  assumes "wf_tracker r" and "\<not> any_recvd r"
  shows "wf_tracker (fst (add q r))" and "received (fst (add q r)) = {q}"
proof -
  have "has (fst (add q r)) s \<longleftrightarrow> s = q" for s
    using assms unat_slot_inj [of s q]
    by (auto simp: add_def has_iff slot_set wf_tracker_def)
  then show "received (fst (add q r)) = {q}" "wf_tracker (fst (add q r))"
    using assms by (auto simp: received_def wf_tracker_def add_def)
qed

lemma add_ahead_slot:
  assumes wf: "wf_tracker r" and "any_recvd r" and new: "unat (largest r) < unat q"
    and s: "unat s < unat q" "unat q - unat s < 512"
  shows "slot (fst (add q r)) (unat s mod 512) \<longleftrightarrow> has r s"
proof -
  have len: "length (bits r) = 8" and k: "unat s mod 512 < 512"
    using wf by (simp_all add: wf_tracker_def)
  have sq: "unat s mod 512 \<noteq> unat q mod 512" using s mod_distinct by blast
  have big: "of_nat ackHistory \<le> q - largest r \<longleftrightarrow> 512 \<le> unat q - unat (largest r)"
    using new by (simp add: word_le_nat_alt unat_minus_le)
  show ?thesis
  proof (cases "512 \<le> unat q - unat (largest r)")
    case True
    have "\<not> slot (r\<lparr>bits := replicate 8 0\<rparr>) (unat s mod 512)" by (simp add: slot_def)
    moreover have "\<not> has r s" using True s by (auto simp: has_iff)
    ultimately show ?thesis
      using True big new sq k assms(2)
      by (simp add: add_def slot_set word_less_nat_alt del: ackHistory_def)
  next
    case False
    have L1: "unat (largest r + 1) = Suc (unat (largest r))"
      using new by (intro unat_plus_one_less [of _ q]) (simp add: word_less_nat_alt)
    have "slot (fst (add q r)) (unat s mod 512) \<longleftrightarrow>
        slot (clear_loop (largest r + 1) q r) (unat s mod 512)"
      using False big new sq k assms(2) len
      by (simp add: add_def slot_set word_less_nat_alt del: ackHistory_def)
    also have "\<dots> \<longleftrightarrow> slot r (unat s mod 512)
        \<and> (\<forall>t. unat (largest r) < t \<and> t < unat q \<longrightarrow> unat s mod 512 \<noteq> t mod 512)"
      using slot_clear_loop [OF len k] L1 by (simp add: Suc_le_eq)
    also have "\<dots> \<longleftrightarrow> has r s"
    proof (cases "unat s \<le> unat (largest r)")
      case True
      have "unat s mod 512 \<noteq> t mod 512" if "unat (largest r) < t" "t < unat q" for t
        using that True s by (intro mod_distinct) auto
      then show ?thesis using True s new assms(2) by (auto simp: has_iff)
    next
      case False
      then show ?thesis using s by (auto simp: has_iff not_le)
    qed
    finally show ?thesis .
  qed
qed

lemma add_ahead_fields:
  assumes "wf_tracker r" and "any_recvd r" and "unat (largest r) < unat q"
  shows "any_recvd (fst (add q r))" and "largest (fst (add q r)) = q"
    and "length (bits (fst (add q r))) = 8" and "slot (fst (add q r)) (unat q mod 512)"
  using assms by (simp_all add: add_def word_less_nat_alt wf_tracker_def slot_set Let_def)

lemma add_ahead:
  assumes "wf_tracker r" and "any_recvd r" and "unat (largest r) < unat q"
  shows "wf_tracker (fst (add q r))"
    and "received (fst (add q r)) = {s. s = q \<or> has r s \<and> unat q - unat s < 512}"
proof -
  note fields = add_ahead_fields [OF assms]
  have "has (fst (add q r)) s \<longleftrightarrow> s = q \<or> has r s \<and> unat q - unat s < 512" for s
    using fields add_ahead_slot [OF assms, of s] assms(3)
    by (auto simp: has_iff [of "fst (add q r)"] has_iff [of r s] unat_inject
        dest: le_neq_implies_less)
  then show "wf_tracker (fst (add q r))"
    "received (fst (add q r)) = {s. s = q \<or> has r s \<and> unat q - unat s < 512}"
    using fields by (auto simp: wf_tracker_def received_def)
qed

lemma add_behind:
  assumes "wf_tracker r" and "any_recvd r" and "unat q \<le> unat (largest r)"
  shows "wf_tracker (fst (add q r))"
    and "received (fst (add q r)) =
      (if unat (largest r) - unat q < 512 then insert q (received r) else received r)"
proof -
  have old: "of_nat ackHistory \<le> largest r - q \<longleftrightarrow> 512 \<le> unat (largest r) - unat q"
    using assms(3) by (simp add: word_le_nat_alt unat_minus_le)
  have fields: "any_recvd (fst (add q r))" "largest (fst (add q r)) = largest r"
      "length (bits (fst (add q r))) = 8"
    using assms by (auto simp: add_def wf_tracker_def word_less_nat_alt)
  have "has (fst (add q r)) s \<longleftrightarrow> has r s \<or> s = q \<and> unat (largest r) - unat q < 512" for s
  proof (cases "unat (largest r) - unat q < 512 \<and> \<not> has r q")
    case True
    then have "q \<noteq> largest r" using assms by (auto simp: wf_tracker_def)
    then have eq: "fst (add q r) = set_bit_at q r"
      using True assms old by (auto simp: add_def word_less_nat_alt simp del: ackHistory_def)
    have "unat s mod 512 = unat q mod 512 \<longleftrightarrow> s = q"
      if "unat s \<le> unat (largest r)" "unat (largest r) - unat s < 512"
      using that True assms(3) unat_slot_inj [of s q] unat_slot_inj [of q s] nat_le_linear [of "unat s" "unat q"]
      by fastforce
    then show ?thesis
      using True assms by (auto simp: eq has_iff slot_set wf_tracker_def)
  next
    case False
    then have "fst (add q r) = r"
      using assms old by (auto simp: add_def word_less_nat_alt simp del: ackHistory_def)
    then show ?thesis using False by auto
  qed
  then show "wf_tracker (fst (add q r))" "received (fst (add q r)) =
      (if unat (largest r) - unat q < 512 then insert q (received r) else received r)"
    using fields assms by (auto simp: wf_tracker_def received_def)
qed

interpretation tr: recent_set newTracker "\<lambda>q r. fst (add q r)" received wf_tracker
proof
  show "received newTracker = {}" by (simp add: received_none newTracker_def)
  show "wf_tracker newTracker" by (simp add: wf_tracker_def newTracker_def slot_def)
  fix r and q :: uint32 assume wf: "wf_tracker r"
  consider "\<not> any_recvd r" | "any_recvd r" "unat (largest r) < unat q"
    | "any_recvd r" "unat q \<le> unat (largest r)" by linarith
  note cases = this
  then show "wf_tracker (fst (add q r))"
    by cases (simp_all add: wf add_first add_ahead add_behind)
  from cases show "received (fst (add q r)) = recent (insert q (received r))"
  proof cases
    case 1
    then show ?thesis by (auto simp: wf add_first received_none recent_def)
  next
    case 2
    then have M: "Max (insert q (received r)) = q"
      by (intro Max_eqI) (auto simp: received_def has_iff word_le_nat_alt)
    show ?thesis unfolding add_ahead(2) [OF wf 2] recent_def M by (auto simp: received_def)
  next
    case 3
    then have M: "Max (insert q (received r)) = largest r"
      using wf by (intro Max_eqI) (auto simp: received_def wf_tracker_def has_iff word_le_nat_alt)
    have "unat (largest r) - unat s < 512" if "s \<in> received r" for s
      using that by (simp add: received_def has_iff)
    then show ?thesis unfolding add_behind(2) [OF wf 3] recent_def M by auto
  qed
qed

text \<open>The tracker after the packets \<open>qs\<close> arrived, in this order.\<close>

definition tracked :: "uint32 list \<Rightarrow> recvTracker" where
  "tracked qs = fold (\<lambda>q r. fst (add q r)) qs newTracker"

lemma tracked_received: "received (tracked qs) = recent (set qs)"
  unfolding tracked_def by (rule tr.arrivals_abs)

lemma tracked_wf: "wf_tracker (tracked qs)"
  unfolding tracked_def by (rule tr.arrivals_inv)

lemma tracked_any: "any_recvd (tracked qs) \<longleftrightarrow> qs \<noteq> []"
proof (cases "qs = []")
  case False
  then have "Max (set qs) \<in> received (tracked qs)"
    by (simp add: tracked_received recent_def)
  then show ?thesis using False by (auto simp: received_def has_iff)
qed (simp add: tracked_def newTracker_def)

lemma tracked_largest: "qs \<noteq> [] \<Longrightarrow> largest (tracked qs) = Max (set qs)"
  using Max_received [OF tracked_wf] by (simp add: tracked_any tracked_received tr.Max_recent)

section \<open>The ACK frame\<close>

text \<open>The sequences an ACK frame acknowledges, by their distance below its largest.\<close>

fun range_positions :: "nat \<Rightarrow> AckRange list \<Rightarrow> nat set" where
  "range_positions e [] = {}"
| "range_positions e (a # as) =
     (let b = e + unat (Gap a); c = b + unat (AckRangeLength a)
      in {b..<c} \<union> range_positions c as)"

definition ack_positions :: "AckFrame \<Rightarrow> nat set" where
  "ack_positions f = {..<unat (FirstAckRangeLength f)}
     \<union> range_positions (unat (FirstAckRangeLength f)) (AckRanges f)"

definition acked_seqs :: "AckFrame \<Rightarrow> uint32 set" where
  "acked_seqs f = (\<lambda>p. LargestAcked f - of_nat p) ` ack_positions f"

definition at :: "recvTracker \<Rightarrow> nat \<Rightarrow> bool" where
  "at r p \<longleftrightarrow> p \<le> unat (largest r) \<and> has r (largest r - of_nat p)"

text \<open>
  Invariant of the downward scan after \<open>e\<close> sequences: the cursor stands \<open>e\<close> below the largest,
  or sequence 0 has been passed and \<open>steps\<close> stops every loop.
\<close>

definition scan :: "recvTracker \<Rightarrow> nat \<Rightarrow> uint32 \<Rightarrow> uint32 \<Rightarrow> bool" where
  "scan r e c t \<longleftrightarrow> e \<le> 512
     \<and> (e \<le> unat (largest r) \<and> unat c = unat (largest r) - e \<and> unat t = e
        \<or> unat t = 512 \<and> e = Suc (unat (largest r)))"

lemma unat_below: "p \<le> unat x \<Longrightarrow> unat (x - of_nat p) = unat x - p" for x :: uint32
  using unat_less_2p [of x] unat_minus_le [of "of_nat p" x]
  by (simp add: word_le_nat_alt unsigned_of_nat take_bit_nat_eq_self)

lemma scan_at:
  assumes "scan r e c t" and "unat t < 512"
  shows "has r c \<longleftrightarrow> at r e"
proof -
  have e: "e \<le> unat (largest r)" and "unat c = unat (largest r) - e"
    using assms by (auto simp: scan_def)
  then have "c = largest r - of_nat e" by (simp add: unat_inject [symmetric] unat_below)
  then show ?thesis using e by (simp add: at_def)
qed

lemma scan_step:
  assumes "scan r e c t" and "unat t < 512"
  shows "c = 0 \<Longrightarrow> scan r (Suc e) c 512" and "c \<noteq> 0 \<Longrightarrow> scan r (Suc e) (c - 1) (t + 1)"
proof -
  assume "c \<noteq> 0"
  then have "0 < unat c" by (simp add: unat_gt_0)
  then show "scan r (Suc e) (c - 1) (t + 1)"
    using assms \<open>c \<noteq> 0\<close> by (auto simp: scan_def unat_minus_one_pos unat_plus_one)
qed (use assms in \<open>auto simp: scan_def\<close>)

lemma scan_end: "scan r e c t \<Longrightarrow> \<not> unat t < 512 \<Longrightarrow> at r p \<Longrightarrow> p < e"
  by (auto simp: scan_def at_def has_iff unat_below)

lemma scan_le: "scan r e c t \<Longrightarrow> e \<le> 512 \<and> e \<le> Suc (unat (largest r))"
  by (auto simp: scan_def)

text \<open>What a call of \<^verbatim>\<open>run\<close> (\<^verbatim>\<open>gap\<close>) after \<open>e\<close> sequences has done when it counted \<open>k\<close>.\<close>

definition run_ok :: "recvTracker \<Rightarrow> nat \<Rightarrow> uint32 \<Rightarrow> nat \<Rightarrow> uint32 \<times> uint32 \<times> uint32 \<Rightarrow> bool" where
  "run_ok r e n k res \<longleftrightarrow> (case res of (n', c', t') \<Rightarrow>
     n' = n + of_nat k \<and> scan r (e + k) c' t' \<and> (\<forall>p. e \<le> p \<and> p < e + k \<longrightarrow> at r p)
     \<and> (unat t' < 512 \<longrightarrow> \<not> at r (e + k)))"

definition gap_ok :: "recvTracker \<Rightarrow> nat \<Rightarrow> uint8 \<Rightarrow> nat \<Rightarrow> uint8 \<times> uint32 \<times> uint32 \<Rightarrow> bool" where
  "gap_ok r e n k res \<longleftrightarrow> (case res of (n', c', t') \<Rightarrow>
     n' = n + of_nat k \<and> scan r (e + k) c' t' \<and> unat n + k \<le> 255
     \<and> (\<forall>p. e \<le> p \<and> p < e + k \<longrightarrow> \<not> at r p)
     \<and> (unat t' < 512 \<and> \<not> at r (e + k) \<longrightarrow> unat n + k = 255))"

lemma run_loop_scan: "scan r e c t \<Longrightarrow> \<exists>k. run_ok r e n k (run_loop r n c t)"
proof (induction r n c t arbitrary: e rule: run_loop.induct)
  case (1 r n c t)
  have lt: "t < of_nat ackHistory \<longleftrightarrow> unat t < 512" by (simp add: word_less_nat_alt)
  show ?case
  proof (cases "unat t < 512 \<and> has r c")
    case False
    then have "run_loop r n c t = (n, c, t)"
      using lt by (subst run_loop.simps) (auto simp del: ackHistory_def)
    moreover have "unat t < 512 \<longrightarrow> \<not> at r e" using False scan_at [OF 1(2)] by blast
    ultimately show ?thesis using 1(2) by (intro exI [of _ 0]) (auto simp: run_ok_def)
  next
    case go: True
    then have at: "at r e" using scan_at 1(2) by blast
    show ?thesis
    proof (cases "c = 0")
      case True
      then have "run_loop r n c t = (n + 1, c, 512)"
        using go lt by (subst run_loop.simps) (simp del: ackHistory_def, simp)
      moreover have "scan r (Suc e) c 512" using scan_step(1) 1(2) go True by simp
      ultimately show ?thesis using at
        by (intro exI [of _ 1]) (auto simp: run_ok_def less_Suc_eq)
    next
      case False
      then obtain k where IH: "run_ok r (Suc e) (n + 1) k (run_loop r (n + 1) (c - 1) (t + 1))"
        using 1(1) [OF _ False scan_step(2)] 1(2) go lt by meson
      have "run_loop r n c t = run_loop r (n + 1) (c - 1) (t + 1)"
        using go lt False by (subst run_loop.simps) (simp del: ackHistory_def)
      moreover have "at r p" if "e \<le> p" "p < Suc (e + k)" for p
        using that IH at by (cases "p = e") (auto simp: run_ok_def)
      ultimately show ?thesis using IH
        by (intro exI [of _ "Suc k"]) (auto simp: run_ok_def add.assoc add.commute)
    qed
  qed
qed

lemma gap_loop_scan:
  "scan r e c t \<Longrightarrow> unat n \<le> 255 \<Longrightarrow> \<exists>k. gap_ok r e n k (gap_loop r n c t)"
proof (induction r n c t arbitrary: e rule: gap_loop.induct)
  case (1 r n c t)
  have lt: "t < of_nat ackHistory \<longleftrightarrow> unat t < 512" "n < 255 \<longleftrightarrow> unat n < 255"
    by (simp_all add: word_less_nat_alt)
  show ?case
  proof (cases "unat t < 512 \<and> unat n < 255 \<and> \<not> has r c")
    case False
    then have "gap_loop r n c t = (n, c, t)"
      using lt by (subst gap_loop.simps) (auto simp del: ackHistory_def)
    moreover have "unat t < 512 \<and> \<not> at r e \<longrightarrow> unat n = 255"
      using False scan_at [OF 1(2)] 1(3) by (metis le_neq_implies_less)
    ultimately show ?thesis using 1(2,3) by (intro exI [of _ 0]) (auto simp: gap_ok_def)
  next
    case go: True
    then have at: "\<not> at r e" using scan_at 1(2) by blast
    have n1: "unat (n + 1) = Suc (unat n)" using go by (intro unat_plus_one) simp
    show ?thesis
    proof (cases "c = 0")
      case True
      then have "gap_loop r n c t = (n + 1, c, 512)"
        using go lt by (subst gap_loop.simps) (simp del: ackHistory_def, simp)
      moreover have "scan r (Suc e) c 512" using scan_step(1) 1(2) go True by simp
      ultimately show ?thesis using at go
        by (intro exI [of _ 1]) (auto simp: gap_ok_def less_Suc_eq)
    next
      case False
      then obtain k where IH: "gap_ok r (Suc e) (n + 1) k (gap_loop r (n + 1) (c - 1) (t + 1))"
        using 1(1) [OF _ False scan_step(2)] 1(2) go lt n1 by (metis Suc_leI)
      have "gap_loop r n c t = gap_loop r (n + 1) (c - 1) (t + 1)"
        using go lt False by (subst gap_loop.simps) (simp del: ackHistory_def)
      moreover have "\<not> at r p" if "e \<le> p" "p < Suc (e + k)" for p
        using that IH at by (cases "p = e") (auto simp: gap_ok_def)
      ultimately show ?thesis using IH n1
        by (intro exI [of _ "Suc k"]) (auto simp: gap_ok_def add.assoc add.commute)
    qed
  qed
qed

lemma ranges_loop_scan:
  assumes "scan r e c t" and "unat t < 512 \<longrightarrow> \<not> at r e" and "length acc \<le> 5"
  shows "\<exists>rs fin. ranges_loop r acc c t = acc @ rs \<and> e \<le> fin
    \<and> range_positions e rs = {p. e \<le> p \<and> p < fin \<and> at r p}
    \<and> (length (acc @ rs) = 5 \<or> (\<forall>p. at r p \<longrightarrow> p < fin)
       \<or> (\<forall>p. fin \<le> p \<and> p < fin + 255 \<longrightarrow> \<not> at r p))"
  using assms
proof (induction r acc c t arbitrary: e rule: ranges_loop.induct)
  case (1 r acc c t)
  have lt: "t < of_nat ackHistory \<longleftrightarrow> unat t < 512" by (simp add: word_less_nat_alt)
  show ?case
  proof (cases "length acc < 5 \<and> unat t < 512")
    case False
    then have stop: "ranges_loop r acc c t = acc @ []"
      using lt by (subst ranges_loop.simps) (auto simp del: ackHistory_def)
    have "length acc = 5 \<or> (\<forall>p. at r p \<longrightarrow> p < e)"
      using False 1(2-4) scan_end [OF 1(2)] by auto
    then show ?thesis using stop
      by (intro exI [of _ "[]"] exI [of _ e]) auto
  next
    case go: True
    obtain kg c1 t1 where g: "gap_loop r 0 c t = (of_nat kg, c1, t1)" "scan r (e + kg) c1 t1"
        "kg \<le> 255" "\<forall>p. e \<le> p \<and> p < e + kg \<longrightarrow> \<not> at r p"
        "unat t1 < 512 \<and> \<not> at r (e + kg) \<longrightarrow> kg = 255"
      using gap_loop_scan [OF 1(2), of 0] by (auto simp: gap_ok_def)
    obtain kr c2 t2 where n: "run_loop r 0 c1 t1 = (of_nat kr, c2, t2)" "scan r (e + kg + kr) c2 t2"
        "\<forall>p. e + kg \<le> p \<and> p < e + kg + kr \<longrightarrow> at r p" "unat t2 < 512 \<longrightarrow> \<not> at r (e + kg + kr)"
      using run_loop_scan [OF g(2), of 0] by (auto simp: run_ok_def)
    have ug: "unat (of_nat kg :: uint8) = kg" using g(3) by (intro unat_of_nat_less) simp
    have un: "unat (of_nat kr :: uint32) = kr"
      using scan_le [OF n(2)] by (intro unat_of_nat_less) simp
    have "kg \<noteq> 0"
    proof
      assume "kg = 0"
      then have "unat t1 < 512" using g(2) 1(2) go by (auto simp: scan_def)
      then show False using \<open>kg = 0\<close> g(5) 1(3) go by auto
    qed
    then have g0: "(of_nat kg :: uint8) \<noteq> 0" using ug by auto
    show ?thesis
    proof (cases "kr = 0")
      case True
      then have "ranges_loop r acc c t = acc @ []"
        using go lt g(1) n(1) by (subst ranges_loop.simps) (simp add: Let_def del: ackHistory_def)
      moreover have "(\<forall>p. at r p \<longrightarrow> p < e) \<or> (\<forall>p. e \<le> p \<and> p < e + 255 \<longrightarrow> \<not> at r p)"
      proof (cases "unat t1 < 512")
        case True
        then have "unat t2 < 512" using g(2) n(2) \<open>kr = 0\<close> by (auto simp: scan_def)
        then show ?thesis using g(4,5) n(4) True \<open>kr = 0\<close> by auto
      next
        case False
        then show ?thesis using scan_end [OF g(2)] g(4) by (meson not_le)
      qed
      ultimately show ?thesis by (intro exI [of _ "[]"] exI [of _ e]) auto
    next
      case False
      then have n0: "(of_nat kr :: uint32) \<noteq> 0" using un by auto
      let ?a = "\<lparr>Gap = of_nat kg, AckRangeLength = of_nat kr\<rparr>"
      have step: "ranges_loop r acc c t = ranges_loop r (acc @ [?a]) c2 t2"
        using go lt g(1) n(1) g0 n0
        by (subst ranges_loop.simps) (simp add: Let_def del: ackHistory_def)
      obtain rs fin where IH: "ranges_loop r (acc @ [?a]) c2 t2 = (acc @ [?a]) @ rs"
          "e + kg + kr \<le> fin"
          "range_positions (e + kg + kr) rs = {p. e + kg + kr \<le> p \<and> p < fin \<and> at r p}"
          "length ((acc @ [?a]) @ rs) = 5 \<or> (\<forall>p. at r p \<longrightarrow> p < fin)
            \<or> (\<forall>p. fin \<le> p \<and> p < fin + 255 \<longrightarrow> \<not> at r p)"
        using 1(1) [OF _ g(1) [symmetric] refl refl g0 n(1) [symmetric] refl refl n0 n(2,4)] go lt by auto
      have "range_positions e (?a # rs) = {p. e \<le> p \<and> p < fin \<and> at r p}"
        using IH(2,3) g(4) n(3) ug un by (auto simp: Let_def)
      then show ?thesis using step IH
        by (intro exI [of _ "?a # rs"] exI [of _ fin]) simp
    qed
  qed
qed

section \<open>What the ACK frame says\<close>

lemma frame_scan:
  assumes "any_recvd r" and "has r (largest r)"
  shows "\<exists>fin>0. ack_positions (frame r d) = {p. p < fin \<and> at r p}
    \<and> (length (AckRanges (frame r d)) = 5 \<or> (\<forall>p. at r p \<longrightarrow> p < fin)
       \<or> (\<forall>p. fin \<le> p \<and> p < fin + 255 \<longrightarrow> \<not> at r p))"
proof -
  have "scan r 0 (largest r) 0" by (simp add: scan_def)
  from run_loop_scan [OF this, of 0] obtain k c t where n: "run_loop r 0 (largest r) 0 = (of_nat k, c, t)"
      "scan r k c t" "\<forall>p. p < k \<longrightarrow> at r p" "unat t < 512 \<longrightarrow> \<not> at r k"
    by (auto simp: run_ok_def)
  obtain rs fin where rs: "ranges_loop r [] c t = rs" "k \<le> fin"
      "range_positions k rs = {p. k \<le> p \<and> p < fin \<and> at r p}"
      "length rs = 5 \<or> (\<forall>p. at r p \<longrightarrow> p < fin) \<or> (\<forall>p. fin \<le> p \<and> p < fin + 255 \<longrightarrow> \<not> at r p)"
    using ranges_loop_scan [OF n(2,4), of "[]"] by auto
  have "0 < k"
    using n(2,4) assms(2) by (cases k) (auto simp: scan_def at_def)
  have "unat (of_nat k :: uint32) = k"
    using scan_le [OF n(2)] by (intro unat_of_nat_less) simp
  then have "ack_positions (frame r d) = {p. p < fin \<and> at r p}"
    using assms n(1,3) rs(1-3) by (auto simp: frame_def ack_positions_def)
  then show ?thesis using rs(2,4) assms n(1) rs(1) \<open>0 < k\<close>
    by (intro exI [of _ fin]) (auto simp: frame_def)
qed

lemma frame_largest: "any_recvd r \<Longrightarrow> LargestAcked (frame r d) = largest r"
  by (simp add: frame_def split: prod.splits)

lemma at_iff: "unat s \<le> unat (largest r) \<Longrightarrow> at r (unat (largest r) - unat s) \<longleftrightarrow> has r s"
  by (simp add: at_def of_nat_diff)

lemma acked_seqs_at:
  assumes "any_recvd r" and "ack_positions (frame r d) = {p. p < fin \<and> at r p}"
  shows "acked_seqs (frame r d) = {s \<in> received r. unat (largest r) - unat s < fin}"
proof (intro set_eqI iffI)
  fix s assume "s \<in> acked_seqs (frame r d)"
  then obtain p where "p < fin" "at r p" "s = largest r - of_nat p"
    using assms by (auto simp: acked_seqs_def frame_largest)
  then show "s \<in> {s \<in> received r. unat (largest r) - unat s < fin}"
    by (simp add: at_def received_def unat_below)
next
  fix s assume s: "s \<in> {s \<in> received r. unat (largest r) - unat s < fin}"
  then have le: "unat s \<le> unat (largest r)" by (auto simp: received_def has_iff)
  then have "s = largest r - of_nat (unat (largest r) - unat s)"
    by (simp add: of_nat_diff)
  moreover have "at r (unat (largest r) - unat s)"
    using s le by (simp add: at_iff received_def)
  ultimately show "s \<in> acked_seqs (frame r d)"
    using s assms by (auto simp: acked_seqs_def frame_largest)
qed

text \<open>
  C12: After any non-empty sequence \<open>qs\<close> of arrivals, the ACK frame names the largest of them
  and acknowledges exactly the received sequences of the history from some point \<open>low\<close> upwards:
  nothing that did not arrive, and nothing left out in between. It stops short of the whole
  history only when its five ranges are used up, or at a hole of 255 missing sequences, the
  most a gap byte can express.
\<close>

theorem frame_exact:
  assumes "qs \<noteq> []"
  shows "\<exists>low. acked_seqs (frame (tracked qs) d) = {s \<in> recent (set qs). low \<le> unat s}
    \<and> LargestAcked (frame (tracked qs) d) = Max (set qs) \<and> low \<le> unat (Max (set qs))
    \<and> (length (AckRanges (frame (tracked qs) d)) = 5
       \<or> acked_seqs (frame (tracked qs) d) = recent (set qs)
       \<or> (\<forall>s \<in> recent (set qs). unat s < low \<longrightarrow> unat s + 255 < low))"
proof -
  let ?r = "tracked qs" and ?f = "frame (tracked qs) d"
  let ?L = "unat (largest ?r)"
  have any: "any_recvd ?r" using assms by (simp add: tracked_any)
  have "has ?r (largest ?r)" using tracked_wf [of qs] any by (simp add: wf_tracker_def)
  then obtain fin where pos: "ack_positions ?f = {p. p < fin \<and> at ?r p}"
      and "0 < fin" and why: "length (AckRanges ?f) = 5 \<or> (\<forall>p. at ?r p \<longrightarrow> p < fin)
        \<or> (\<forall>p. fin \<le> p \<and> p < fin + 255 \<longrightarrow> \<not> at ?r p)"
    using frame_scan [OF any] by blast
  have L: "largest ?r = Max (set qs)" using assms by (rule tracked_largest)
  have rec: "recent (set qs) = received ?r" by (simp add: tracked_received)
  have below: "unat s \<le> ?L" if "s \<in> received ?r" for s
    using that by (simp add: received_def has_iff)
  have acked: "acked_seqs ?f = {s \<in> received ?r. ?L - unat s < fin}"
    by (rule acked_seqs_at [OF any pos])
  have at: "at ?r (?L - unat s)" if "s \<in> received ?r" for s
    using that below [OF that] by (simp add: at_iff received_def)
  have low: "Suc ?L - fin \<le> unat s \<longleftrightarrow> ?L - unat s < fin" if "s \<in> received ?r" for s
    using below [OF that] \<open>0 < fin\<close> by linarith
  have "acked_seqs ?f = recent (set qs)" if "\<forall>p. at ?r p \<longrightarrow> p < fin"
    using that at by (auto simp: acked rec)
  moreover have "unat s + 255 < Suc ?L - fin"
    if "\<forall>p. fin \<le> p \<and> p < fin + 255 \<longrightarrow> \<not> at ?r p" "s \<in> received ?r" "unat s < Suc ?L - fin" for s
    using that(1) [rule_format, of "?L - unat s"] at [OF that(2)] that(3) by linarith
  ultimately show ?thesis
    using why \<open>0 < fin\<close> low
    by (intro exI [of _ "Suc ?L - fin"])
      (auto simp: acked rec frame_largest [OF any] L [symmetric])
qed

theorem frame_exact_witness:
  "LargestAcked (frame (tracked [0, 1, 3]) 0) = 3
   \<and> (\<exists>low. acked_seqs (frame (tracked [0, 1, 3]) 0) = {s \<in> recent {0, 1, 3}. low \<le> unat s})
   \<and> frame (tracked [0, 1, 3]) 0 = \<lparr>LargestAcked = 3, AckDelay = 0, FirstAckRangeLength = 1,
        AckRanges = [\<lparr>Gap = 1, AckRangeLength = 2\<rparr>]\<rparr>"
proof (intro conjI)
  have ne: "[0, 1, 3 :: uint32] \<noteq> []" by simp
  have s: "set [0, 1, 3 :: uint32] = {0, 1, 3}" and m: "Max (set [0, 1, 3 :: uint32]) = 3"
    by simp_all
  show "LargestAcked (frame (tracked [0, 1, 3]) 0) = 3"
    using frame_exact [OF ne, of 0] unfolding m by blast
  show "\<exists>low. acked_seqs (frame (tracked [0, 1, 3]) 0) = {s \<in> recent {0, 1, 3}. low \<le> unat s}"
    using frame_exact [OF ne, of 0] unfolding s by blast
  show "frame (tracked [0, 1, 3]) 0 = \<lparr>LargestAcked = 3, AckDelay = 0, FirstAckRangeLength = 1,
        AckRanges = [\<lparr>Gap = 1, AckRangeLength = 2\<rparr>]\<rparr>"
    by code_simp
qed

text \<open>
  \<^verbatim>\<open>add\<close> reports an arrival as out of order exactly when it leaves a hole behind it, or
  when it is below the largest and not already recorded in the history; the first packet and a
  duplicate within the history are in order.
\<close>

lemma add_out_of_order:
  "snd (add q (tracked qs)) \<longleftrightarrow>
     (if qs = [] then False
      else if Max (set qs) < q then q \<noteq> Max (set qs) + 1
      else q \<noteq> Max (set qs) \<and> q \<notin> recent (set qs))"
proof (cases "qs = []")
  case True
  then show ?thesis by (simp add: add_def tracked_any)
next
  case False
  let ?r = "tracked qs"
  have any: "any_recvd ?r" and L: "largest ?r = Max (set qs)"
    using False by (simp_all add: tracked_any tracked_largest)
  have gap: "0 < q - largest ?r - 1 \<longleftrightarrow> q \<noteq> largest ?r + 1"
    by (auto simp: word_gt_0 diff_eq_eq add.commute)
  have old: "\<not> has ?r q" if "of_nat ackHistory \<le> largest ?r - q" "q < largest ?r"
    using that by (simp add: has_iff word_le_nat_alt word_less_nat_alt unat_minus_le)
  have "q \<in> recent (set qs) \<longleftrightarrow> has ?r q"
    by (simp add: tracked_received [symmetric] received_def)
  then show ?thesis
    unfolding L [symmetric] using False any gap old
    by (auto simp: add_def Let_def simp del: ackHistory_def)
qed

end
