(* ===== verification/Udx_Packet.thy ===== *)
theory Udx_Packet
  imports Udx_Frame
begin

text \<open>
  Packets (\<^verbatim>\<open>packet.go\<close>): the header and a sequence of frames. \<open>MarshalPacket\<close> sizes a buffer
  from the frames' \<^verbatim>\<open>Len\<close> and writes header and frames into it; \<open>UnmarshalPacket\<close> checks and
  reads a datagram and loops over its frames (\<open>parse_frames\<close>), a loop that ends because every
  frame consumes at least a byte. The theorems: no datagram makes the parser panic, a packet
  parses back from its own encoding, and the bytes a parsed packet re-encodes to are as many as
  the datagram had.
\<close>

record Packet =
  Version :: uint32
  DestinationCID :: ConnectionID
  SourceCID :: ConnectionID
  Sequence :: uint32
  DestinationStreamID :: uint32
  SourceStreamID :: uint32
  Frames :: "Frame list"
  Packet_SentTime :: time
  Packet_IsAcked :: bool
  wireLen :: nat

definition minHeaderLen :: nat where [simp]: "minHeaderLen = 18"

section \<open>Marshalling\<close>

definition headerLen :: "Packet \<Rightarrow> nat" where
  "headerLen p = 4 + 1 + Len (DestinationCID p) + 1 + Len (SourceCID p) + 4 + 4 + 4"

definition framesLen :: "Frame list \<Rightarrow> nat" where
  "framesLen fs = foldl (\<lambda>n f. n + Frame_Len f) 0 fs"

definition header_writes :: "Packet \<Rightarrow> go_write list" where
  "header_writes p =
     (let d = Len (DestinationCID p); s = Len (SourceCID p) in
      [Put 0 (be32 (Version p)),
       Put 4 [of_nat d], Copy 5 (Bytes (DestinationCID p)),
       Put (5 + d) [of_nat s], Copy (6 + d) (Bytes (SourceCID p)),
       Put (6 + d + s) (be32 (Sequence p)),
       Put (10 + d + s) (be32 (DestinationStreamID p)),
       Put (14 + d + s) (be32 (SourceStreamID p))])"

fun write_frames :: "Frame list \<Rightarrow> nat \<Rightarrow> byte list \<Rightarrow> byte list result" where
  "write_frames [] offset buf = Inr buf"
| "write_frames (f # fs) offset buf =
     res_bind (Frame_Marshal f) (\<lambda>fb.
     res_bind (do_write (Copy offset fb) buf) (\<lambda>buf'.
       write_frames fs (offset + length fb) buf'))"

definition MarshalPacket :: "Packet \<Rightarrow> byte list result" where
  "MarshalPacket p =
     (let buf = replicate (headerLen p + framesLen (Frames p)) 0 in
      res_bind (do_writes (header_writes p) buf) (\<lambda>buf'.
        write_frames (Frames p) (headerLen p) buf'))"

section \<open>Parsing\<close>

text \<open>
  The frame loop of \<^verbatim>\<open>UnmarshalPacket\<close>. Its termination is the progress lemma of the frame
  codec: each frame takes at least one byte off what is left of the datagram.
\<close>

function parse_frames :: "byte list \<Rightarrow> nat \<Rightarrow> Frame list result" where
  "parse_frames data offset =
     (if offset < length data
      then (case UnmarshalFrame data offset of
              Inl e \<Rightarrow> Inl e
            | Inr (frame, consumed) \<Rightarrow>
                res_bind (parse_frames data (offset + consumed)) (\<lambda>frames. Inr (frame # frames)))
      else Inr [])"
  by pat_completeness auto
termination
proof (relation "measure (\<lambda>(data, offset). length data - offset)")
  fix data :: "byte list" and offset consumed :: nat and y frame
  assume "offset < length data" "UnmarshalFrame data offset = Inr y" "(frame, consumed) = y"
  then show "((data, offset + consumed), (data, offset))
      \<in> measure (\<lambda>(data, offset). length data - offset)"
    using UnmarshalFrame_consumed [of data offset frame consumed] Frame_Len_pos [of frame] by auto
qed simp

declare parse_frames.simps [simp del]

definition UnmarshalPacket :: "byte list \<Rightarrow> Packet result" where
  "UnmarshalPacket data =
     (if length data < minHeaderLen then Inl ErrPacketTooShort else
      res_bind (Uint32 data 0) (\<lambda>version.
      res_bind (byte_at data 4) (\<lambda>b. let dcidLen = unat b in
      if dcidLen < MinCIDLength \<or> dcidLen > MaxCIDLength then Inl ErrInvalidCIDLength
      else if 5 + dcidLen > length data then Inl ErrPacketTooShort else
      res_bind (slice_range data 5 (5 + dcidLen)) (\<lambda>db.
      res_bind (NewConnectionID db) (\<lambda>dcid.
      if 5 + dcidLen \<ge> length data then Inl ErrPacketTooShort else
      res_bind (byte_at data (5 + dcidLen)) (\<lambda>b. let scidLen = unat b; offset = 6 + dcidLen in
      if scidLen < MinCIDLength \<or> scidLen > MaxCIDLength then Inl ErrInvalidCIDLength
      else if offset + scidLen > length data then Inl ErrPacketTooShort else
      res_bind (slice_range data offset (offset + scidLen)) (\<lambda>sb.
      res_bind (NewConnectionID sb) (\<lambda>scid. let offset = offset + scidLen in
      if offset + 12 > length data then Inl ErrPacketTooShort else
      res_bind (Uint32 data offset) (\<lambda>seq.
      res_bind (Uint32 data (offset + 4)) (\<lambda>dstStreamID.
      res_bind (Uint32 data (offset + 8)) (\<lambda>srcStreamID.
      res_bind (parse_frames data (offset + 12)) (\<lambda>frames.
        Inr \<lparr>Version = version, DestinationCID = dcid, SourceCID = scid, Sequence = seq,
             DestinationStreamID = dstStreamID, SourceStreamID = srcStreamID, Frames = frames,
             Packet_SentTime = 0, Packet_IsAcked = False, wireLen = length data\<rparr>))))))))))))"

interpretation fl: frame_loop frame_bytes UnmarshalFrame frame_ok is_MTUProbeFrame parse_frames
proof unfold_locales
  show "parse_frames data off =
      (if off < length data
       then res_bind (UnmarshalFrame data off)
              (\<lambda>(f, n). res_bind (parse_frames data (off + n)) (\<lambda>fs. Inr (f # fs)))
       else Inr [])" for data off
    by (subst parse_frames.simps) (auto simp: res_bind_def split: sum.splits)
qed

section \<open>The reference encoding\<close>

definition header_bytes :: "Packet \<Rightarrow> byte list" where
  "header_bytes p = be32 (Version p) @ [of_nat (Len (DestinationCID p))] @ Bytes (DestinationCID p)
     @ [of_nat (Len (SourceCID p))] @ Bytes (SourceCID p) @ be32 (Sequence p)
     @ be32 (DestinationStreamID p) @ be32 (SourceStreamID p)"

definition packet_bytes :: "Packet \<Rightarrow> byte list" where
  "packet_bytes p = header_bytes p @ concat (map frame_bytes (Frames p))"

text \<open>
  \<open>wf_packet\<close> is what Go's types guarantee; \<open>packet_fits\<close> adds what the wire can carry, an MTU
  probe only as the last frame, since its parser takes the rest of the datagram.
\<close>

definition wf_packet :: "Packet \<Rightarrow> bool" where
  "wf_packet p \<longleftrightarrow> wf_cid (DestinationCID p) \<and> wf_cid (SourceCID p) \<and> list_all wf_frame (Frames p)"

definition packet_fits :: "Packet \<Rightarrow> bool" where
  "packet_fits p \<longleftrightarrow> list_all fits_wire (Frames p) \<and>
     list_all (\<lambda>f. \<not> is_MTUProbeFrame f) (butlast (Frames p))"

lemma foldl_add_sum_list: "foldl (\<lambda>n x. n + g x) k xs = k + sum_list (map g xs)"
  for g :: "'a \<Rightarrow> nat"
  by (induction xs arbitrary: k) (simp_all add: add.assoc)

lemma framesLen_simps [simp]:
  "framesLen [] = 0"
  "framesLen (f # fs) = Frame_Len f + framesLen fs"
  by (simp_all add: framesLen_def foldl_add_sum_list)

lemma length_header_bytes: "wf_packet p \<Longrightarrow> length (header_bytes p) = headerLen p"
  by (simp add: header_bytes_def headerLen_def wf_packet_def)

lemma length_frames_bytes:
  "list_all wf_frame fs \<Longrightarrow> length (concat (map frame_bytes fs)) = framesLen fs"
  by (induction fs) (simp_all add: length_frame_bytes)

lemma header_writes_spec:
  assumes "wf_packet p"
  shows "contiguous 0 (header_writes p)" and "written (header_writes p) = header_bytes p"
  using assms by (simp_all add: header_writes_def header_bytes_def wf_packet_def Let_def)

lemma write_frames_fill:
  assumes "list_all wf_frame fs"
    and "length buf = length pre + framesLen fs" and "take (length pre) buf = pre"
  shows "write_frames fs (length pre) buf = Inr (pre @ concat (map frame_bytes fs))"
  using assms
proof (induction fs arbitrary: pre buf)
  case Nil
  then show ?case by simp
next
  case (Cons f fs)
  let ?b = "frame_bytes f"
  let ?buf = "pre @ ?b @ drop (length pre + length ?b) buf"
  have "do_write (Copy (length pre) ?b) buf = Inr ?buf"
    using Cons.prems by (simp add: Let_def length_frame_bytes)
  moreover have "write_frames fs (length (pre @ ?b)) ?buf
      = Inr ((pre @ ?b) @ concat (map frame_bytes fs))"
    using Cons.prems by (intro Cons.IH) (simp_all add: length_frame_bytes)
  ultimately show ?case
    using Cons.prems by (simp add: Frame_Marshal_eq)
qed

lemma MarshalPacket_eq: "wf_packet p \<Longrightarrow> MarshalPacket p = Inr (packet_bytes p)"
proof -
  assume wf: "wf_packet p"
  let ?n = "framesLen (Frames p)"
  let ?buf = "header_bytes p @ replicate ?n 0"
  have "do_writes (header_writes p) (replicate (headerLen p + ?n) 0) = Inr ?buf"
    using do_writes_contiguous [OF header_writes_spec(1) [OF wf], of "replicate (headerLen p + ?n) 0"]
      header_writes_spec(2) [OF wf] length_header_bytes [OF wf] by simp
  moreover have "write_frames (Frames p) (length (header_bytes p)) ?buf = Inr (packet_bytes p)"
    using wf write_frames_fill [of "Frames p" ?buf "header_bytes p"]
    by (simp add: packet_bytes_def wf_packet_def)
  ultimately show ?thesis
    by (simp add: MarshalPacket_def length_header_bytes [OF wf])
qed

section \<open>Properties of the packet codec\<close>

lemma UnmarshalPacket_bytes:
  assumes wf: "wf_packet p" and fits: "packet_fits p"
  shows "UnmarshalPacket (packet_bytes p) =
           Inr (p\<lparr>Packet_SentTime := 0, Packet_IsAcked := False, wireLen := length (packet_bytes p)\<rparr>)"
proof -
  define data where "data = packet_bytes p"
  define fb where "fb = concat (map frame_bytes (Frames p))"
  let ?d = "Len (DestinationCID p)" and ?s = "Len (SourceCID p)"
  have d: "?d \<le> 20" and s: "?s \<le> 20" using wf by (simp_all add: wf_packet_def Len_le)
  have L: "length data = 18 + ?d + ?s + length fb"
    using wf by (simp add: data_def packet_bytes_def header_bytes_def wf_packet_def fb_def)
  have D: "drop 0 data = be32 (Version p) @ [of_nat ?d] @ Bytes (DestinationCID p)
      @ [of_nat ?s] @ Bytes (SourceCID p) @ be32 (Sequence p) @ be32 (DestinationStreamID p)
      @ be32 (SourceStreamID p) @ fb"
    by (simp add: data_def packet_bytes_def header_bytes_def fb_def)
  note D4 = drop_shift [OF D, of 4, simplified]
  note D5 = drop_shift [OF D, of 5, simplified]
  have D5d: "drop (5 + ?d) data = of_nat ?s # Bytes (SourceCID p) @ be32 (Sequence p)
      @ be32 (DestinationStreamID p) @ be32 (SourceStreamID p) @ fb"
    using drop_shift [OF D5, of ?d] wf by (simp add: wf_packet_def)
  have D6d: "drop (6 + ?d) data = Bytes (SourceCID p) @ be32 (Sequence p)
      @ be32 (DestinationStreamID p) @ be32 (SourceStreamID p) @ fb"
    using drop_shift [OF D5d, of 1] by (simp add: add.commute)
  have D6ds: "drop (6 + ?d + ?s) data = be32 (Sequence p) @ be32 (DestinationStreamID p)
      @ be32 (SourceStreamID p) @ fb"
    using drop_shift [OF D6d, of ?s] wf by (simp add: wf_packet_def)
  have F: "parse_frames data (6 + ?d + ?s + 12) = Inr (Frames p)"
    using drop_shift [OF D6ds, of 12] wf fits
    by (intro fl.loop_enc) (auto simp: fb_def wf_packet_def packet_fits_def frame_ok_def list_all_iff)
  have "Uint32 data (6 + ?d + ?s + 4) = Inr (DestinationStreamID p)"
    and "Uint32 data (6 + ?d + ?s + 8) = Inr (SourceStreamID p)"
    by (simp_all only: Uint32_def drop_shift [OF D6ds] drop_append length_be) (simp_all add: wire_simps)
  with F show ?thesis
    using d s L D wf D6ds
    by (simp add: UnmarshalPacket_def wire_simps D4 D5 D5d D6d unat_of_nat_less
        slice_range_def NewConnectionID_Bytes wf_packet_def Let_def
        flip: data_def)
qed

lemma UnmarshalPacket_meta:
  "UnmarshalPacket data = Inr p \<Longrightarrow>
     wireLen p = length data \<and> Packet_SentTime p = 0 \<and> \<not> Packet_IsAcked p"
  by (auto simp: UnmarshalPacket_def res_bind_eq_Inr Let_def split: if_splits)

lemma UnmarshalPacket_sound:
  assumes "UnmarshalPacket data = Inr p"
  shows "wf_packet p \<and> packet_fits p \<and> length (packet_bytes p) = length data
    \<and> wireLen p = length data \<and> Packet_SentTime p = 0 \<and> \<not> Packet_IsAcked p"
proof -
  let ?d = "Len (DestinationCID p)" and ?s = "Len (SourceCID p)"
  from assms obtain b db b' sb where
      sl: "slice_range data 5 (5 + unat (b :: byte)) = Inr db"
      "slice_range data (6 + unat b) (6 + unat b + unat (b' :: byte)) = Inr sb" and
      cid: "NewConnectionID db = Inr (DestinationCID p)" "NewConnectionID sb = Inr (SourceCID p)" and
      rest: "6 + unat b + unat b' + 12 \<le> length data"
      "parse_frames data (6 + unat b + unat b' + 12) = Inr (Frames p)"
    unfolding UnmarshalPacket_def res_bind_eq_Inr Let_def
    by (auto simp: res_bind_eq_Inr not_less split: if_splits)
  have "wf_cid (DestinationCID p)" "?d = unat b" "wf_cid (SourceCID p)" "?s = unat b'"
    using NewConnectionID_Inr [OF cid(1)] NewConnectionID_Inr [OF cid(2)]
      slice_range_length [OF sl(1)] slice_range_length [OF sl(2)] by simp_all
  with rest have h: "wf_cid (DestinationCID p) \<and> wf_cid (SourceCID p)
      \<and> 6 + ?d + ?s + 12 \<le> length data
      \<and> parse_frames data (6 + ?d + ?s + 12) = Inr (Frames p)"
    by simp
  then have fr: "parse_frames data (6 + ?d + ?s + 12) = Inr (Frames p)"
    and le: "6 + ?d + ?s + 12 \<le> length data" by auto
  from fl.loop_sound [OF fr] le
  have "list_all frame_ok (Frames p)" and "list_all (\<lambda>f. \<not> is_MTUProbeFrame f) (butlast (Frames p))"
    and "18 + ?d + ?s + length (concat (map frame_bytes (Frames p))) = length data"
    by auto
  with h UnmarshalPacket_meta [OF assms] show ?thesis
    by (auto simp: wf_packet_def packet_fits_def frame_ok_def list_all_iff packet_bytes_def
        header_bytes_def)
qed

text \<open>
  C6: a packet that the wire format can represent parses back from its own encoding to the same
  packet (its transmission metadata cleared and the datagram length recorded): serialising and
  parsing lose nothing, for every frame type and any sequence of frames.
\<close>

theorem packet_roundtrip:
  assumes "wf_packet p" and "packet_fits p"
  shows "\<exists>bs. MarshalPacket p = Inr bs \<and>
    UnmarshalPacket bs =
      Inr (p\<lparr>Packet_SentTime := 0, Packet_IsAcked := False, wireLen := length bs\<rparr>)"
  using assms by (simp add: MarshalPacket_eq UnmarshalPacket_bytes)

definition example_packet :: Packet where
  "example_packet = \<lparr>Version = 3,
     DestinationCID = \<lparr>cid_data = [7, 9] @ replicate 18 0, cid_len = 2\<rparr>,
     SourceCID = \<lparr>cid_data = replicate 20 0, cid_len = 0\<rparr>,
     Sequence = 5, DestinationStreamID = 0, SourceStreamID = 1,
     Frames = [Stream \<lparr>IsFin = False, IsSyn = True, Offset = 0, Data = [104, 105]\<rparr>, MTUProbeFrame 3],
     Packet_SentTime = 0, Packet_IsAcked = False, wireLen = 0\<rparr>"

theorem packet_roundtrip_witness:
  "wf_packet example_packet \<and> packet_fits example_packet \<and>
   (\<exists>bs. MarshalPacket example_packet = Inr bs \<and>
     UnmarshalPacket bs = Inr (example_packet\<lparr>wireLen := length bs\<rparr>))"
proof -
  have h: "wf_packet example_packet" "packet_fits example_packet"
    by (simp_all add: wf_packet_def packet_fits_def example_packet_def wf_cid_def)
  have m: "example_packet\<lparr>Packet_SentTime := 0, Packet_IsAcked := False, wireLen := n\<rparr>
      = example_packet\<lparr>wireLen := n\<rparr>" for n
    by (simp add: example_packet_def)
  show ?thesis using h packet_roundtrip [OF h] by (simp add: m)
qed

text \<open>
  C18: no datagram, whatever its bytes and length, makes \<^verbatim>\<open>UnmarshalPacket\<close> panic: every index and
  slice expression of the packet and frame parsers is in range where it is reached, and the
  frame loop ends.
\<close>

theorem UnmarshalPacket_never_panics: "UnmarshalPacket data \<noteq> Inl Panic"
proof -
  have "no_panic (UnmarshalPacket data)"
    by (auto simp: UnmarshalPacket_def Let_def
        intro!: no_panic_bind no_panic_reads NewConnectionID_no_panic fl.loop_no_panic)
  then show ?thesis by (simp add: no_panic_def)
qed

text \<open>
  A packet that was parsed from a datagram re-encodes to as many bytes as the datagram had,
  which is its \<^verbatim>\<open>wireLen\<close>, and parses to itself again. So counting a received packet by
  \<^verbatim>\<open>wireLen\<close> is the same as counting the bytes of its encoding.
\<close>

lemma parsed_packet_reencodes:
  assumes "UnmarshalPacket data = Inr p"
  shows "\<exists>bs. MarshalPacket p = Inr bs \<and> length bs = length data \<and> wireLen p = length bs
    \<and> UnmarshalPacket bs = Inr p"
proof -
  have wf: "wf_packet p" and fits: "packet_fits p" and len: "length (packet_bytes p) = length data"
    and w: "wireLen p = length data" "Packet_SentTime p = 0" "\<not> Packet_IsAcked p"
    using UnmarshalPacket_sound [OF assms] by auto
  have "p\<lparr>Packet_SentTime := 0, Packet_IsAcked := False, wireLen := length data\<rparr> = p"
    using w by (cases p) simp
  then have "UnmarshalPacket (packet_bytes p) = Inr p"
    using UnmarshalPacket_bytes [OF wf fits] len by simp
  with wf len w show ?thesis by (simp add: MarshalPacket_eq)
qed

end
