(* ===== verification/Udx_Packet_Manager.thy ===== *)
theory Udx_Packet_Manager
  imports Udx_Congestion Udx_Ack_Tracker Udx_Packet "HOL-Library.AList"
begin

text \<open>
  Sent packets and loss detection (\<^verbatim>\<open>packet_manager.go\<close>). The Go code shares pointers to
  \<^verbatim>\<open>SentPacket\<close> between the manager's map and the connection's queue of lost packets and compares
  them, so a packet is an address and \<open>cells\<close> is the memory it points into. The map keeps the
  order its entries were made in; Go's order of iteration is unspecified, and the results do not
  depend on it. The callbacks are run by the connection on what the operations return.
\<close>

section \<open>State\<close>

type_synonym packet_ptr = nat

record SentPacket =
  sp_Sequence :: uint32
  SentTime :: time
  FirstSentTime :: time
  sp_Size :: int
  IsAcked :: bool
  sp_Frames :: "Frame list"
  sp_DestinationStreamID :: uint32
  sp_SourceStreamID :: uint32
  RetransmitCount :: int
  Probe :: bool
  LastRetransmit :: time

record PacketManager =
  nextSeq :: uint32
  lastSentSeq :: int
  sentPackets :: "(uint32 \<times> packet_ptr) list"
  pm_largestAcked :: int
  lastAckTime :: time
  ackBeforeLoss :: time
  lossTimer :: "time option"
  cells :: "packet_ptr \<Rightarrow> SentPacket"

definition NewPacketManager :: "(packet_ptr \<Rightarrow> SentPacket) \<Rightarrow> PacketManager" where
  "NewPacketManager mem =
     \<lparr>nextSeq = 0, lastSentSeq = -1, sentPackets = [], pm_largestAcked = -1,
      lastAckTime = 0, ackBeforeLoss = 0, lossTimer = None, cells = mem\<rparr>"

section \<open>Sending\<close>

definition NextSequence :: "PacketManager \<Rightarrow> uint32 \<times> PacketManager" where
  "NextSequence pm = (nextSeq pm, pm\<lparr>nextSeq := nextSeq pm + 1\<rparr>)"

definition SendPacket :: "time \<Rightarrow> packet_ptr \<Rightarrow> PacketManager \<Rightarrow> PacketManager" where
  "SendPacket now p pm =
     (let pkt = (cells pm p)\<lparr>SentTime := now\<rparr>;
          pkt = (if FirstSentTime pkt = 0 then pkt\<lparr>FirstSentTime := now\<rparr> else pkt)
      in pm\<lparr>cells := (cells pm)(p := pkt),
            lastSentSeq := int (unat (sp_Sequence pkt)),
            sentPackets := AList.update (sp_Sequence pkt) p (sentPackets pm)\<rparr>)"

section \<open>Acknowledgement\<close>

definition take_seq :: "uint32 \<Rightarrow> PacketManager \<times> packet_ptr list \<Rightarrow> PacketManager \<times> packet_ptr list" where
  "take_seq seq s = (case s of (pm, acked) \<Rightarrow>
     (case map_of (sentPackets pm) seq of
        None \<Rightarrow> (pm, acked)
      | Some p \<Rightarrow> (pm\<lparr>cells := (cells pm)(p := (cells pm p)\<lparr>IsAcked := True\<rparr>),
                        sentPackets := AList.delete seq (sentPackets pm)\<rparr>, acked @ [p])))"

fun take_ranges :: "int \<Rightarrow> AckRange list \<Rightarrow> PacketManager \<times> packet_ptr list \<Rightarrow> PacketManager \<times> packet_ptr list" where
  "take_ranges currentSeq [] s = s"
| "take_ranges currentSeq (r # rs) s =
     (let rangeEnd = currentSeq - int (unat (Gap r));
          s = fold (\<lambda>i. take_seq (word_of_int (rangeEnd - int i))) [0..<unat (AckRangeLength r)] s
      in take_ranges (rangeEnd - int (unat (AckRangeLength r))) rs s)"

definition HandleAckFrame :: "time \<Rightarrow> AckFrame \<Rightarrow> PacketManager \<Rightarrow> PacketManager \<times> packet_ptr list" where
  "HandleAckFrame now f pm =
     (let s = fold (\<lambda>i. take_seq (LargestAcked f - of_nat i)) [0..<unat (FirstAckRangeLength f)] (pm, []);
          currentSeq = int (unat (LargestAcked f)) - int (unat (FirstAckRangeLength f));
          (pm, acked) = take_ranges currentSeq (AckRanges f) s
      in if acked \<noteq> []
         then let pm = pm\<lparr>ackBeforeLoss := lastAckTime pm, lastAckTime := now\<rparr>;
                  pm = (if int (unat (LargestAcked f)) > pm_largestAcked pm
                        then pm\<lparr>pm_largestAcked := int (unat (LargestAcked f))\<rparr> else pm)
              in (pm, acked)
         else (pm, acked))"

section \<open>Loss detection\<close>

definition lossDelay :: "CongestionController \<Rightarrow> duration" where
  "lossDelay cc =
     (let rtt = smoothedRtt cc;
          rtt = (if latestRtt cc > rtt then latestRtt cc else rtt);
          delay = go_div (rtt * LossTimeThresholdNumerator) LossTimeThresholdDenominator
      in if delay < LossTimerGranularity then LossTimerGranularity else delay)"

definition detect_one ::
    "time \<Rightarrow> duration \<Rightarrow> PacketManager \<Rightarrow> uint32 \<times> packet_ptr \<Rightarrow> packet_ptr list \<times> time \<Rightarrow> packet_ptr list \<times> time" where
  "detect_one now delay pm e s = (case (e, s) of ((seq, p), (lost, nextLoss)) \<Rightarrow>
     if int (unat seq) > pm_largestAcked pm then (lost, nextLoss)
     else let behind = pm_largestAcked pm - int (unat seq)
          in if behind \<ge> LossReorderThreshold \<or> \<not> now < SentTime (cells pm p) + delay
             then (lost @ [p], nextLoss)
             else let due = SentTime (cells pm p) + delay
                  in (lost, if nextLoss = 0 \<or> due < nextLoss then due else nextLoss))"

definition detectLostLocked ::
    "time \<Rightarrow> CongestionController \<Rightarrow> PacketManager \<Rightarrow> PacketManager \<times> packet_ptr list" where
  "detectLostLocked now cc pm =
     (let pm = pm\<lparr>lossTimer := None\<rparr>
      in if pm_largestAcked pm < 0 then (pm, [])
         else let delay = lossDelay cc;
                  (lost, nextLoss) = fold (detect_one now delay pm) (sentPackets pm) ([], 0);
                  pm = pm\<lparr>sentPackets := fold (\<lambda>p. AList.delete (sp_Sequence (cells pm p))) lost (sentPackets pm)\<rparr>;
                  lost = sort_key (\<lambda>p. sp_Sequence (cells pm p)) lost;
                  pm = (if nextLoss \<noteq> 0
                        then let wait = time_sub nextLoss now;
                                 wait = (if wait < LossTimerGranularity then LossTimerGranularity else wait)
                             in pm\<lparr>lossTimer := Some (now + wait)\<rparr>
                        else pm)
              in (pm, lost))"

definition DetectLostPackets ::
    "time \<Rightarrow> CongestionController \<Rightarrow> PacketManager \<Rightarrow> PacketManager \<times> packet_ptr list" where
  "DetectLostPackets now cc pm = detectLostLocked now cc pm"

definition onLossTimer ::
    "time \<Rightarrow> CongestionController \<Rightarrow> PacketManager \<Rightarrow> PacketManager \<times> packet_ptr list" where
  "onLossTimer now cc pm = detectLostLocked now cc (pm\<lparr>ackBeforeLoss := lastAckTime pm\<rparr>)"

section \<open>Sending again\<close>

definition untrack :: "packet_ptr \<Rightarrow> PacketManager \<Rightarrow> PacketManager" where
  "untrack p pm =
     (if map_of (sentPackets pm) (sp_Sequence (cells pm p)) = Some p
      then pm\<lparr>sentPackets := AList.delete (sp_Sequence (cells pm p)) (sentPackets pm)\<rparr> else pm)"

definition Resend :: "time \<Rightarrow> packet_ptr \<Rightarrow> PacketManager \<Rightarrow> PacketManager \<times> uint32 option" where
  "Resend now p pm =
     (if IsAcked (cells pm p) \<or> Probe (cells pm p) then (pm, None)
      else let pm = untrack p pm;
               newSeq = nextSeq pm;
               pkt = cells pm p;
               pkt = pkt\<lparr>sp_Sequence := newSeq, RetransmitCount := RetransmitCount pkt + 1,
                         LastRetransmit := now, SentTime := now\<rparr>;
               pkt = (if FirstSentTime pkt = 0 then pkt\<lparr>FirstSentTime := now\<rparr> else pkt)
           in (pm\<lparr>nextSeq := newSeq + 1, cells := (cells pm)(p := pkt),
                  lastSentSeq := int (unat newSeq),
                  sentPackets := AList.update newSeq p (sentPackets pm)\<rparr>, Some newSeq))"

definition OldestUnacked :: "nat \<Rightarrow> PacketManager \<Rightarrow> packet_ptr list" where
  "OldestUnacked n pm =
     (if sentPackets pm = [] \<or> n = 0 then []
      else take n (sort_key (\<lambda>p. sp_Sequence (cells pm p))
             (filter (\<lambda>p. \<not> Probe (cells pm p)) (map snd (sentPackets pm)))))"

definition Drop :: "packet_ptr \<Rightarrow> PacketManager \<Rightarrow> PacketManager" where
  "Drop p pm = untrack p pm"

definition GetPacket :: "uint32 \<Rightarrow> PacketManager \<Rightarrow> packet_ptr option" where
  "GetPacket seq pm = map_of (sentPackets pm) seq"

definition PendingCount :: "PacketManager \<Rightarrow> nat" where
  "PendingCount pm = length (sentPackets pm)"

definition PM_Destroy :: "PacketManager \<Rightarrow> PacketManager" where
  "PM_Destroy pm = pm\<lparr>lossTimer := None, sentPackets := []\<rparr>"

section \<open>Well-formedness\<close>

text \<open>Every tracked packet is tracked under its current number, and under no other.\<close>

definition wf_pm :: "PacketManager \<Rightarrow> bool" where
  "wf_pm pm \<longleftrightarrow> distinct (map fst (sentPackets pm))
     \<and> (\<forall>(q, p) \<in> set (sentPackets pm). sp_Sequence (cells pm p) = q)"

definition tracked_ptrs :: "PacketManager \<Rightarrow> packet_ptr set" where
  "tracked_ptrs pm = snd ` set (sentPackets pm)"

lemma wf_pm_keys: "wf_pm pm \<Longrightarrow> distinct (map fst (sentPackets pm))"
  by (simp add: wf_pm_def)

lemma wf_pm_seq: "wf_pm pm \<Longrightarrow> (q, p) \<in> set (sentPackets pm) \<Longrightarrow> sp_Sequence (cells pm p) = q"
  by (auto simp: wf_pm_def)

lemma wf_pm_ptrs: "wf_pm pm \<Longrightarrow> distinct (map snd (sentPackets pm))"
proof -
  assume wf: "wf_pm pm"
  have "map fst (sentPackets pm) = map (\<lambda>p. sp_Sequence (cells pm p)) (map snd (sentPackets pm))"
    using wf_pm_seq [OF wf] by (auto simp: list_eq_iff_nth_eq) (metis nth_mem prod.collapse)
  then show ?thesis using wf_pm_keys [OF wf] by (metis distinct_map)
qed

lemma wf_pm_lookup:
  "wf_pm pm \<Longrightarrow> map_of (sentPackets pm) q = Some p \<longleftrightarrow> p \<in> tracked_ptrs pm \<and> sp_Sequence (cells pm p) = q"
  by (auto simp: tracked_ptrs_def wf_pm_keys map_of_eq_Some_iff dest: wf_pm_seq intro: rev_image_eqI)

lemma wf_pm_unique:
  assumes "wf_pm pm" "(q, p) \<in> set (sentPackets pm)" "e \<in> set (sentPackets pm)" "fst e = q \<or> snd e = p"
  shows "e = (q, p)"
proof -
  obtain a b where e: "e = (a, b)" by (cases e)
  have "sp_Sequence (cells pm p) = q" "sp_Sequence (cells pm b) = a"
    using wf_pm_seq [OF assms(1)] assms(2,3) e by blast+
  then have a: "a = q" using assms(4) e by auto
  have "b = p" using eq_key_imp_eq_value [OF wf_pm_keys [OF assms(1)]] assms(2,3) e a by blast
  then show ?thesis by (simp add: e a)
qed

lemma tracked_iff: "wf_pm pm \<Longrightarrow> p \<in> tracked_ptrs pm \<longleftrightarrow> (sp_Sequence (cells pm p), p) \<in> set (sentPackets pm)"
  by (auto simp: tracked_ptrs_def dest: wf_pm_seq intro: rev_image_eqI)

lemma wf_pm_new: "wf_pm (NewPacketManager mem)"
  by (simp add: wf_pm_def NewPacketManager_def)

section \<open>What an ACK frame names\<close>

fun range_seqs :: "int \<Rightarrow> AckRange list \<Rightarrow> uint32 list" where
  "range_seqs c [] = []"
| "range_seqs c (r # rs) =
     (let e = c - int (unat (Gap r))
      in map (\<lambda>i. word_of_int (e - int i)) [0..<unat (AckRangeLength r)]
         @ range_seqs (e - int (unat (AckRangeLength r))) rs)"

definition frame_seqs :: "AckFrame \<Rightarrow> uint32 list" where
  "frame_seqs f = map (\<lambda>i. LargestAcked f - of_nat i) [0..<unat (FirstAckRangeLength f)]
     @ range_seqs (int (unat (LargestAcked f)) - int (unat (FirstAckRangeLength f))) (AckRanges f)"

lemma take_ranges_fold: "take_ranges c rs s = fold take_seq (range_seqs c rs) s"
  by (induction c rs s rule: take_ranges.induct) (simp_all add: Let_def fold_map comp_def)

lemma HandleAckFrame_fold:
  "HandleAckFrame now f pm =
     (let (pm, acked) = fold take_seq (frame_seqs f) (pm, [])
      in if acked \<noteq> []
         then let pm = pm\<lparr>ackBeforeLoss := lastAckTime pm, lastAckTime := now\<rparr>;
                  pm = (if int (unat (LargestAcked f)) > pm_largestAcked pm
                        then pm\<lparr>pm_largestAcked := int (unat (LargestAcked f))\<rparr> else pm)
              in (pm, acked)
         else (pm, acked))"
  by (simp add: HandleAckFrame_def frame_seqs_def take_ranges_fold fold_map comp_def Let_def)

lemma word_of_int_below: "word_of_int (int (unat x) - int e - int i) = x - of_nat (e + i)" for x :: uint32
  by simp

lemma set_range_seqs:
  "set (range_seqs (int (unat x) - int e) rs) = (\<lambda>p. x - of_nat p) ` range_positions e rs" for x :: uint32
proof (induction rs arbitrary: e)
  case (Cons r rs)
  let ?b = "e + unat (Gap r)" and ?n = "unat (AckRangeLength r)"
  have "(\<lambda>i. word_of_int (int (unat x) - int ?b - int i)) ` {0..<?n} = (\<lambda>p. x - of_nat p) ` {?b..<?b + ?n}"
    unfolding word_of_int_below image_image [symmetric, of "\<lambda>p. x - of_nat p" "\<lambda>i. ?b + i"]
    by (simp add: image_add_atLeastLessThan add.commute)
  moreover have "set (range_seqs (int (unat x) - int ?b - int ?n) rs)
      = (\<lambda>p. x - of_nat p) ` range_positions (?b + ?n) rs"
    using Cons.IH [of "?b + ?n"] by (simp add: algebra_simps)
  ultimately show ?case by (simp add: Let_def image_Un algebra_simps)
qed simp

lemma set_frame_seqs: "set (frame_seqs f) = acked_seqs f"
  using set_range_seqs [of "LargestAcked f" "unat (FirstAckRangeLength f)" "AckRanges f"]
  by (simp add: frame_seqs_def acked_seqs_def ack_positions_def image_Un lessThan_atLeast0)

text \<open>Taking a list of numbers removes exactly the entries under them.\<close>

definition taken :: "uint32 list \<Rightarrow> PacketManager \<Rightarrow> packet_ptr set" where
  "taken qs pm = snd ` {e \<in> set (sentPackets pm). fst e \<in> set qs}"

definition took :: "uint32 list \<Rightarrow> PacketManager \<Rightarrow> packet_ptr list \<Rightarrow> PacketManager \<times> packet_ptr list \<Rightarrow> bool" where
  "took qs pm acked r = (case r of (pm', acked') \<Rightarrow>
     pm' = pm\<lparr>sentPackets := filter (\<lambda>e. fst e \<notin> set qs) (sentPackets pm),
              cells := (\<lambda>p. if p \<in> taken qs pm then (cells pm p)\<lparr>IsAcked := True\<rparr> else cells pm p)\<rparr>
     \<and> set acked' = set acked \<union> taken qs pm
     \<and> (distinct acked \<longrightarrow> set acked \<inter> taken qs pm = {} \<longrightarrow> distinct acked'))"

lemma take_all:
  assumes "wf_pm pm"
  shows "took qs pm acked (fold take_seq qs (pm, acked))"
  using assms
proof (induction qs arbitrary: pm acked)
  case Nil
  then show ?case by (simp add: took_def taken_def)
next
  case (Cons q qs)
  show ?case
  proof (cases "map_of (sentPackets pm) q")
    case None
    then have q: "q \<notin> fst ` set (sentPackets pm)" by (simp add: map_of_eq_None_iff)
    then have e: "taken (q # qs) pm = taken qs pm" "filter (\<lambda>e. fst e \<notin> set (q # qs)) (sentPackets pm)
        = filter (\<lambda>e. fst e \<notin> set qs) (sentPackets pm)"
      by (auto simp: taken_def intro!: filter_cong)
    show ?thesis using Cons.IH [OF Cons.prems, of acked] None
      by (simp add: took_def e take_seq_def del: set_simps)
  next
    case (Some p)
    let ?m = "pm\<lparr>cells := (cells pm)(p := (cells pm p)\<lparr>IsAcked := True\<rparr>),
        sentPackets := AList.delete q (sentPackets pm)\<rparr>"
    have mem: "(q, p) \<in> set (sentPackets pm)" using Some by (rule map_of_SomeD)
    have sp: "sentPackets ?m = filter (\<lambda>e. fst e \<noteq> q) (sentPackets pm)"
      by (auto simp: AList.delete_eq intro!: filter_cong)
    have wf: "wf_pm ?m" using Cons.prems
      by (auto simp: wf_pm_def sp distinct_map_filter simp del: select_convs)
    have only: "e = (q, p)" if "e \<in> set (sentPackets pm)" "fst e = q \<or> snd e = p" for e
      by (rule wf_pm_unique [OF Cons.prems mem that])
    have t: "taken (q # qs) pm = insert p (taken qs ?m)" "p \<notin> taken qs ?m"
    proof -
      have "{e \<in> set (sentPackets pm). fst e \<in> set (q # qs)} =
          insert (q, p) {e \<in> set (sentPackets ?m). fst e \<in> set qs}"
      proof (rule set_eqI)
        fix e
        have "e \<in> set (sentPackets pm) \<Longrightarrow> fst e = q \<longleftrightarrow> e = (q, p)" using only [of e] by auto
        then show "e \<in> {e \<in> set (sentPackets pm). fst e \<in> set (q # qs)} \<longleftrightarrow>
            e \<in> insert (q, p) {e \<in> set (sentPackets ?m). fst e \<in> set qs}"
          unfolding sp using mem by (cases "e = (q, p)") (simp_all, blast)
      qed
      then show "taken (q # qs) pm = insert p (taken qs ?m)" by (simp only: taken_def image_insert snd_conv)
      show "p \<notin> taken qs ?m"
      proof
        assume "p \<in> taken qs ?m"
        then obtain e where "e \<in> set (sentPackets pm)" "fst e \<noteq> q" "snd e = p"
          unfolding taken_def sp by auto
        with only [of e] show False by simp
      qed
    qed
    have f: "filter (\<lambda>e. fst e \<notin> set qs) (sentPackets ?m) = filter (\<lambda>e. fst e \<notin> set (q # qs)) (sentPackets pm)"
      by (auto simp: sp intro!: filter_cong)
    have step: "fold take_seq (q # qs) (pm, acked) = fold take_seq qs (?m, acked @ [p])"
      by (simp add: take_seq_def Some)
    obtain pm' ak where r: "fold take_seq qs (?m, acked @ [p]) = (pm', ak)" by (cases "fold take_seq qs (?m, acked @ [p])")
    have c: "(\<lambda>x. if x \<in> taken qs ?m then (cells ?m x)\<lparr>IsAcked := True\<rparr> else cells ?m x)
        = (\<lambda>x. if x \<in> taken (q # qs) pm then (cells pm x)\<lparr>IsAcked := True\<rparr> else cells pm x)"
      unfolding t(1) using t(2) by (intro ext) simp
    have h: "pm' = ?m\<lparr>sentPackets := filter (\<lambda>e. fst e \<notin> set (q # qs)) (sentPackets pm),
          cells := (\<lambda>x. if x \<in> taken (q # qs) pm then (cells pm x)\<lparr>IsAcked := True\<rparr> else cells pm x)\<rparr>"
      "set ak = set (acked @ [p]) \<union> taken qs ?m"
      "distinct (acked @ [p]) \<Longrightarrow> set (acked @ [p]) \<inter> taken qs ?m = {} \<Longrightarrow> distinct ak"
      using Cons.IH [OF wf, of "acked @ [p]"] unfolding took_def r prod.case f c by blast+
    have "distinct ak" if "distinct acked" "set acked \<inter> taken (q # qs) pm = {}"
      using that t by (intro h(3)) auto
    moreover have "set ak = set acked \<union> taken (q # qs) pm" unfolding h(2) t(1) by simp
    ultimately show ?thesis unfolding took_def step r prod.case by (simp only: h(1)) simp
  qed
qed

lemma taken_iff: "wf_pm pm \<Longrightarrow> p \<in> taken qs pm \<longleftrightarrow> p \<in> tracked_ptrs pm \<and> sp_Sequence (cells pm p) \<in> set qs"
  unfolding taken_def tracked_ptrs_def by (force dest: wf_pm_seq)

text \<open>Keeping some of the entries and changing nothing but flags keeps the map well formed.\<close>

lemma wf_pm_filter:
  assumes "wf_pm pm" "sentPackets pm' = filter P (sentPackets pm)"
    "\<And>p. sp_Sequence (cells pm' p) = sp_Sequence (cells pm p)"
  shows "wf_pm pm'"
  using assms(1) unfolding wf_pm_def assms(2,3) by (auto intro: distinct_map_filter)

lemma tracked_filter:
  assumes "wf_pm pm" "sentPackets pm' = filter (\<lambda>e. P (fst e)) (sentPackets pm)"
  shows "tracked_ptrs pm' = {p \<in> tracked_ptrs pm. P (sp_Sequence (cells pm p))}"
  unfolding tracked_ptrs_def assms(2) using wf_pm_seq [OF assms(1)] by (force simp: image_iff)

lemma HandleAckFrame_spec:
  assumes "wf_pm pm" "HandleAckFrame now f pm = (pm', acked)"
  shows "set acked = {p \<in> tracked_ptrs pm. sp_Sequence (cells pm p) \<in> acked_seqs f}" "distinct acked"
    "tracked_ptrs pm' = tracked_ptrs pm - set acked" "wf_pm pm'"
    "cells pm' = (\<lambda>p. if p \<in> set acked then (cells pm p)\<lparr>IsAcked := True\<rparr> else cells pm p)"
    "nextSeq pm' = nextSeq pm"
    "pm_largestAcked pm' = (if acked = [] then pm_largestAcked pm
       else max (pm_largestAcked pm) (int (unat (LargestAcked f))))"
proof -
  obtain m a where r: "fold take_seq (frame_seqs f) (pm, []) = (m, a)" by fastforce
  have t: "took (frame_seqs f) pm [] (m, a)" using take_all [OF assms(1), of "frame_seqs f" "[]"] by (simp add: r)
  have a: "acked = a" "sentPackets pm' = sentPackets m" "cells pm' = cells m"
    using assms(2) unfolding HandleAckFrame_fold r by (auto simp: Let_def split: if_splits)
  have s: "sentPackets pm' = filter (\<lambda>e. fst e \<notin> acked_seqs f) (sentPackets pm)"
    using t by (simp add: took_def a set_frame_seqs)
  show acked: "set acked = {p \<in> tracked_ptrs pm. sp_Sequence (cells pm p) \<in> acked_seqs f}"
    using t taken_iff [OF assms(1)] by (auto simp: took_def a set_frame_seqs)
  show "distinct acked" using t by (simp add: took_def a)
  show c: "cells pm' = (\<lambda>p. if p \<in> set acked then (cells pm p)\<lparr>IsAcked := True\<rparr> else cells pm p)"
    using t by (simp add: took_def a)
  show "wf_pm pm'" by (rule wf_pm_filter [OF assms(1) s]) (simp add: c)
  show "tracked_ptrs pm' = tracked_ptrs pm - set acked" unfolding tracked_filter [OF assms(1) s] acked by auto
  show "nextSeq pm' = nextSeq pm"
    "pm_largestAcked pm' = (if acked = [] then pm_largestAcked pm
       else max (pm_largestAcked pm) (int (unat (LargestAcked f))))"
    using assms(2) t unfolding HandleAckFrame_fold r by (auto simp: Let_def took_def split: if_splits)
qed

section \<open>What loss detection declares\<close>

definition is_lost :: "time \<Rightarrow> duration \<Rightarrow> PacketManager \<Rightarrow> packet_ptr \<Rightarrow> bool" where
  "is_lost now delay pm p \<longleftrightarrow> int (unat (sp_Sequence (cells pm p))) \<le> pm_largestAcked pm
     \<and> (pm_largestAcked pm - int (unat (sp_Sequence (cells pm p))) \<ge> LossReorderThreshold
        \<or> SentTime (cells pm p) + delay \<le> now)"

definition waiting :: "PacketManager \<Rightarrow> packet_ptr set" where
  "waiting pm = {p \<in> tracked_ptrs pm. int (unat (sp_Sequence (cells pm p))) \<le> pm_largestAcked pm}"

definition next_due :: "duration \<Rightarrow> PacketManager \<Rightarrow> packet_ptr list \<Rightarrow> time \<Rightarrow> time" where
  "next_due delay pm ps t =
     fold (\<lambda>p t. if t = 0 \<or> SentTime (cells pm p) + delay < t then SentTime (cells pm p) + delay else t) ps t"

lemma detect_fold:
  assumes "\<forall>(q, p) \<in> set es. sp_Sequence (cells pm p) = q"
  shows "fold (detect_one now delay pm) es (lost, t) =
    (lost @ filter (is_lost now delay pm) (map snd es),
     next_due delay pm (filter (\<lambda>p. int (unat (sp_Sequence (cells pm p))) \<le> pm_largestAcked pm
        \<and> \<not> is_lost now delay pm p) (map snd es)) t)"
  using assms
  by (induction es arbitrary: lost t) (auto simp: detect_one_def is_lost_def next_due_def Let_def)

lemma next_due_min:
  assumes "\<forall>p \<in> set ps. 0 < SentTime (cells pm p) + delay" "0 \<le> t"
  shows "next_due delay pm ps t = 0 \<longleftrightarrow> ps = [] \<and> t = 0"
    and "ps \<noteq> [] \<Longrightarrow> t = 0 \<Longrightarrow> \<exists>p \<in> set ps. next_due delay pm ps t = SentTime (cells pm p) + delay"
    and "\<forall>p \<in> set ps. next_due delay pm ps t \<le> SentTime (cells pm p) + delay"
proof -
  have gen: "(next_due delay pm ps t = 0 \<longleftrightarrow> ps = [] \<and> t = 0)
      \<and> ((\<exists>p \<in> set ps. next_due delay pm ps t = SentTime (cells pm p) + delay) \<or> next_due delay pm ps t = t)
      \<and> (0 < t \<longrightarrow> next_due delay pm ps t \<le> t)
      \<and> (\<forall>p \<in> set ps. next_due delay pm ps t \<le> SentTime (cells pm p) + delay)"
    using assms
  proof (induction ps arbitrary: t)
    case (Cons p ps)
    let ?d = "SentTime (cells pm p) + delay"
    let ?t = "if t = 0 \<or> ?d < t then ?d else t"
    have "0 \<le> ?t" "0 < ?t" "?t \<le> ?d" "0 < t \<longrightarrow> ?t \<le> t" using Cons.prems by auto
    moreover have "next_due delay pm (p # ps) t = next_due delay pm ps ?t" by (simp add: next_due_def)
    ultimately show ?case using Cons.IH [of ?t] Cons.prems by auto
  qed (simp add: next_due_def)
  show "next_due delay pm ps t = 0 \<longleftrightarrow> ps = [] \<and> t = 0" using gen by blast
  show "\<exists>p \<in> set ps. next_due delay pm ps t = SentTime (cells pm p) + delay" if "ps \<noteq> []" "t = 0"
    using gen that by metis
  show "\<forall>p \<in> set ps. next_due delay pm ps t \<le> SentTime (cells pm p) + delay" using gen by blast
qed

lemma fold_delete: "fold (\<lambda>p. AList.delete (k p)) ps es = filter (\<lambda>e. fst e \<notin> k ` set ps) es"
  by (induction ps arbitrary: es) (auto simp: AList.delete_eq intro!: filter_cong)

lemma detect_spec:
  assumes "wf_pm pm" "0 \<le> pm_largestAcked pm" "detectLostLocked now cc pm = (pm', lost)"
  defines "W \<equiv> filter (\<lambda>p. int (unat (sp_Sequence (cells pm p))) \<le> pm_largestAcked pm
        \<and> \<not> is_lost now (lossDelay cc) pm p) (map snd (sentPackets pm))"
  shows "set lost = {p \<in> tracked_ptrs pm. is_lost now (lossDelay cc) pm p}"
    "sorted_wrt (\<lambda>a b. sp_Sequence (cells pm a) < sp_Sequence (cells pm b)) lost"
    "tracked_ptrs pm' = tracked_ptrs pm - set lost" "wf_pm pm'" "cells pm' = cells pm"
    "pm_largestAcked pm' = pm_largestAcked pm"
    "lossTimer pm' = (let t = next_due (lossDelay cc) pm W 0
       in if t \<noteq> 0 then Some (now + max LossTimerGranularity (time_sub t now)) else None)"
proof -
  let ?d = "lossDelay cc" and ?pm = "pm\<lparr>lossTimer := None\<rparr>"
  let ?l = "filter (is_lost now ?d pm) (map snd (sentPackets pm))"
  let ?k = "\<lambda>p. sp_Sequence (cells pm p)"
  have il: "is_lost now ?d ?pm = is_lost now ?d pm" by (simp add: is_lost_def fun_eq_iff)
  have nd: "next_due ?d ?pm = next_due ?d pm" by (intro ext) (simp add: next_due_def cong: if_cong)
  have "\<forall>(q, p) \<in> set (sentPackets pm). sp_Sequence (cells ?pm p) = q" using assms(1) by (simp add: wf_pm_def)
  from detect_fold [OF this, of now ?d "[]" 0]
  have f: "fold (detect_one now ?d ?pm) (sentPackets pm) ([], 0) = (?l, next_due ?d pm W 0)"
    by (simp add: W_def il nd)
  have res: "lost = sort_key ?k ?l" "sentPackets pm' = filter (\<lambda>e. fst e \<notin> ?k ` set ?l) (sentPackets pm)"
    "cells pm' = cells pm" "pm_largestAcked pm' = pm_largestAcked pm"
    "lossTimer pm' = (let t = next_due ?d pm W 0
       in if t \<noteq> 0 then Some (now + max LossTimerGranularity (time_sub t now)) else None)"
    using assms(2,3) by (auto simp: detectLostLocked_def Let_def f fold_delete max_def split: if_splits)
  show "cells pm' = cells pm" "pm_largestAcked pm' = pm_largestAcked pm" using res by simp_all
  show "lossTimer pm' = (let t = next_due ?d pm W 0
       in if t \<noteq> 0 then Some (now + max LossTimerGranularity (time_sub t now)) else None)" by (rule res(5))
  show l: "set lost = {p \<in> tracked_ptrs pm. is_lost now ?d pm p}" by (auto simp: res(1) tracked_ptrs_def)
  have inj: "inj_on ?k (tracked_ptrs pm)"
    using wf_pm_unique [OF assms(1)] tracked_iff [OF assms(1)] by (intro inj_onI) (metis fst_conv snd_conv)
  have "distinct ?l" using wf_pm_ptrs [OF assms(1)] by (rule distinct_filter)
  then have "distinct (map ?k lost)"
    unfolding distinct_map using inj l by (auto simp: res(1) intro: inj_on_subset)
  moreover have "sorted (map ?k lost)" unfolding res(1) by (rule sorted_sort_key)
  ultimately have "sorted_wrt (<) (map ?k lost)" by (simp add: strict_sorted_iff)
  then show "sorted_wrt (\<lambda>a b. ?k a < ?k b) lost" by (simp add: sorted_wrt_map)
  have ls: "set ?l = set lost" by (simp add: res(1))
  show "wf_pm pm'" by (rule wf_pm_filter [OF assms(1) res(2)]) (simp add: res(3))
  have "tracked_ptrs pm' = {p \<in> tracked_ptrs pm. ?k p \<notin> ?k ` set lost}"
    using tracked_filter [OF assms(1) res(2)] by (simp only: ls)
  also have "\<dots> = tracked_ptrs pm - set lost"
  proof -
    have "set lost \<subseteq> tracked_ptrs pm" unfolding l by blast
    then have "?k p \<in> ?k ` set lost \<longleftrightarrow> p \<in> set lost" if "p \<in> tracked_ptrs pm" for p
      using that by (intro inj_on_image_mem_iff [OF inj])
    then show ?thesis by blast
  qed
  finally show "tracked_ptrs pm' = tracked_ptrs pm - set lost" .
qed

lemma detect_timer:
  assumes "wf_pm pm" "0 \<le> pm_largestAcked pm" "detectLostLocked now cc pm = (pm', lost)" "waiting pm' \<noteq> {}"
    "\<forall>p \<in> tracked_ptrs pm. 0 < SentTime (cells pm p) \<and> SentTime (cells pm p) \<le> now" "lossDelay cc \<le> maxDuration"
  shows "\<exists>d p. lossTimer pm' = Some d \<and> now < d \<and> p \<in> waiting pm' \<and> SentTime (cells pm' p) + lossDelay cc \<le> d
    \<and> (\<forall>q \<in> waiting pm'. d \<le> max (now + LossTimerGranularity) (SentTime (cells pm' q) + lossDelay cc))"
proof -
  let ?d = "lossDelay cc"
  define W where "W = filter (\<lambda>p. int (unat (sp_Sequence (cells pm p))) \<le> pm_largestAcked pm
        \<and> \<not> is_lost now ?d pm p) (map snd (sentPackets pm))"
  note sp = detect_spec [OF assms(1-3)]
  have W: "set W = waiting pm'" using sp(1,3) by (auto simp: W_def waiting_def sp(5,6) tracked_ptrs_def)
  have dl: "0 < ?d" by (simp add: lossDelay_def Let_def)
  have "set W \<subseteq> tracked_ptrs pm" by (auto simp: W_def tracked_ptrs_def)
  then have pos: "\<forall>p \<in> set W. 0 < SentTime (cells pm p) + ?d" using assms(5) dl by (auto intro: add_pos_pos)
  have ne: "W \<noteq> []" using W assms(4) by auto
  let ?t = "next_due ?d pm W 0"
  note nd = next_due_min [OF pos, of 0]
  have t0: "?t \<noteq> 0" using nd(1) ne by simp
  obtain p where p: "p \<in> set W" "?t = SentTime (cells pm p) + ?d" using nd(2) ne by auto
  have "p \<in> tracked_ptrs pm" "now < ?t" using p by (auto simp: W_def tracked_ptrs_def is_lost_def)
  then have ts: "time_sub ?t now = ?t - now" using assms(5,6) p(2) by (intro time_sub_exact) auto
  have tm: "lossTimer pm' = Some (now + max LossTimerGranularity (?t - now))"
    using sp(7) t0 unfolding W_def [symmetric] Let_def ts by (simp only: if_True simp_thms)
  let ?e = "now + max LossTimerGranularity (?t - now)"
  have "\<forall>q \<in> waiting pm'. ?e \<le> max (now + LossTimerGranularity) (SentTime (cells pm' q) + ?d)"
    using nd(3) by (auto simp: W [symmetric] sp(5))
  moreover have "p \<in> waiting pm'" "SentTime (cells pm' p) + ?d \<le> ?e" "now < ?e"
    using p W by (auto simp: sp(5))
  ultimately show ?thesis using tm by blast
qed

section \<open>Tracking\<close>

lemma wf_pm_map:
  "wf_pm pm \<longleftrightarrow> distinct (map fst (sentPackets pm))
     \<and> (\<forall>q p. map_of (sentPackets pm) q = Some p \<longrightarrow> sp_Sequence (cells pm p) = q)"
  by (auto simp: wf_pm_def map_of_eq_Some_iff)

lemma tracked_map: "wf_pm pm \<Longrightarrow> tracked_ptrs pm = ran (map_of (sentPackets pm))"
  by (simp add: tracked_ptrs_def wf_pm_keys ran_distinct)

lemma wf_SendPacket: "wf_pm pm \<Longrightarrow> wf_pm (SendPacket now p pm)"
  by (auto simp: wf_pm_map SendPacket_def Let_def update_conv distinct_update split: if_splits)

lemma wf_untrack: "wf_pm pm \<Longrightarrow> wf_pm (untrack p pm)"
proof -
  assume wf: "wf_pm pm"
  have "sentPackets (pm\<lparr>sentPackets := AList.delete k (sentPackets pm)\<rparr>) = filter (\<lambda>(k', _). k \<noteq> k') (sentPackets pm)" for k
    by (simp add: AList.delete_eq)
  from wf_pm_filter [OF wf this] wf show ?thesis by (simp add: untrack_def)
qed

lemma tracked_untrack: "wf_pm pm \<Longrightarrow> tracked_ptrs (untrack p pm) = tracked_ptrs pm - {p}"
proof (cases "map_of (sentPackets pm) (sp_Sequence (cells pm p)) = Some p")
  case True
  assume wf: "wf_pm pm"
  have "sentPackets (untrack p pm) = filter (\<lambda>e. fst e \<noteq> sp_Sequence (cells pm p)) (sentPackets pm)"
    using True by (auto simp: untrack_def AList.delete_eq intro!: filter_cong)
  note t = tracked_filter [OF wf this]
  have "r = p" if "r \<in> tracked_ptrs pm" "sp_Sequence (cells pm r) = sp_Sequence (cells pm p)" for r
    using that True wf_pm_lookup [OF wf, of "sp_Sequence (cells pm p)" r] by simp
  then show ?thesis unfolding t by blast
next
  case False
  assume wf: "wf_pm pm"
  show ?thesis using False wf_pm_lookup [OF wf, of "sp_Sequence (cells pm p)" p] by (auto simp: untrack_def)
qed

lemma untrack_fields [simp]: "cells (untrack p pm) = cells pm" "nextSeq (untrack p pm) = nextSeq pm"
  by (simp_all add: untrack_def)

lemma untracked_lookup:
  "wf_pm pm \<Longrightarrow> map_of (sentPackets (untrack p pm)) q \<noteq> Some p"
  using wf_pm_lookup [OF wf_untrack, of pm p q p] tracked_untrack [of pm p] by auto

lemma Resend_spec:
  assumes "wf_pm pm" "\<not> IsAcked (cells pm p)" "\<not> Probe (cells pm p)"
    "\<forall>r \<in> tracked_ptrs pm. sp_Sequence (cells pm r) \<noteq> nextSeq pm"
    "Resend now p pm = (pm', r)"
  shows "r = Some (nextSeq pm)" "wf_pm pm'" "tracked_ptrs pm' = insert p (tracked_ptrs pm)"
    "sp_Sequence (cells pm' p) = nextSeq pm" "sp_Frames (cells pm' p) = sp_Frames (cells pm p)"
    "\<forall>a. a \<noteq> p \<longrightarrow> cells pm' a = cells pm a" "nextSeq pm' = nextSeq pm + 1"
proof -
  let ?u = "untrack p pm"
  have u: "wf_pm ?u" "tracked_ptrs ?u = tracked_ptrs pm - {p}"
    using wf_untrack tracked_untrack assms(1) by auto
  have res: "r = Some (nextSeq pm)" "sentPackets pm' = AList.update (nextSeq pm) p (sentPackets ?u)"
    "sp_Sequence (cells pm' p) = nextSeq pm" "sp_Frames (cells pm' p) = sp_Frames (cells pm p)"
    "\<forall>a. a \<noteq> p \<longrightarrow> cells pm' a = cells pm a" "nextSeq pm' = nextSeq pm + 1"
    using assms(2,3,5) by (auto simp: Resend_def Let_def)
  have m: "map_of (sentPackets pm') = (map_of (sentPackets ?u))(nextSeq pm \<mapsto> p)"
    by (simp add: res(2) update_conv')
  have "sp_Sequence (cells pm' a) = q" if "map_of (sentPackets pm') q = Some a" for q a
    using that u(1) untracked_lookup [OF assms(1), of p q] res(3,5)
    by (auto simp: m wf_pm_map split: if_splits)
  then show wf: "wf_pm pm'" using u(1) by (simp add: wf_pm_map res(2) distinct_update)
  have none: "map_of (sentPackets ?u) (nextSeq pm) = None"
  proof (rule ccontr)
    assume "map_of (sentPackets ?u) (nextSeq pm) \<noteq> None"
    then obtain a where "map_of (sentPackets ?u) (nextSeq pm) = Some a" by blast
    then show False using wf_pm_lookup [OF u(1)] u(2) assms(4) by auto
  qed
  show "tracked_ptrs pm' = insert p (tracked_ptrs pm)"
  proof -
    have "tracked_ptrs pm' = insert p (ran (map_of (sentPackets ?u)))"
      unfolding tracked_map [OF wf] m by (rule ran_map_upd) (rule none)
    then show ?thesis using u(2) unfolding tracked_map [OF u(1), symmetric] by blast
  qed
qed (use assms(2,3,5) in \<open>auto simp: Resend_def Let_def\<close>)

section \<open>Runs of the manager\<close>

inductive pm_step :: "PacketManager \<Rightarrow> PacketManager \<Rightarrow> bool" where
  step_seq: "pm_step pm (snd (NextSequence pm))"
| step_send: "\<not> IsAcked (cells pm p) \<Longrightarrow> pm_step pm (SendPacket now p pm)"
| step_ack: "pm_step pm (fst (HandleAckFrame now f pm))"
| step_detect: "pm_step pm (fst (DetectLostPackets now cc pm))"
| step_timer: "pm_step pm (fst (onLossTimer now cc pm))"
| step_resend: "pm_step pm (fst (Resend now p pm))"
| step_drop: "pm_step pm (Drop p pm)"
| step_destroy: "pm_step pm (PM_Destroy pm)"

definition pm_inv :: "PacketManager \<Rightarrow> bool" where
  "pm_inv pm \<longleftrightarrow> wf_pm pm \<and> (\<forall>p \<in> tracked_ptrs pm. \<not> IsAcked (cells pm p))"

lemma pm_inv_cong:
  "sentPackets pm' = sentPackets pm \<Longrightarrow> cells pm' = cells pm \<Longrightarrow> pm_inv pm' \<longleftrightarrow> pm_inv pm"
  by (simp add: pm_inv_def wf_pm_def tracked_ptrs_def)

lemma pm_inv_send: "pm_inv pm \<Longrightarrow> \<not> IsAcked (cells pm p) \<Longrightarrow> pm_inv (SendPacket now p pm)"
proof -
  assume a: "pm_inv pm" "\<not> IsAcked (cells pm p)"
  have "snd ` set (AList.update k p es) \<subseteq> insert p (snd ` set es)" for k es
    by (induction es) auto
  moreover have "IsAcked (cells (SendPacket now p pm) r) = IsAcked (cells pm r)" for r
    by (simp add: SendPacket_def Let_def)
  ultimately show ?thesis using a wf_SendPacket [of pm now p]
    unfolding pm_inv_def tracked_ptrs_def by (fastforce simp: SendPacket_def Let_def)
qed

lemma pm_inv_ack: "pm_inv pm \<Longrightarrow> pm_inv (fst (HandleAckFrame now f pm))"
proof -
  assume a: "pm_inv pm"
  obtain pm' acked where r: "HandleAckFrame now f pm = (pm', acked)" by fastforce
  have "wf_pm pm" using a by (simp add: pm_inv_def)
  from HandleAckFrame_spec [OF this r] a show ?thesis by (auto simp: pm_inv_def r)
qed

lemma pm_inv_detect: "pm_inv pm \<Longrightarrow> pm_inv (fst (detectLostLocked now cc pm))"
proof (cases "pm_largestAcked pm < 0")
  case True
  then show "pm_inv pm \<Longrightarrow> ?thesis"
    by (simp add: detectLostLocked_def) (subst pm_inv_cong [of _ pm], simp_all)
next
  case False
  assume a: "pm_inv pm"
  obtain pm' lost where r: "detectLostLocked now cc pm = (pm', lost)" by fastforce
  have "wf_pm pm" "0 \<le> pm_largestAcked pm" using a False by (simp_all add: pm_inv_def)
  from detect_spec [OF this r] a show ?thesis by (auto simp: pm_inv_def r)
qed

lemma pm_inv_untrack: "pm_inv pm \<Longrightarrow> pm_inv (untrack p pm)"
  by (simp add: pm_inv_def wf_untrack tracked_untrack)

lemma pm_inv_resend: "pm_inv pm \<Longrightarrow> pm_inv (fst (Resend now p pm))"
proof (cases "IsAcked (cells pm p) \<or> Probe (cells pm p)")
  case False
  assume a: "pm_inv pm"
  let ?u = "untrack p pm" and ?n = "nextSeq pm"
  define pkt where "pkt = (let c = cells pm p in c\<lparr>sp_Sequence := ?n, RetransmitCount := RetransmitCount c + 1,
      LastRetransmit := now\<rparr>)"
  let ?v = "?u\<lparr>nextSeq := ?n + 1, cells := (cells ?u)(p := pkt)\<rparr>"
  have u: "wf_pm ?u" "p \<notin> tracked_ptrs ?u" "\<forall>r \<in> tracked_ptrs ?u. \<not> IsAcked (cells ?u r)"
    using pm_inv_untrack [OF a, of p] tracked_untrack [of pm p] a by (auto simp: pm_inv_def)
  have "(q, p) \<notin> set (sentPackets ?u)" for q using u(2) by (force simp: tracked_ptrs_def)
  then have "wf_pm ?v" using u(1) unfolding wf_pm_def by auto
  moreover have "\<not> IsAcked (cells ?v r)" if "r \<in> tracked_ptrs ?v" for r
    using that u False by (auto simp: tracked_ptrs_def pkt_def Let_def)
  ultimately have "pm_inv (SendPacket now p ?v)"
    using False by (intro pm_inv_send) (auto simp: pm_inv_def pkt_def Let_def)
  moreover have "sentPackets (fst (Resend now p pm)) = sentPackets (SendPacket now p ?v)"
    "cells (fst (Resend now p pm)) = cells (SendPacket now p ?v)"
    using False by (simp_all add: Resend_def SendPacket_def Let_def pkt_def)
  ultimately show ?thesis using pm_inv_cong by blast
qed (simp add: Resend_def)

lemma pm_inv_step: "pm_step pm pm' \<Longrightarrow> pm_inv pm \<Longrightarrow> pm_inv pm'"
proof (induction rule: pm_step.induct)
  case (step_timer pm now cc)
  have "pm_inv (pm\<lparr>ackBeforeLoss := lastAckTime pm\<rparr>)"
    using step_timer by (subst pm_inv_cong [of _ pm]) simp_all
  then show ?case unfolding onLossTimer_def by (rule pm_inv_detect)
next
  case (step_seq pm)
  then show ?case by (subst pm_inv_cong [of _ pm]) (simp_all add: NextSequence_def)
next
  case (step_destroy pm)
  then show ?case by (simp add: pm_inv_def wf_pm_def tracked_ptrs_def PM_Destroy_def)
qed (simp_all add: pm_inv_send pm_inv_ack pm_inv_detect pm_inv_resend pm_inv_untrack DetectLostPackets_def Drop_def)

lemma pm_inv_new: "pm_inv (NewPacketManager mem)"
  by (simp add: pm_inv_def wf_pm_new) (simp add: tracked_ptrs_def NewPacketManager_def)

interpretation pm_run: preserved pm_step pm_inv
  by unfold_locales (rule pm_inv_step)

lemma pm_inv_run: "pm_step\<^sup>*\<^sup>* (NewPacketManager mem) pm \<Longrightarrow> pm_inv pm"
  using pm_run.run pm_inv_new by blast

section \<open>Properties\<close>

text \<open>Five packets sent at time 10, for the concrete instances.\<close>

definition sample_packet :: "uint32 \<Rightarrow> SentPacket" where
  "sample_packet q = \<lparr>sp_Sequence = q, SentTime = 0, FirstSentTime = 0, sp_Size = 1200, IsAcked = False,
     sp_Frames = [], sp_DestinationStreamID = 1, sp_SourceStreamID = 2, RetransmitCount = 0,
     Probe = False, LastRetransmit = 0\<rparr>"

definition sample_pm :: PacketManager where
  "sample_pm = fold (SendPacket 10) [0, 1, 2, 3, 4] (NewPacketManager (\<lambda>p. sample_packet (of_nat p)))"

lemma sample_pm_fields:
  "sentPackets sample_pm = [(0, 0), (1, 1), (2, 2), (3, 3), (4, 4)]"
  "nextSeq sample_pm = 0" "pm_largestAcked sample_pm = -1"
  "sp_Sequence (cells sample_pm p) = of_nat p"
  "SentTime (cells sample_pm p) = (if p \<in> {0, 1, 2, 3, 4} then 10 else 0)"
  "IsAcked (cells sample_pm p) = False" "Probe (cells sample_pm p) = False"
  by (simp_all add: sample_pm_def NewPacketManager_def SendPacket_def Let_def sample_packet_def)

lemma lossDelay_new: "lossDelay NewCongestionController = 374625000"
  by (simp add: lossDelay_def NewCongestionController_def Let_def go_div_def)

lemma sample_pm_wf: "wf_pm sample_pm"
  unfolding sample_pm_def by (simp add: wf_SendPacket wf_pm_new)

lemma sample_pm_tracked: "tracked_ptrs sample_pm = {0, 1, 2, 3, 4}"
  by (simp add: tracked_ptrs_def sample_pm_fields)

text \<open>
  C29. However the operations follow one another, a tracked packet is tracked under its current
  number and no other, and it is not an acknowledged one: an acknowledged packet is never
  probed, declared lost or sent again.
\<close>

theorem tracked_under_current_number:
  assumes "pm_step\<^sup>*\<^sup>* (NewPacketManager mem) pm"
  shows "(GetPacket q pm = Some p \<longleftrightarrow> p \<in> tracked_ptrs pm \<and> sp_Sequence (cells pm p) = q)
    \<and> (p \<in> tracked_ptrs pm \<longrightarrow> \<not> IsAcked (cells pm p))"
  using pm_inv_run [OF assms] wf_pm_lookup by (auto simp: pm_inv_def GetPacket_def)

theorem tracked_under_current_number_witness:
  "GetPacket 0 (SendPacket 10 7 (NewPacketManager (\<lambda>_. sample_packet 0))) = Some 7
   \<and> \<not> IsAcked (cells (SendPacket 10 7 (NewPacketManager (\<lambda>_. sample_packet 0))) 7)"
proof -
  let ?n = "NewPacketManager (\<lambda>_. sample_packet 0)"
  have "pm_step\<^sup>*\<^sup>* ?n (SendPacket 10 7 ?n)"
    by (rule r_into_rtranclp, rule step_send) (simp add: NewPacketManager_def sample_packet_def)
  from tracked_under_current_number [OF this, of 0 7] show ?thesis
    by (simp add: tracked_ptrs_def SendPacket_def NewPacketManager_def sample_packet_def Let_def)
qed

text \<open>
  An ACK frame takes exactly the tracked packets whose numbers it names, each once, and marks
  them acknowledged; every other packet stays tracked as it was.
\<close>

lemma ack_takes_exactly:
  assumes "wf_pm pm" and "HandleAckFrame now f pm = (pm', acked)"
  shows "set acked = {p \<in> tracked_ptrs pm. sp_Sequence (cells pm p) \<in> acked_seqs f} \<and> distinct acked
    \<and> tracked_ptrs pm' = tracked_ptrs pm - set acked \<and> wf_pm pm'
    \<and> (\<forall>p. cells pm' p = (if p \<in> set acked then (cells pm p)\<lparr>IsAcked := True\<rparr> else cells pm p))"
  using HandleAckFrame_spec [OF assms] by simp

text \<open>
  C14. Loss detection declares lost exactly the tracked packets at or below the largest
  acknowledged that are three or more behind it or older than the loss delay, in the order of
  their numbers, and stops tracking exactly those.
\<close>

theorem loss_declared_exactly:
  assumes "wf_pm pm" and "0 \<le> pm_largestAcked pm" and "DetectLostPackets now cc pm = (pm', lost)"
  shows "set lost = {p \<in> tracked_ptrs pm. is_lost now (lossDelay cc) pm p}
    \<and> sorted_wrt (\<lambda>a b. sp_Sequence (cells pm a) < sp_Sequence (cells pm b)) lost
    \<and> tracked_ptrs pm' = tracked_ptrs pm - set lost \<and> wf_pm pm'"
  using detect_spec [OF assms(1,2) assms(3) [unfolded DetectLostPackets_def]] by simp

theorem loss_declared_exactly_witness:
  "set (snd (DetectLostPackets 20 NewCongestionController (sample_pm\<lparr>pm_largestAcked := 4\<rparr>))) = {0, 1}"
proof -
  let ?pm = "sample_pm\<lparr>pm_largestAcked := 4\<rparr>" and ?cc = NewCongestionController
  have wf: "wf_pm ?pm" using sample_pm_wf by (simp add: wf_pm_def)
  have t: "tracked_ptrs ?pm = {0, 1, 2, 3, 4}" using sample_pm_tracked by (simp add: tracked_ptrs_def)
  have "0 \<le> pm_largestAcked ?pm" by simp
  from loss_declared_exactly [OF wf this prod.collapse [symmetric], of 20 ?cc]
  have "set (snd (DetectLostPackets 20 ?cc ?pm)) = {p \<in> {0, 1, 2, 3, 4}. is_lost 20 (lossDelay ?cc) ?pm p}"
    unfolding t by blast
  moreover have "is_lost 20 (lossDelay ?cc) ?pm p \<longleftrightarrow> p \<in> {0, 1}" if "p \<in> {0, 1, 2, 3, 4}" for p
    using that by (elim insertE emptyE) (simp_all add: is_lost_def sample_pm_fields lossDelay_new)
  ultimately show ?thesis by blast
qed

text \<open>
  C30. A packet below the largest acknowledged never waits for ever: while one is left waiting the
  loss timer is armed, no later than a granule or the due time of any of them, and whenever it
  fires it declares a waiting packet lost.
\<close>

theorem loss_timer_makes_progress:
  assumes "wf_pm pm" and "0 \<le> pm_largestAcked pm" and "DetectLostPackets now cc pm = (pm', lost)"
    and "waiting pm' \<noteq> {}" and "lossDelay cc \<le> maxDuration"
    and "\<forall>p \<in> tracked_ptrs pm. 0 < SentTime (cells pm p) \<and> SentTime (cells pm p) \<le> now"
  shows "\<exists>d. lossTimer pm' = Some d
    \<and> (\<forall>q \<in> waiting pm'. d \<le> max (now + LossTimerGranularity) (SentTime (cells pm' q) + lossDelay cc))
    \<and> (\<forall>t \<ge> d. \<exists>p \<in> waiting pm'. p \<in> set (snd (onLossTimer t cc pm')))"
proof -
  note det = assms(3) [unfolded DetectLostPackets_def]
  note sp = detect_spec [OF assms(1,2) det]
  obtain d p where d: "lossTimer pm' = Some d" "p \<in> waiting pm'" "SentTime (cells pm' p) + lossDelay cc \<le> d"
    "\<forall>q \<in> waiting pm'. d \<le> max (now + LossTimerGranularity) (SentTime (cells pm' q) + lossDelay cc)"
    using detect_timer [OF assms(1,2) det assms(4,6,5)] by blast
  have "p \<in> set (snd (onLossTimer t cc pm'))" if "t \<ge> d" for t
  proof -
    let ?m = "pm'\<lparr>ackBeforeLoss := lastAckTime pm'\<rparr>"
    obtain m l where r: "detectLostLocked t cc ?m = (m, l)" by fastforce
    have m: "wf_pm ?m" "0 \<le> pm_largestAcked ?m" "tracked_ptrs ?m = tracked_ptrs pm'"
      using sp(4,6) assms(2) by (simp_all add: wf_pm_def tracked_ptrs_def)
    have "is_lost t (lossDelay cc) ?m p" using d(2,3) that by (simp add: is_lost_def waiting_def)
    then have "p \<in> set l" using detect_spec(1) [OF m(1,2) r] d(2) m(3) by (simp add: waiting_def)
    then show ?thesis by (simp add: onLossTimer_def r)
  qed
  then show ?thesis using d by blast
qed

theorem loss_timer_makes_progress_witness:
  "\<exists>d. lossTimer (fst (DetectLostPackets 20 NewCongestionController (sample_pm\<lparr>pm_largestAcked := 4\<rparr>))) = Some d"
proof -
  let ?pm = "sample_pm\<lparr>pm_largestAcked := 4\<rparr>" and ?cc = NewCongestionController
  obtain pm' lost where r: "DetectLostPackets 20 ?cc ?pm = (pm', lost)" by fastforce
  have wf: "wf_pm ?pm" using sample_pm_wf by (simp add: wf_pm_def)
  have t: "tracked_ptrs ?pm = {0, 1, 2, 3, 4}" using sample_pm_tracked by (simp add: tracked_ptrs_def)
  note l = lossDelay_new
  have z: "0 \<le> pm_largestAcked ?pm" by simp
  note sp = detect_spec [OF wf z r [unfolded DetectLostPackets_def]]
  have "\<not> is_lost 20 (lossDelay ?cc) ?pm 4" by (simp add: is_lost_def sample_pm_fields l)
  then have "4 \<in> waiting pm'" by (simp add: waiting_def sp(1,3,5,6) t sample_pm_fields)
  then have w: "waiting pm' \<noteq> {}" by blast
  have s: "\<forall>p \<in> tracked_ptrs ?pm. 0 < SentTime (cells ?pm p) \<and> SentTime (cells ?pm p) \<le> 20"
    by (simp add: t sample_pm_fields)
  have "lossDelay ?cc \<le> maxDuration" by (simp add: l maxDuration_def)
  from loss_timer_makes_progress [OF wf z r w this s] show ?thesis by (auto simp: r)
qed

text \<open>
  Sending a packet again gives it the next number, under which alone it is tracked from then
  on, with the same frames; no other packet is touched or lost from tracking.
\<close>

lemma resend_takes_fresh_number:
  assumes "wf_pm pm" and "\<not> IsAcked (cells pm p)" and "\<not> Probe (cells pm p)"
    and "\<forall>r \<in> tracked_ptrs pm. sp_Sequence (cells pm r) \<noteq> nextSeq pm" and "Resend now p pm = (pm', r)"
  shows "r = Some (nextSeq pm) \<and> wf_pm pm' \<and> tracked_ptrs pm' = insert p (tracked_ptrs pm)
    \<and> (\<forall>q. GetPacket q pm' = Some p \<longleftrightarrow> q = nextSeq pm)
    \<and> sp_Frames (cells pm' p) = sp_Frames (cells pm p) \<and> (\<forall>a. a \<noteq> p \<longrightarrow> cells pm' a = cells pm a)"
  using Resend_spec [OF assms] wf_pm_lookup [of pm'] by (auto simp: GetPacket_def)

end
