(* ===== verification/Udx_Flow_Control.thy ===== *)
theory Udx_Flow_Control
  imports Udx_Constants
begin

text \<open>
  Flow control (\<^verbatim>\<open>flow_control.go\<close>): the connection-level accounting, the per-stream controller
  with absolute byte offsets, and the reconstruction of a 64-bit offset from the 32 bits a
  WINDOW_UPDATE carries. The two ends of a stream and the updates between them form a step
  relation, whose invariant is that the sender never passes the receiver's limit and the
  receiver never buffers more than its window. Byte counts are unbounded integers.
\<close>

section \<open>Connection level\<close>

record FlowController =
  connMaxData :: int
  connDataSent :: int
  connDataRecvd :: int
  connRecvWindow :: int
  connBlocked :: bool

definition NewFlowController :: "int \<Rightarrow> int \<Rightarrow> FlowController" where
  "NewFlowController initialMaxData initialRecvWindow =
     \<lparr>connMaxData = initialMaxData, connDataSent = 0, connDataRecvd = 0,
      connRecvWindow = initialRecvWindow, connBlocked = False\<rparr>"

definition CanSendConn :: "FlowController \<Rightarrow> int \<Rightarrow> bool" where
  "CanSendConn fc n \<longleftrightarrow> connDataSent fc + n \<le> connMaxData fc"

definition Conn_OnDataSent :: "int \<Rightarrow> FlowController \<Rightarrow> FlowController" where
  "Conn_OnDataSent n fc =
     (let fc = fc\<lparr>connDataSent := connDataSent fc + n\<rparr>
      in fc\<lparr>connBlocked := connDataSent fc \<ge> connMaxData fc\<rparr>)"

definition Conn_OnDataReceived :: "int \<Rightarrow> FlowController \<Rightarrow> FlowController \<times> bool" where
  "Conn_OnDataReceived n fc =
     (let fc = fc\<lparr>connDataRecvd := connDataRecvd fc + n\<rparr>
      in (fc, connDataRecvd fc > go_div (connRecvWindow fc) 4))"

definition UpdateMaxData :: "int \<Rightarrow> FlowController \<Rightarrow> FlowController" where
  "UpdateMaxData maxData fc =
     (if maxData > connMaxData fc then fc\<lparr>connMaxData := maxData, connBlocked := False\<rparr> else fc)"

definition IsConnBlocked :: "FlowController \<Rightarrow> bool" where
  "IsConnBlocked fc = connBlocked fc"

definition ResetReceived :: "FlowController \<Rightarrow> FlowController" where
  "ResetReceived fc = fc\<lparr>connDataRecvd := 0\<rparr>"

definition ConnMaxData :: "FlowController \<Rightarrow> int" where
  "ConnMaxData fc = connMaxData fc"

section \<open>Offsets modulo 2^32\<close>

definition windowOffsetModulus :: int where
  "windowOffsetModulus = push_bit 32 1"

definition absInt64 :: "int \<Rightarrow> int" where
  "absInt64 v = (if v < 0 then - v else v)"

definition nearer :: "int \<Rightarrow> int \<Rightarrow> int \<Rightarrow> int" where
  "nearer reference best cand =
     (if absInt64 (cand - reference) < absInt64 (best - reference) then cand else best)"

definition reconstructWindowOffset :: "uint32 \<Rightarrow> int \<Rightarrow> int" where
  "reconstructWindowOffset wire reference =
     (let base = reference AND NOT (windowOffsetModulus - 1);
          best = base + uint wire
      in foldl (nearer reference) best [best - windowOffsetModulus, best + windowOffsetModulus])"

section \<open>Stream level\<close>

record StreamFlowController =
  maxStreamData :: int
  dataSent :: int
  blocked :: bool
  dataRecvd :: int
  dataConsumed :: int
  recvWindow :: int
  lastAdvertised :: int

definition NewStreamFlowController :: "int \<Rightarrow> int \<Rightarrow> StreamFlowController" where
  "NewStreamFlowController initialMaxStreamData window =
     \<lparr>maxStreamData = initialMaxStreamData, dataSent = 0, blocked = False, dataRecvd = 0,
      dataConsumed = 0, recvWindow = window, lastAdvertised = window\<rparr>"

definition CanSend :: "StreamFlowController \<Rightarrow> int \<Rightarrow> bool" where
  "CanSend sfc n \<longleftrightarrow> dataSent sfc + n \<le> maxStreamData sfc"

definition SendWindowAvailable :: "StreamFlowController \<Rightarrow> int" where
  "SendWindowAvailable sfc =
     (let avail = maxStreamData sfc - dataSent sfc in if avail < 0 then 0 else avail)"

definition SendLimit :: "StreamFlowController \<Rightarrow> int" where
  "SendLimit sfc = maxStreamData sfc"

definition Stream_OnDataSent :: "int \<Rightarrow> StreamFlowController \<Rightarrow> StreamFlowController" where
  "Stream_OnDataSent n sfc =
     (let sfc = sfc\<lparr>dataSent := dataSent sfc + n\<rparr>
      in sfc\<lparr>blocked := dataSent sfc \<ge> maxStreamData sfc\<rparr>)"

definition UpdateMaxStreamData :: "int \<Rightarrow> StreamFlowController \<Rightarrow> StreamFlowController \<times> bool" where
  "UpdateMaxStreamData m sfc =
     (if m \<le> maxStreamData sfc then (sfc, False)
      else let sfc = sfc\<lparr>maxStreamData := m\<rparr>
           in (sfc\<lparr>blocked := dataSent sfc \<ge> maxStreamData sfc\<rparr>, True))"

definition ApplyWindowUpdate :: "uint32 \<Rightarrow> StreamFlowController \<Rightarrow> StreamFlowController \<times> bool" where
  "ApplyWindowUpdate wire sfc =
     UpdateMaxStreamData (reconstructWindowOffset wire (maxStreamData sfc)) sfc"

definition IsBlocked :: "StreamFlowController \<Rightarrow> bool" where
  "IsBlocked sfc = blocked sfc"

definition Stream_OnDataReceived :: "int \<Rightarrow> StreamFlowController \<Rightarrow> StreamFlowController" where
  "Stream_OnDataReceived n sfc = sfc\<lparr>dataRecvd := dataRecvd sfc + n\<rparr>"

definition OnDataConsumed :: "int \<Rightarrow> StreamFlowController \<Rightarrow> StreamFlowController \<times> bool" where
  "OnDataConsumed n sfc =
     (let sfc = sfc\<lparr>dataConsumed := dataConsumed sfc + n\<rparr>;
          remaining = lastAdvertised sfc - dataConsumed sfc
      in (sfc, remaining < go_div (recvWindow sfc) 2))"

definition advertiseLocked :: "StreamFlowController \<Rightarrow> StreamFlowController \<times> int" where
  "advertiseLocked sfc =
     (let limit = dataConsumed sfc + recvWindow sfc;
          sfc = (if limit > lastAdvertised sfc then sfc\<lparr>lastAdvertised := limit\<rparr> else sfc)
      in (sfc, lastAdvertised sfc))"

definition AdvertiseLimit :: "StreamFlowController \<Rightarrow> StreamFlowController \<times> int" where
  "AdvertiseLimit sfc =
     advertiseLocked
       (if recvWindow sfc < MaxStreamRecvWindow
        then let sfc = sfc\<lparr>recvWindow := recvWindow sfc * 2\<rparr>
             in if recvWindow sfc > MaxStreamRecvWindow
                then sfc\<lparr>recvWindow := MaxStreamRecvWindow\<rparr> else sfc
        else sfc)"

definition RefreshLimit :: "StreamFlowController \<Rightarrow> StreamFlowController \<times> int" where
  "RefreshLimit sfc = advertiseLocked sfc"

definition AdvertisedLimit :: "StreamFlowController \<Rightarrow> int" where
  "AdvertisedLimit sfc = lastAdvertised sfc"

definition RecvWindow :: "StreamFlowController \<Rightarrow> int" where
  "RecvWindow sfc = recvWindow sfc"

definition BufferedBytes :: "StreamFlowController \<Rightarrow> int" where
  "BufferedBytes sfc = dataRecvd sfc - dataConsumed sfc"

section \<open>The offset survives the wire\<close>

lemma windowOffsetModulus_eq: "windowOffsetModulus = 2 ^ 32"
  by (simp add: windowOffsetModulus_def)

lemma clear_low_bits: "r AND NOT (2 ^ n - 1) = r - r mod 2 ^ n" for r :: int
proof -
  have "r AND NOT (mask n) = push_bit n (drop_bit n r)"
    by (rule bit_eqI) (auto simp: bit_simps)
  moreover have "push_bit n (drop_bit n r) + take_bit n r = r" by (rule bits_ident)
  ultimately show ?thesis by (simp add: mask_eq_exp_minus_1 take_bit_eq_mod)
qed

lemma near_multiple:
  fixes M K q c :: int
  assumes "- M < c" "c < M" "M = 2 * K" "- K < q * M + c" "q * M + c < K"
  shows "q = 0 \<or> q = 1 \<or> q = - 1"
proof -
  have "q < 2"
  proof (rule ccontr)
    assume "\<not> q < 2"
    then have "2 * M \<le> q * M" using assms by (intro mult_right_mono) auto
    then show False using assms by linarith
  qed
  moreover have "- 2 < q"
  proof (rule ccontr)
    assume "\<not> - 2 < q"
    then have "q * M \<le> - 2 * M" using assms by (intro mult_right_mono) auto
    then show False using assms by linarith
  qed
  ultimately show ?thesis by linarith
qed

lemma nearest_candidate:
  fixes M K q best reference :: int
  assumes "- M < best - reference" "best - reference < M" "M = 2 * K"
    and "- K < q * M + (best - reference)" "q * M + (best - reference) < K"
  shows "foldl (nearer reference) best [best - M, best + M] = best + q * M"
proof -
  have "q = 0 \<or> q = 1 \<or> q = - 1" using near_multiple [OF assms] .
  then show ?thesis
    by (elim disjE) (use assms in \<open>simp_all add: nearer_def absInt64_def\<close>)
qed

lemma reconstruct_near:
  assumes "\<bar>offset - reference\<bar> < 2 ^ 31"
  shows "reconstructWindowOffset (word_of_int offset) reference = offset"
proof -
  let ?M = "2 ^ 32 :: int"
  let ?best = "reference - reference mod ?M + offset mod ?M"
  let ?q = "offset div ?M - reference div ?M"
  have d: "?best + ?q * ?M = offset"
    by (simp add: algebra_simps minus_mod_eq_mult_div [symmetric])
  have "0 \<le> offset mod ?M" "offset mod ?M < ?M" "0 \<le> reference mod ?M" "reference mod ?M < ?M"
    by simp_all
  then have best: "- ?M < ?best - reference" "?best - reference < ?M" by linarith+
  have near: "- (2 ^ 31) < ?q * ?M + (?best - reference)" "?q * ?M + (?best - reference) < 2 ^ 31"
    using assms d by linarith+
  have "reconstructWindowOffset (word_of_int offset) reference =
      foldl (nearer reference) ?best [?best - ?M, ?best + ?M]"
    unfolding reconstructWindowOffset_def windowOffsetModulus_eq clear_low_bits
    by (simp add: uint_word_of_int Let_def)
  also have "\<dots> = ?best + ?q * ?M" using best near by (intro nearest_candidate) simp_all
  finally show ?thesis using d by simp
qed

text \<open>
  C21: The absolute offset of a WINDOW_UPDATE is recovered exactly from the 32 bits on the wire
  whenever it lies within 2^31 bytes of the limit the sender holds.
\<close>

theorem reconstructWindowOffset_exact:
  assumes "\<bar>offset - reference\<bar> < 2 ^ 31"
  shows "reconstructWindowOffset (word_of_int offset) reference = offset"
  using assms by (rule reconstruct_near)

theorem reconstructWindowOffset_exact_witness:
  "\<bar>(4294967300 :: int) - 4294960000\<bar> < 2 ^ 31
   \<and> reconstructWindowOffset (word_of_int 4294967300) 4294960000 = 4294967300"
  using reconstructWindowOffset_exact [of 4294967300 4294960000] by simp

section \<open>Credit\<close>

text \<open>
  What a sender relies on: a bound \<open>limit\<close>, a count \<open>used\<close>, a test \<open>can\<close> before spending and a
  way to raise the limit. Guarded spending never passes the limit, whatever is interleaved.
\<close>

datatype credit_op = Spend int | Raise int

locale credit =
  fixes limit :: "'s \<Rightarrow> int" and used :: "'s \<Rightarrow> int" and can :: "'s \<Rightarrow> int \<Rightarrow> bool"
    and spend :: "int \<Rightarrow> 's \<Rightarrow> 's" and raise :: "int \<Rightarrow> 's \<Rightarrow> 's"
  assumes can_iff: "can s n \<longleftrightarrow> used s + n \<le> limit s"
    and used_spend: "used (spend n s) = used s + n"
    and limit_spend: "limit (spend n s) = limit s"
    and used_raise: "used (raise m s) = used s"
    and limit_raise: "limit (raise m s) = max m (limit s)"
begin

fun run_credit :: "credit_op \<Rightarrow> 's \<Rightarrow> 's" where
  "run_credit (Spend n) s = (if can s n then spend n s else s)"
| "run_credit (Raise m) s = raise m s"

lemma run_credit_step: "used s \<le> limit s \<Longrightarrow> used (run_credit p s) \<le> limit (run_credit p s)"
  by (cases p) (auto simp: can_iff used_spend limit_spend used_raise limit_raise)

lemma run_credit_limit: "limit s \<le> limit (run_credit p s)"
  by (cases p) (auto simp: limit_spend limit_raise)

lemma guarded_within_limit:
  "used s \<le> limit s \<Longrightarrow> used (fold run_credit ps s) \<le> limit (fold run_credit ps s)"
  by (induction ps arbitrary: s) (simp_all add: run_credit_step)

lemma limit_monotone: "limit s \<le> limit (fold run_credit ps s)"
  by (induction ps arbitrary: s) (auto intro: order_trans run_credit_limit)

end

interpretation conn_credit: credit ConnMaxData connDataSent CanSendConn Conn_OnDataSent UpdateMaxData
  by unfold_locales
    (auto simp: ConnMaxData_def CanSendConn_def Conn_OnDataSent_def UpdateMaxData_def Let_def)

interpretation stream_credit: credit SendLimit dataSent CanSend Stream_OnDataSent
    "\<lambda>m s. fst (UpdateMaxStreamData m s)"
  by unfold_locales
    (auto simp: SendLimit_def CanSend_def Stream_OnDataSent_def UpdateMaxStreamData_def Let_def)

section \<open>A stream's two ends\<close>

text \<open>
  One direction of a stream: the sender's controller, the receiver's, and the limits ever put
  into WINDOW_UPDATE frames. A frame carries its limit modulo 2^32, may be lost, reordered or
  duplicated (it is never taken out of \<open>updates\<close>), and is assumed not to be delayed past 2^31
  bytes of progress of the sender's limit. The steps are the calls \<^verbatim>\<open>Write\<close>, \<^verbatim>\<open>DeliverData\<close>,
  \<^verbatim>\<open>Read\<close>, the answer to STREAM_DATA_BLOCKED and \<^verbatim>\<open>OnWindowUpdate\<close> make on the controllers.
\<close>

record flow_link =
  sender :: StreamFlowController
  receiver :: StreamFlowController
  updates :: "int list"

definition flow_init :: flow_link where
  "flow_init =
     \<lparr>sender = NewStreamFlowController InitialMaxStreamData InitialMaxStreamData,
      receiver = NewStreamFlowController InitialMaxStreamData InitialMaxStreamData,
      updates = []\<rparr>"

definition consume :: "int \<Rightarrow> flow_link \<Rightarrow> flow_link" where
  "consume n l =
     (let (r, send_update) = OnDataConsumed n (receiver l)
      in if send_update
         then let (r, limit) = AdvertiseLimit r in l\<lparr>receiver := r, updates := limit # updates l\<rparr>
         else l\<lparr>receiver := r\<rparr>)"

definition refresh :: "flow_link \<Rightarrow> flow_link" where
  "refresh l = (let (r, limit) = RefreshLimit (receiver l)
                in l\<lparr>receiver := r, updates := limit # updates l\<rparr>)"

definition apply_update :: "int \<Rightarrow> flow_link \<Rightarrow> flow_link" where
  "apply_update limit l = l\<lparr>sender := fst (ApplyWindowUpdate (word_of_int limit) (sender l))\<rparr>"

inductive flow_step :: "flow_link \<Rightarrow> flow_link \<Rightarrow> bool" where
  send: "0 \<le> n \<Longrightarrow> n \<le> SendWindowAvailable (sender l)
    \<Longrightarrow> flow_step l (l\<lparr>sender := Stream_OnDataSent n (sender l)\<rparr>)"
| receive: "0 \<le> n \<Longrightarrow> dataRecvd (receiver l) + n \<le> dataSent (sender l)
    \<Longrightarrow> flow_step l (l\<lparr>receiver := Stream_OnDataReceived n (receiver l)\<rparr>)"
| read: "0 \<le> n \<Longrightarrow> n \<le> BufferedBytes (receiver l) \<Longrightarrow> flow_step l (consume n l)"
| stream_data_blocked: "flow_step l (refresh l)"
| window_update: "limit \<in> set (updates l) \<Longrightarrow> maxStreamData (sender l) - limit < 2 ^ 31
    \<Longrightarrow> flow_step l (apply_update limit l)"

inductive_cases flow_stepE: "flow_step l l'"

definition flow_inv :: "flow_link \<Rightarrow> bool" where
  "flow_inv l \<longleftrightarrow>
     (let s = sender l; r = receiver l
      in 0 \<le> dataConsumed r \<and> dataConsumed r \<le> dataRecvd r \<and> dataRecvd r \<le> dataSent s
         \<and> dataSent s \<le> maxStreamData s \<and> maxStreamData s \<le> lastAdvertised r
         \<and> lastAdvertised r \<le> dataConsumed r + recvWindow r
         \<and> InitialMaxStreamData \<le> recvWindow r \<and> recvWindow r \<le> MaxStreamRecvWindow
         \<and> (\<forall>m \<in> set (updates l). m \<le> lastAdvertised r))"

lemma flow_inv_init: "flow_inv flow_init"
  by (simp add: flow_inv_def flow_init_def NewStreamFlowController_def)

lemma advertiseLocked_eq:
  "advertiseLocked sfc = (sfc\<lparr>lastAdvertised := max (lastAdvertised sfc) (dataConsumed sfc + recvWindow sfc)\<rparr>,
     max (lastAdvertised sfc) (dataConsumed sfc + recvWindow sfc))"
  by (simp add: advertiseLocked_def Let_def max_def)

lemma AdvertiseLimit_eq:
  assumes "0 \<le> recvWindow sfc" and "recvWindow sfc \<le> MaxStreamRecvWindow"
  shows "AdvertiseLimit sfc =
    advertiseLocked (sfc\<lparr>recvWindow := min MaxStreamRecvWindow (2 * recvWindow sfc)\<rparr>)"
  using assms by (cases sfc) (auto simp: AdvertiseLimit_def Let_def mult.commute)

lemma flow_inv_read:
  assumes inv: "flow_inv l" and "0 \<le> n" and "n \<le> BufferedBytes (receiver l)"
  shows "flow_inv (consume n l)"
proof -
  have w: "0 \<le> recvWindow (receiver l)" "recvWindow (receiver l) \<le> MaxStreamRecvWindow"
    using inv by (auto simp: flow_inv_def Let_def)
  show ?thesis
    using assms w
    by (auto simp: flow_inv_def consume_def OnDataConsumed_def Let_def AdvertiseLimit_eq
        advertiseLocked_eq BufferedBytes_def split: prod.splits)
qed

lemma flow_inv_refresh: "flow_inv l \<Longrightarrow> flow_inv (refresh l)"
  by (auto simp: flow_inv_def refresh_def RefreshLimit_def advertiseLocked_eq Let_def)

lemma apply_update_in_range:
  assumes "flow_inv l" and "limit \<in> set (updates l)" and "maxStreamData (sender l) - limit < 2 ^ 31"
  shows "reconstructWindowOffset (word_of_int limit) (maxStreamData (sender l)) = limit"
  using assms by (intro reconstruct_near) (auto simp: flow_inv_def Let_def)

lemma flow_inv_update:
  assumes "flow_inv l" and "limit \<in> set (updates l)" and "maxStreamData (sender l) - limit < 2 ^ 31"
  shows "flow_inv (apply_update limit l)"
  using assms apply_update_in_range [OF assms]
  by (auto simp: flow_inv_def apply_update_def ApplyWindowUpdate_def UpdateMaxStreamData_def Let_def)

lemma flow_inv_step: "flow_step l l' \<Longrightarrow> flow_inv l \<Longrightarrow> flow_inv l'"
proof (induction rule: flow_step.induct)
  case (send n l)
  then show ?case
    by (auto simp: flow_inv_def Stream_OnDataSent_def SendWindowAvailable_def Let_def split: if_splits)
next
  case (receive n l)
  then show ?case by (auto simp: flow_inv_def Stream_OnDataReceived_def Let_def)
qed (auto intro: flow_inv_read flow_inv_refresh flow_inv_update)

interpretation flow_run: preserved flow_step flow_inv
  by unfold_locales (rule flow_inv_step)

lemma flow_reachable_inv: "flow_step\<^sup>*\<^sup>* flow_init l \<Longrightarrow> flow_inv l"
  using flow_run.run flow_inv_init by blast

text \<open>A run: 40000 bytes are sent, received and read, which makes the receiver advertise.\<close>

definition example_link :: flow_link where
  "example_link = (let l = flow_init\<lparr>sender := Stream_OnDataSent 40000 (sender flow_init)\<rparr>
     in consume 40000 (l\<lparr>receiver := Stream_OnDataReceived 40000 (receiver l)\<rparr>))"

lemmas flow_defs = flow_init_def NewStreamFlowController_def consume_def OnDataConsumed_def
  AdvertiseLimit_def advertiseLocked_def Stream_OnDataSent_def Stream_OnDataReceived_def
  SendWindowAvailable_def BufferedBytes_def RecvWindow_def AdvertisedLimit_def go_div_def

lemma example_link_eq:
  "receiver example_link = \<lparr>maxStreamData = 65536, dataSent = 0, blocked = False,
     dataRecvd = 40000, dataConsumed = 40000, recvWindow = 131072, lastAdvertised = 171072\<rparr>"
  "sender example_link = \<lparr>maxStreamData = 65536, dataSent = 40000, blocked = False,
     dataRecvd = 0, dataConsumed = 0, recvWindow = 65536, lastAdvertised = 65536\<rparr>"
  by (simp_all add: example_link_def flow_defs)

lemma example_link_reachable: "flow_step\<^sup>*\<^sup>* flow_init example_link"
proof -
  let ?l1 = "flow_init\<lparr>sender := Stream_OnDataSent 40000 (sender flow_init)\<rparr>"
  let ?l2 = "?l1\<lparr>receiver := Stream_OnDataReceived 40000 (receiver ?l1)\<rparr>"
  have "flow_step flow_init ?l1" by (rule flow_step.send) (simp_all add: flow_defs)
  moreover have "flow_step ?l1 ?l2" by (rule flow_step.receive) (simp_all add: flow_defs)
  moreover have "flow_step ?l2 (consume 40000 ?l2)"
    by (rule flow_step.read) (simp_all add: flow_defs)
  moreover have "example_link = consume 40000 ?l2" by (simp add: example_link_def Let_def)
  ultimately show ?thesis by (auto intro: converse_rtranclp_into_rtranclp)
qed



text \<open>
  C22: A blocked sender recovers from lost window updates: after the receiver answers
  STREAM_DATA_BLOCKED and the answer arrives, the sender may send at least the receive window
  less what it has sent and the application has not yet read. A reader that has caught up
  therefore always reopens a whole window.
\<close>

theorem blocked_sender_recovers:
  assumes "flow_step\<^sup>*\<^sup>* flow_init l"
  shows "RecvWindow (receiver l) - (dataSent (sender l) - dataConsumed (receiver l))
    \<le> SendWindowAvailable (sender (apply_update (snd (RefreshLimit (receiver l))) (refresh l)))"
proof -
  let ?m = "snd (RefreshLimit (receiver l))"
  have inv: "flow_inv l" using assms by (rule flow_reachable_inv)
  have "maxStreamData (sender (refresh l)) - ?m < 2 ^ 31"
    using inv by (auto simp: flow_inv_def refresh_def RefreshLimit_def advertiseLocked_eq Let_def)
  moreover have "?m \<in> set (updates (refresh l))"
    by (simp add: refresh_def RefreshLimit_def advertiseLocked_eq)
  ultimately have "reconstructWindowOffset (word_of_int ?m) (maxStreamData (sender (refresh l))) = ?m"
    using apply_update_in_range [OF flow_inv_refresh [OF inv]] by blast
  then show ?thesis
    by (auto simp: apply_update_def ApplyWindowUpdate_def UpdateMaxStreamData_def Let_def
        SendWindowAvailable_def RecvWindow_def refresh_def RefreshLimit_def advertiseLocked_eq)
qed

theorem blocked_sender_recovers_witness:
  "flow_step\<^sup>*\<^sup>* flow_init example_link
   \<and> 131072 \<le> SendWindowAvailable
        (sender (apply_update (snd (RefreshLimit (receiver example_link))) (refresh example_link)))"
  using blocked_sender_recovers [OF example_link_reachable] example_link_reachable
  by (simp add: RecvWindow_def example_link_eq)

text \<open>
  When \<^verbatim>\<open>OnDataConsumed\<close> asks for an update, the update grants more than half a window of
  fresh credit beyond the last one, and the window doubles up to \<^verbatim>\<open>MaxStreamRecvWindow\<close>.
\<close>

lemma window_update_grants_half:
  assumes "OnDataConsumed n sfc = (sfc', True)"
    and "0 \<le> recvWindow sfc" and "recvWindow sfc \<le> MaxStreamRecvWindow"
  shows "lastAdvertised sfc + recvWindow sfc div 2 < snd (AdvertiseLimit sfc')
    \<and> recvWindow (fst (AdvertiseLimit sfc')) = min MaxStreamRecvWindow (2 * recvWindow sfc)"
proof -
  have "recvWindow sfc' = recvWindow sfc" "lastAdvertised sfc' = lastAdvertised sfc"
      "lastAdvertised sfc - dataConsumed sfc' < recvWindow sfc div 2"
    using assms by (auto simp: OnDataConsumed_def Let_def go_div_nonneg)
  then show ?thesis
    using assms(2,3) by (auto simp: AdvertiseLimit_eq advertiseLocked_eq)
qed

text \<open>
  C35: The reconstruction is not unambiguous for a stale frame: a WINDOW_UPDATE whose limit lies
  more than 2^31 and less than 2^32 bytes behind the one held is read as the limit 2^32 bytes
  further on, which raises the sender's limit past anything the receiver advertised.
\<close>

theorem stale_window_update_misread:
  assumes "2 ^ 31 < maxStreamData sfc - old" and "maxStreamData sfc - old < 2 ^ 32"
  shows "SendLimit (fst (ApplyWindowUpdate (word_of_int old) sfc)) = old + 2 ^ 32
    \<and> SendLimit sfc < SendLimit (fst (ApplyWindowUpdate (word_of_int old) sfc))"
proof -
  have w: "word_of_int old = (word_of_int (old + 2 ^ 32) :: uint32)"
    by (simp add: word_of_int_eq_iff take_bit_eq_mod)
  have "reconstructWindowOffset (word_of_int old) (maxStreamData sfc) = old + 2 ^ 32"
    unfolding w using assms by (intro reconstruct_near) simp
  then show ?thesis
    using assms by (auto simp: SendLimit_def ApplyWindowUpdate_def UpdateMaxStreamData_def Let_def)
qed

theorem stale_window_update_misread_witness:
  "SendLimit (fst (ApplyWindowUpdate (word_of_int 65536) (NewStreamFlowController (2 ^ 32) 65536)))
     = 65536 + 2 ^ 32"
  using stale_window_update_misread [of "NewStreamFlowController (2 ^ 32) 65536" 65536]
  by (simp add: NewStreamFlowController_def)

end
