(* ===== verification/Udx_Stream.thy ===== *)
theory Udx_Stream
  imports Udx_Flow_Control
begin

text \<open>
  Streams (\<^verbatim>\<open>stream.go\<close>): reassembly of STREAM frames on byte offsets, FIN and RESET, reading
  with window updates, and writing with flow-control and congestion credit. A method that
  holds the stream's mutex throughout is one function; \<^verbatim>\<open>Write\<close>, which releases it to wait for
  credit, is split at the places where it does. Calls on the parent connection are returned as
  values of \<open>conn_call\<close>, in order. The fields \<^verbatim>\<open>sendBuf\<close> and \<^verbatim>\<open>sendSeq\<close> are never used by the
  code and are left out; condition variables are the outcome \<open>blocked\<close> of the waiting method.
\<close>

section \<open>State\<close>

datatype StreamState =
    StreamStateIdle
  | StreamStateOpen
  | StreamStateHalfClosedLocal
  | StreamStateHalfClosedRemote
  | StreamStateClosed
  | StreamStateReset

datatype stream_error = EOF | ErrStreamReset | ErrWriteAfterClose | ErrDeadlineExceeded

datatype conn_call =
    sendStreamFrame uint32 uint32 uint64 "byte list" bool bool
  | sendStreamFrames uint32 uint32 uint64 "byte list" int bool
  | sendResetStream uint32 uint32 uint32
  | sendWindowUpdate uint32 uint32 int
  | sendStreamDataBlocked uint32 uint32 int

record Stream =
  ID :: uint32
  RemoteID :: uint32
  state :: StreamState
  resetCode :: uint32
  writeDeadline :: time
  recvBuf :: "byte list"
  recvOOO :: "(uint64 \<times> byte list) list"
  recvOffset :: uint64
  oooBytes :: int
  flowControlViolation :: bool
  readDeadline :: time
  finReceived :: bool
  finSeen :: bool
  finalSize :: uint64
  streamFC :: "StreamFlowController option"
  conn :: bool
  BytesRead :: int
  BytesWritten :: int

definition NewStream :: "uint32 \<Rightarrow> uint32 \<Rightarrow> StreamFlowController option \<Rightarrow> Stream" where
  "NewStream sid remoteID fc =
     \<lparr>ID = sid, RemoteID = remoteID, state = StreamStateIdle, resetCode = 0, writeDeadline = 0,
      recvBuf = [], recvOOO = [], recvOffset = 0, oooBytes = 0, flowControlViolation = False,
      readDeadline = 0, finReceived = False, finSeen = False, finalSize = 0, streamFC = fc,
      conn = False, BytesRead = 0, BytesWritten = 0\<rparr>"

section \<open>Receiving\<close>

text \<open>The loop that moves waiting chunks behind the bytes just delivered.\<close>

function release :: "Stream \<Rightarrow> Stream" where
  "release s =
     (case map_of (recvOOO s) (recvOffset s) of
        None \<Rightarrow> s
      | Some chunk \<Rightarrow>
          release (s\<lparr>recvOOO := AList.delete (recvOffset s) (recvOOO s),
                     oooBytes := oooBytes s - int (length chunk),
                     recvBuf := recvBuf s @ chunk,
                     recvOffset := recvOffset s + of_nat (length chunk)\<rparr>))"
  by pat_completeness auto

lemma alist_delete_less: "map_of xs k = Some v \<Longrightarrow> length (AList.delete k xs) < length xs"
  by (induction xs) (auto simp: less_Suc_eq_le length_delete_le split: if_splits)

termination release
  by (relation "measure (\<lambda>s. length (recvOOO s))") (auto intro: alist_delete_less)

declare release.simps [simp del]

definition placeLocked :: "uint64 \<Rightarrow> byte list \<Rightarrow> Stream \<Rightarrow> Stream \<times> int" where
  "placeLocked off data s =
     (let fin = off + of_nat (length data)
      in if fin \<le> recvOffset s then (s, 0)
         else let data = (if off < recvOffset s then drop (unat (recvOffset s - off)) data else data);
                  off = (if off < recvOffset s then recvOffset s else off)
              in if off > recvOffset s
                 then if map_of (recvOOO s) off \<noteq> None then (s, 0)
                      else if oooBytes s + int (length data) > maxStreamRecvOOO
                      then (s\<lparr>flowControlViolation := True\<rparr>, 0)
                      else (s\<lparr>recvOOO := AList.update off data (recvOOO s),
                              oooBytes := oooBytes s + int (length data)\<rparr>, int (length data))
                 else (release (s\<lparr>recvBuf := recvBuf s @ data, recvOffset := fin\<rparr>),
                       int (length data)))"

definition finishLocked :: "Stream \<Rightarrow> Stream" where
  "finishLocked s =
     (if \<not> finSeen s \<or> finReceived s \<or> recvOffset s < finalSize s then s
      else let s = s\<lparr>finReceived := True\<rparr>
           in if state s = StreamStateHalfClosedLocal then s\<lparr>state := StreamStateClosed\<rparr>
              else s\<lparr>state := StreamStateHalfClosedRemote\<rparr>)"

definition Stream_Reset :: "uint32 \<Rightarrow> Stream \<Rightarrow> Stream \<times> conn_call list" where
  "Stream_Reset errorCode s =
     (if state s = StreamStateClosed \<or> state s = StreamStateReset then (s, [])
      else let s = s\<lparr>state := StreamStateReset, resetCode := errorCode\<rparr>
           in (s, if conn s then [sendResetStream (ID s) (RemoteID s) errorCode] else []))"

definition DeliverData :: "uint64 \<Rightarrow> byte list \<Rightarrow> Stream \<Rightarrow> Stream \<times> conn_call list" where
  "DeliverData off data s =
     (let (s, accepted) = placeLocked off data s
      in if flowControlViolation s then Stream_Reset ErrorFlowControlError s
         else if accepted > 0
         then (finishLocked (s\<lparr>streamFC := map_option (Stream_OnDataReceived accepted) (streamFC s)\<rparr>), [])
         else (s, []))"

definition DeliverFin :: "uint64 \<Rightarrow> Stream \<Rightarrow> Stream" where
  "DeliverFin final s = finishLocked (s\<lparr>finSeen := True, finalSize := final\<rparr>)"

definition DeliverReset :: "uint32 \<Rightarrow> Stream \<Rightarrow> Stream" where
  "DeliverReset errorCode s = s\<lparr>state := StreamStateReset, resetCode := errorCode\<rparr>"

definition OnWindowUpdate :: "uint32 \<Rightarrow> Stream \<Rightarrow> Stream" where
  "OnWindowUpdate wire s = s\<lparr>streamFC := map_option (\<lambda>fc. fst (ApplyWindowUpdate wire fc)) (streamFC s)\<rparr>"

section \<open>Reading\<close>

datatype read_outcome = ReadBlocked | ReadData "byte list" | ReadError stream_error

text \<open>
  One pass of \<^verbatim>\<open>Read\<close> with a buffer of \<open>n\<close> bytes at wall-clock time \<open>now\<close>; \<open>ReadBlocked\<close> is
  the wait on \<^verbatim>\<open>recvCond\<close>, after which the pass is run again.
\<close>

definition Read :: "time \<Rightarrow> nat \<Rightarrow> Stream \<Rightarrow> Stream \<times> conn_call list \<times> read_outcome" where
  "Read now n s =
     (if recvBuf s = []
      then if state s = StreamStateReset then (s, [], ReadError ErrStreamReset)
           else if finReceived s then (s, [], ReadError EOF)
           else if state s = StreamStateClosed then (s, [], ReadError EOF)
           else if readDeadline s \<noteq> 0 \<and> \<not> now < readDeadline s
           then (s, [], ReadError ErrDeadlineExceeded)
           else (s, [], ReadBlocked)
      else let got = take n (recvBuf s);
               k = int (length got);
               s = s\<lparr>recvBuf := drop n (recvBuf s), BytesRead := BytesRead s + k\<rparr>
           in case streamFC s of
                None \<Rightarrow> (s, [], ReadData got)
              | Some fc \<Rightarrow>
                  let (fc, sendUpdate) = OnDataConsumed k fc
                  in if sendUpdate \<and> conn s
                     then let (fc, limit) = AdvertiseLimit fc
                          in (s\<lparr>streamFC := Some fc\<rparr>,
                              [sendWindowUpdate (ID s) (RemoteID s) limit], ReadData got)
                     else (s\<lparr>streamFC := Some fc\<rparr>, [], ReadData got))"

section \<open>Closing\<close>

definition Close :: "Stream \<Rightarrow> Stream \<times> conn_call list" where
  "Close s =
     (if state s = StreamStateClosed \<or> state s = StreamStateReset then (s, [])
      else let s = (if state s = StreamStateHalfClosedRemote then s\<lparr>state := StreamStateClosed\<rparr>
                    else s\<lparr>state := StreamStateHalfClosedLocal\<rparr>)
           in (s, if conn s
                  then [sendStreamFrame (ID s) (RemoteID s) (word_of_int (BytesWritten s)) [] True False]
                  else []))"

definition CloseWrite :: "Stream \<Rightarrow> Stream \<times> conn_call list" where
  "CloseWrite s = Close s"

definition SetReadDeadline :: "time \<Rightarrow> Stream \<Rightarrow> Stream" where
  "SetReadDeadline t s = s\<lparr>readDeadline := t\<rparr>"

definition SetWriteDeadline :: "time \<Rightarrow> Stream \<Rightarrow> Stream" where
  "SetWriteDeadline t s = s\<lparr>writeDeadline := t\<rparr>"

definition Stream_BufferedBytes :: "Stream \<Rightarrow> int" where
  "Stream_BufferedBytes s = (case streamFC s of None \<Rightarrow> 0 | Some fc \<Rightarrow> BufferedBytes fc)"

definition Stream_RecvWindow :: "Stream \<Rightarrow> int" where
  "Stream_RecvWindow s = (case streamFC s of None \<Rightarrow> 0 | Some fc \<Rightarrow> RecvWindow fc)"

section \<open>Writing\<close>

definition streamChunkOverhead :: int where
  "streamChunkOverhead = 100"

definition chunkSizeLocked :: "int \<Rightarrow> Stream \<Rightarrow> int" where
  "chunkSizeLocked maxDatagram s =
     (if conn s then maxDatagram else SafeDatagramSize) - streamChunkOverhead"

text \<open>
  \<^verbatim>\<open>Write\<close> holds the mutex from one release to the next. \<open>write_entry\<close> is its first check;
  \<open>write_claim\<close> goes from the top of the loop to the release before \<^verbatim>\<open>awaitSendCreditUpTo\<close>
  and says how much it asks for; \<open>write_send\<close> goes from there, with what was granted, to the
  call of \<^verbatim>\<open>sendStreamFrames\<close>. \<open>WriteRetry\<close> starts the loop again with the same data;
  \<open>WriteBlocked\<close> waits on \<^verbatim>\<open>sendCond\<close> before it does.
\<close>

datatype write_outcome =
    WriteDone
  | WriteError stream_error
  | WriteBlocked
  | WriteRetry
  | WriteAwait int int time bool int
  | WriteSent int

definition write_entry :: "Stream \<Rightarrow> stream_error option" where
  "write_entry s =
     (if state s = StreamStateReset then Some ErrStreamReset
      else if state s = StreamStateHalfClosedLocal \<or> state s = StreamStateClosed
      then Some ErrWriteAfterClose else None)"

definition write_claim :: "time \<Rightarrow> int \<Rightarrow> byte list \<Rightarrow> Stream \<Rightarrow> conn_call list \<times> write_outcome" where
  "write_claim now maxDatagram data s =
     (if data = [] then ([], WriteDone)
      else if (case streamFC s of Some fc \<Rightarrow> \<not> CanSend fc 1 | None \<Rightarrow> False)
      then if state s = StreamStateReset then ([], WriteError ErrStreamReset)
           else if state s = StreamStateHalfClosedLocal \<or> state s = StreamStateClosed
           then ([], WriteError ErrWriteAfterClose)
           else if writeDeadline s \<noteq> 0 \<and> \<not> now < writeDeadline s
           then ([], WriteError ErrDeadlineExceeded)
           else (case streamFC s of
                   Some fc \<Rightarrow> if conn s then [sendStreamDataBlocked (ID s) (RemoteID s) (SendLimit fc)] else []
                 | None \<Rightarrow> [], WriteBlocked)
      else let chunkSize = chunkSizeLocked maxDatagram s;
               want = int (length data);
               want = (if want > sendBatchMax * chunkSize then sendBatchMax * chunkSize else want);
               want = (case streamFC s of
                         Some fc \<Rightarrow> if SendWindowAvailable fc < want then SendWindowAvailable fc else want
                       | None \<Rightarrow> want)
           in if want = 0 then ([], WriteRetry)
              else let first = (if chunkSize > want then want else chunkSize)
                   in ([], WriteAwait first want (writeDeadline s) (state s = StreamStateIdle) chunkSize))"

definition write_send ::
    "int option \<Rightarrow> bool \<Rightarrow> int \<Rightarrow> byte list \<Rightarrow> Stream \<Rightarrow> Stream \<times> conn_call list \<times> write_outcome" where
  "write_send grant isSyn chunkSize data s =
     (case grant of
        None \<Rightarrow> (s, [], WriteError (if state s = StreamStateReset then ErrStreamReset
                                    else ErrDeadlineExceeded))
      | Some granted \<Rightarrow>
          if state s = StreamStateReset then (s, [], WriteError ErrStreamReset)
          else let granted = (case streamFC s of
                     Some fc \<Rightarrow> if SendWindowAvailable fc < granted then SendWindowAvailable fc else granted
                   | None \<Rightarrow> granted)
               in if granted = 0 then (s, [], WriteRetry)
                  else let granted = (if granted < int (length data) \<and> granted > chunkSize
                                      then granted - granted mod chunkSize else granted);
                           syn = (isSyn \<and> state s = StreamStateIdle);
                           s = (if syn then s\<lparr>state := StreamStateOpen\<rparr> else s);
                           s = s\<lparr>streamFC := map_option (Stream_OnDataSent granted) (streamFC s)\<rparr>;
                           off = word_of_int (BytesWritten s);
                           s = s\<lparr>BytesWritten := BytesWritten s + granted\<rparr>
                       in (s, if conn s
                              then [sendStreamFrames (ID s) (RemoteID s) off
                                      (take (nat granted) data) chunkSize syn]
                              else [], WriteSent granted))"

text \<open>
  How a blocked reader or writer waits: not at all when its deadline has passed, for a signal only when
  it has none, otherwise for a signal or the deadline.
\<close>

datatype wait_outcome = NoWait | WaitSignal | WaitUntil time

definition waitWithDeadline :: "time \<Rightarrow> time \<Rightarrow> wait_outcome" where
  "waitWithDeadline now deadline =
     (if deadline = 0 then WaitSignal
      else if time_sub deadline now \<le> 0 then NoWait
      else WaitUntil deadline)"

definition blockedWakeupLocked :: "time \<Rightarrow> Stream \<Rightarrow> time" where
  "blockedWakeupLocked now s =
     (let retry = now + StreamBlockedRetryInterval
      in if writeDeadline s \<noteq> 0 \<and> writeDeadline s < retry then writeDeadline s else retry)"

text \<open>
  A writer blocked by flow control never waits for a signal alone, which a lost WINDOW_UPDATE would
  withhold for good: it runs again, and reports that it is blocked again, within the retry interval.
\<close>

lemma blocked_writer_wakes:
  assumes "0 \<le> now"
  shows "waitWithDeadline now (blockedWakeupLocked now s) = NoWait
    \<or> (\<exists>t. waitWithDeadline now (blockedWakeupLocked now s) = WaitUntil t \<and> t \<le> now + StreamBlockedRetryInterval)"
  using assms by (auto simp: waitWithDeadline_def blockedWakeupLocked_def Let_def)

section \<open>Reassembly delivers a prefix\<close>

text \<open>The chunk \<open>d\<close> at offset \<open>off\<close> is what the byte sequence \<open>B\<close> holds there.\<close>

definition segment :: "byte list \<Rightarrow> uint64 \<Rightarrow> byte list \<Rightarrow> bool" where
  "segment B off d \<longleftrightarrow> unat off + length d \<le> length B \<and> d = take (length d) (drop (unat off) B)"

definition recv_inv :: "byte list \<Rightarrow> byte list \<Rightarrow> Stream \<Rightarrow> bool" where
  "recv_inv B consumed s \<longleftrightarrow> length B < 2 ^ 64 \<and> unat (recvOffset s) \<le> length B
     \<and> consumed @ recvBuf s = take (unat (recvOffset s)) B
     \<and> (\<forall>(off, d) \<in> set (recvOOO s). segment B off d)"

lemma take_segment:
  "segment B off d \<Longrightarrow> take (unat off) B @ d = take (unat off + length d) B"
  by (metis segment_def take_add)

lemma segment_drop:
  assumes "segment B off d" and "k \<le> length d"
    and "unat off' = unat off + k"
  shows "segment B off' (drop k d)"
proof -
  have "drop k d = drop k (take (length d) (drop (unat off) B))"
    using assms(1) by (metis segment_def)
  also have "\<dots> = take (length d - k) (drop (unat off') B)"
    using assms(3) by (simp add: drop_take add.commute)
  finally show ?thesis using assms by (auto simp: segment_def)
qed

lemma unat_plus_length:
  "unat off + length d < 2 ^ 64 \<Longrightarrow> unat (off + of_nat (length d)) = unat off + length d"
  for off :: uint64
  by (simp add: unat_word_ariths unsigned_of_nat take_bit_nat_eq_self)

lemma recv_inv_append:
  assumes "recv_inv B c s" and "segment B (recvOffset s) d"
  shows "recv_inv B c (s\<lparr>recvBuf := recvBuf s @ d, recvOffset := recvOffset s + of_nat (length d)\<rparr>)"
proof -
  have "unat (recvOffset s) + length d < 2 ^ 64"
    using assms by (auto simp: recv_inv_def segment_def)
  then show ?thesis
    using assms take_segment [OF assms(2)] unat_plus_length [of "recvOffset s" d]
    by (auto simp: recv_inv_def segment_def simp flip: append_assoc)
qed

lemma recv_inv_release: "recv_inv B c s \<Longrightarrow> recv_inv B c (release s)"
proof (induction s rule: release.induct)
  case (1 s)
  show ?case
  proof (cases "map_of (recvOOO s) (recvOffset s)")
    case None
    then show ?thesis using 1(2) by (simp add: release.simps [of s])
  next
    case (Some chunk)
    then have "segment B (recvOffset s) chunk"
      using 1(2) by (auto simp: recv_inv_def dest: map_of_SomeD)
    note app = recv_inv_append [OF 1(2) this]
    have "set (AList.delete (recvOffset s) (recvOOO s)) \<subseteq> set (recvOOO s)"
      by (auto simp: AList.delete_eq)
    then have "recv_inv B c (s\<lparr>recvOOO := AList.delete (recvOffset s) (recvOOO s),
        oooBytes := oooBytes s - int (length chunk), recvBuf := recvBuf s @ chunk,
        recvOffset := recvOffset s + of_nat (length chunk)\<rparr>)"
      using app by (auto simp: recv_inv_def)
    then show ?thesis using 1(1) [OF Some] Some by (simp add: release.simps [of s])
  qed
qed

lemma set_alist_update: "set (AList.update k v xs) \<subseteq> insert (k, v) (set xs)"
  by (induction xs) auto

lemma recv_inv_place:
  assumes inv: "recv_inv B c s" and seg: "segment B off d"
  shows "recv_inv B c (fst (placeLocked off d s))"
proof -
  let ?fin = "off + of_nat (length d)"
  have fin: "unat ?fin = unat off + length d"
    using assms by (intro unat_plus_length) (auto simp: recv_inv_def segment_def)
  consider "?fin \<le> recvOffset s" | "\<not> ?fin \<le> recvOffset s" "recvOffset s < off"
    | "\<not> ?fin \<le> recvOffset s" "off \<le> recvOffset s" by fastforce
  then show ?thesis
  proof cases
    case 1
    then show ?thesis using inv by (simp add: placeLocked_def)
  next
    case 2
    then have "\<not> off < recvOffset s" by simp
    then show ?thesis
      using 2 inv seg set_alist_update [of off d "recvOOO s"]
      by (auto simp: placeLocked_def recv_inv_def Let_def)
  next
    case 3
    define k where "k = unat (recvOffset s) - unat off"
    have k: "unat (recvOffset s - off) = k" "unat (recvOffset s) = unat off + k" "k \<le> length d"
      using 3 fin by (auto simp: k_def unat_minus_le word_le_nat_alt)
    have seg': "segment B (recvOffset s) (drop k d)"
      using segment_drop [OF seg k(3) k(2)] .
    have "unat (recvOffset s + of_nat (length (drop k d))) = unat (recvOffset s) + length (drop k d)"
      using seg' inv by (intro unat_plus_length) (auto simp: segment_def recv_inv_def)
    then have "unat ?fin = unat (recvOffset s + of_nat (length (drop k d)))"
      using k fin by simp
    then have eq: "?fin = recvOffset s + of_nat (length (drop k d))" by (simp only: unat_inject)
    have "fst (placeLocked off d s) = release (s\<lparr>recvBuf := recvBuf s @ drop k d, recvOffset := ?fin\<rparr>)"
    proof (cases "off = recvOffset s")
      case True
      then show ?thesis using 3 k(2) by (simp add: placeLocked_def Let_def)
    next
      case False
      then have "off < recvOffset s" using 3 by simp
      then show ?thesis using 3 k(1) by (simp add: placeLocked_def Let_def)
    qed
    then show ?thesis
      using recv_inv_release [OF recv_inv_append [OF inv seg']] unfolding eq by simp
  qed
qed

lemma place_fields [simp]:
  "finSeen (release s) = finSeen s" "finReceived (release s) = finReceived s"
  "finalSize (release s) = finalSize s" "state (release s) = state s"
  "flowControlViolation (release s) = flowControlViolation s"
  by (induction s rule: release.induct; subst release.simps; simp split: option.split)+

lemma finishLocked_recv [simp]:
  "recvBuf (finishLocked s) = recvBuf s" "recvOOO (finishLocked s) = recvOOO s"
  "recvOffset (finishLocked s) = recvOffset s"
  by (simp_all add: finishLocked_def Let_def)

lemma recv_inv_cong:
  "recvBuf s' = recvBuf s \<Longrightarrow> recvOOO s' = recvOOO s \<Longrightarrow> recvOffset s' = recvOffset s
    \<Longrightarrow> recv_inv B c s' = recv_inv B c s"
  by (simp add: recv_inv_def)

lemma DeliverData_recv:
  "recvBuf (fst (DeliverData off d s)) = recvBuf (fst (placeLocked off d s))"
  "recvOOO (fst (DeliverData off d s)) = recvOOO (fst (placeLocked off d s))"
  "recvOffset (fst (DeliverData off d s)) = recvOffset (fst (placeLocked off d s))"
  by (auto simp: DeliverData_def Stream_Reset_def Let_def split: prod.splits)

lemma recv_inv_deliver:
  "recv_inv B c s \<Longrightarrow> segment B off d \<Longrightarrow> recv_inv B c (fst (DeliverData off d s))"
  using recv_inv_place [of B c s off d] recv_inv_cong [OF DeliverData_recv] by blast

text \<open>
  What a byte stream promises its reader: as long as the events come from a peer that sends the
  bytes \<open>B\<close>, the bytes handed over are a prefix of \<open>B\<close>, and the end is reported only once all
  of \<open>B\<close> was handed over.
\<close>

locale byte_stream =
  fixes step :: "'e \<Rightarrow> 's \<Rightarrow> 's" and from_peer :: "byte list \<Rightarrow> 'e \<Rightarrow> bool"
    and inv :: "byte list \<Rightarrow> 's \<Rightarrow> bool" and got :: "'s \<Rightarrow> byte list" and ended :: "'s \<Rightarrow> bool"
  assumes inv_step: "inv B s \<Longrightarrow> from_peer B e \<Longrightarrow> inv B (step e s)"
    and got_prefix: "inv B s \<Longrightarrow> got s = take (length (got s)) B"
    and ended_all: "inv B s \<Longrightarrow> ended s \<Longrightarrow> got s = B"
begin

lemma inv_run: "inv B s \<Longrightarrow> \<forall>e \<in> set es. from_peer B e \<Longrightarrow> inv B (fold step es s)"
  by (induction es arbitrary: s) (simp_all add: inv_step)

lemma run_prefix:
  "inv B s \<Longrightarrow> \<forall>e \<in> set es. from_peer B e
    \<Longrightarrow> got (fold step es s) = take (length (got (fold step es s))) B"
  using inv_run got_prefix by blast

lemma run_complete:
  "inv B s \<Longrightarrow> \<forall>e \<in> set es. from_peer B e \<Longrightarrow> ended (fold step es s) \<Longrightarrow> got (fold step es s) = B"
  using inv_run ended_all by blast

end

text \<open>The events of a stream; the second component of the state is what \<^verbatim>\<open>Read\<close> has returned.\<close>

datatype stream_event =
    EvData uint64 "byte list" | EvFin uint64 | EvReset uint32 | EvWindow uint32
  | EvRead time nat | EvClose | EvLocalReset uint32 | EvReadDeadline time | EvWriteDeadline time

fun read_bytes :: "read_outcome \<Rightarrow> byte list" where
  "read_bytes (ReadData d) = d"
| "read_bytes _ = []"

fun on_event :: "stream_event \<Rightarrow> Stream \<times> byte list \<Rightarrow> Stream \<times> byte list" where
  "on_event (EvData off d) (s, c) = (fst (DeliverData off d s), c)"
| "on_event (EvFin final) (s, c) = (DeliverFin final s, c)"
| "on_event (EvReset code) (s, c) = (DeliverReset code s, c)"
| "on_event (EvWindow wire) (s, c) = (OnWindowUpdate wire s, c)"
| "on_event (EvRead now n) (s, c) = (case Read now n s of (s', _, r) \<Rightarrow> (s', c @ read_bytes r))"
| "on_event EvClose (s, c) = (fst (Close s), c)"
| "on_event (EvLocalReset code) (s, c) = (fst (Stream_Reset code s), c)"
| "on_event (EvReadDeadline t) (s, c) = (SetReadDeadline t s, c)"
| "on_event (EvWriteDeadline t) (s, c) = (SetWriteDeadline t s, c)"

fun from_peer :: "byte list \<Rightarrow> stream_event \<Rightarrow> bool" where
  "from_peer B (EvData off d) \<longleftrightarrow> segment B off d"
| "from_peer B (EvFin final) \<longleftrightarrow> unat final = length B"
| "from_peer B _ \<longleftrightarrow> True"

definition fin_inv :: "byte list \<Rightarrow> Stream \<Rightarrow> bool" where
  "fin_inv B s \<longleftrightarrow> (finSeen s \<longrightarrow> unat (finalSize s) = length B)
     \<and> (finReceived s \<longrightarrow> unat (recvOffset s) = length B)
     \<and> (state s = StreamStateClosed \<or> state s = StreamStateHalfClosedRemote \<longrightarrow> finReceived s)"

definition stream_inv :: "byte list \<Rightarrow> Stream \<times> byte list \<Rightarrow> bool" where
  "stream_inv B sc \<longleftrightarrow> recv_inv B (snd sc) (fst sc) \<and> fin_inv B (fst sc)"

definition at_eof :: "Stream \<times> byte list \<Rightarrow> bool" where
  "at_eof sc \<longleftrightarrow> (\<exists>now n. snd (snd (Read now n (fst sc))) = ReadError EOF)"

lemma stream_inv_New: "length B < 2 ^ 64 \<Longrightarrow> stream_inv B (NewStream i r fc, [])"
  by (simp add: stream_inv_def recv_inv_def fin_inv_def NewStream_def)

lemma fin_inv_cong:
  "finSeen s' = finSeen s \<Longrightarrow> finReceived s' = finReceived s \<Longrightarrow> finalSize s' = finalSize s
    \<Longrightarrow> recvOffset s' = recvOffset s \<Longrightarrow> state s' = state s \<Longrightarrow> fin_inv B s' = fin_inv B s"
  by (simp add: fin_inv_def)

lemma finishLocked_fin:
  assumes "unat (recvOffset s) \<le> length B" and "fin_inv B s"
  shows "fin_inv B (finishLocked s)"
  using assms by (auto simp: fin_inv_def finishLocked_def Let_def not_less word_le_nat_alt)

lemma place_at_end:
  assumes "length B < 2 ^ 64" and "unat (recvOffset s) = length B" and "segment B off d"
  shows "placeLocked off d s = (s, 0)"
proof -
  have "unat (off + of_nat (length d)) = unat off + length d"
    using assms by (intro unat_plus_length) (auto simp: segment_def)
  then have "off + of_nat (length d) \<le> recvOffset s"
    using assms by (simp add: word_le_nat_alt segment_def)
  then show ?thesis by (simp add: placeLocked_def)
qed

lemma place_fin_fields:
  "finSeen (fst (placeLocked off d s)) = finSeen s"
  "finReceived (fst (placeLocked off d s)) = finReceived s"
  "finalSize (fst (placeLocked off d s)) = finalSize s"
  "state (fst (placeLocked off d s)) = state s"
  by (auto simp: placeLocked_def Let_def)

lemma fin_inv_deliver:
  assumes inv: "recv_inv B c s" "fin_inv B s" and seg: "segment B off d"
  shows "fin_inv B (fst (DeliverData off d s))"
proof -
  let ?p = "fst (placeLocked off d s)"
  have "fin_inv B ?p"
  proof (cases "finReceived s")
    case True
    then have "unat (recvOffset s) = length B" using inv by (simp add: fin_inv_def)
    then have "?p = s" using place_at_end [of B s off d] inv seg by (simp add: recv_inv_def)
    then show ?thesis using inv by simp
  next
    case False
    then show ?thesis using inv(2) by (simp add: fin_inv_def place_fin_fields)
  qed
  moreover have "unat (recvOffset ?p) \<le> length B"
    using recv_inv_place [OF inv(1) seg] by (simp add: recv_inv_def)
  moreover have "fin_inv B (p\<lparr>streamFC := f\<rparr>) = fin_inv B p" for p f
    by (rule fin_inv_cong) simp_all
  moreover have "fin_inv B (fst (Stream_Reset code p))" if "fin_inv B p" for code p
    using that by (simp add: fin_inv_def Stream_Reset_def Let_def)
  ultimately show ?thesis
    by (cases "placeLocked off d s") (simp add: DeliverData_def finishLocked_fin)
qed

lemma recv_inv_read:
  assumes "recv_inv B c s" and "Read now n s = (s', cs, r)"
  shows "recv_inv B (c @ read_bytes r) s'"
  using assms by (auto simp: recv_inv_def Read_def Let_def split: if_splits option.splits prod.splits)

lemma Read_fin_fields:
  assumes "Read now n s = (s', cs, r)"
  shows "finSeen s' = finSeen s" "finReceived s' = finReceived s" "finalSize s' = finalSize s"
    "recvOffset s' = recvOffset s" "state s' = state s"
  using assms by (auto simp: Read_def Let_def split: if_splits option.splits prod.splits)

lemma stream_inv_event:
  assumes "stream_inv B sc" and "from_peer B e"
  shows "stream_inv B (on_event e sc)"
proof -
  obtain s c where sc: "sc = (s, c)" by (cases sc)
  have inv: "recv_inv B c s" "fin_inv B s" using assms(1) by (simp_all add: stream_inv_def sc)
  show ?thesis
  proof (cases e)
    case (EvData off d)
    then show ?thesis
      using assms(2) inv recv_inv_deliver fin_inv_deliver by (simp add: stream_inv_def sc)
  next
    case (EvFin final)
    have "fin_inv B (s\<lparr>finSeen := True, finalSize := final\<rparr>)"
      using inv(2) assms(2) EvFin by (simp add: fin_inv_def)
    then have "fin_inv B (DeliverFin final s)"
      unfolding DeliverFin_def using inv(1) by (intro finishLocked_fin) (simp_all add: recv_inv_def)
    then show ?thesis
      using inv(1) EvFin recv_inv_cong [of "DeliverFin final s" s B c]
      by (simp add: stream_inv_def sc DeliverFin_def)
  next
    case (EvRead now n)
    obtain s' cs r where R: "Read now n s = (s', cs, r)" by (metis prod_cases3)
    then show ?thesis
      using inv recv_inv_read [OF inv(1) R] fin_inv_cong [OF Read_fin_fields [OF R]] EvRead
      by (simp add: stream_inv_def sc)
  qed (use inv in \<open>auto simp: stream_inv_def sc recv_inv_def fin_inv_def DeliverReset_def
      OnWindowUpdate_def Close_def Stream_Reset_def SetReadDeadline_def SetWriteDeadline_def Let_def\<close>)
qed

lemma stream_got_prefix:
  assumes "stream_inv B sc"
  shows "snd sc = take (length (snd sc)) B"
proof -
  have eq: "snd sc @ recvBuf (fst sc) = take (unat (recvOffset (fst sc))) B"
    using assms by (simp add: stream_inv_def recv_inv_def)
  then have "length (snd sc) \<le> unat (recvOffset (fst sc))"
    using assms by (metis append_eq_conv_conj length_append length_take le_add1 min.bounded_iff)
  moreover have "snd sc = take (length (snd sc)) (take (unat (recvOffset (fst sc))) B)"
    by (simp flip: eq)
  ultimately show ?thesis by (simp add: min_absorb1)
qed

lemma Read_EOF:
  assumes "snd (snd (Read now n s)) = ReadError EOF"
  shows "recvBuf s = [] \<and> (finReceived s \<or> state s = StreamStateClosed)"
proof (cases "recvBuf s = []")
  case True
  then show ?thesis using assms by (auto simp: Read_def split: if_splits)
next
  case False
  have "\<exists>d. snd (snd (Read now n s)) = ReadData d"
    using False by (simp add: Read_def Let_def split: option.split prod.split)
  then show ?thesis using assms by auto
qed

lemma stream_ended_all: "stream_inv B sc \<Longrightarrow> at_eof sc \<Longrightarrow> snd sc = B"
  by (auto simp: stream_inv_def recv_inv_def fin_inv_def at_eof_def dest!: Read_EOF)

interpretation bs: byte_stream on_event from_peer stream_inv snd at_eof
  using stream_inv_event stream_got_prefix stream_ended_all by unfold_locales

text \<open>
  C4: Whatever the order, duplication and overlap in which chunks of the peer's byte sequence
  \<open>B\<close> arrive, and whatever else happens on the stream in between (FIN, resets, window updates,
  reads, closing), the bytes \<^verbatim>\<open>Read\<close> has returned are a prefix of \<open>B\<close>.
\<close>

theorem stream_reads_prefix:
  assumes "length B < 2 ^ 64" and "\<forall>e \<in> set es. from_peer B e"
  shows "snd (fold on_event es (NewStream i r fc, []))
    = take (length (snd (fold on_event es (NewStream i r fc, [])))) B"
  using bs.run_prefix [OF stream_inv_New [OF assms(1)] assms(2)] .

theorem stream_reads_prefix_witness:
  "snd (fold on_event [EvData 2 [3, 4], EvRead 0 9, EvData 0 [1, 2], EvRead 0 9] (NewStream 1 2 None, []))
     = [1, 2, 3, 4]"
proof -
  let ?es = "[EvData 2 [3, 4], EvRead 0 9, EvData 0 [1, 2], EvRead 0 9]"
  let ?got = "snd (fold on_event ?es (NewStream 1 2 None, []))"
  have len: "length ?got = 4" by code_simp
  have peer: "\<forall>e \<in> set ?es. from_peer [1, 2, 3, 4] e" by (simp add: segment_def)
  have "length [1, 2, 3, 4 :: byte] < 2 ^ 64" by simp
  moreover have "take 4 [1, 2, 3, 4 :: byte] = [1, 2, 3, 4]" by simp
  ultimately show ?thesis
    using stream_reads_prefix [of "[1, 2, 3, 4]" ?es 1 2 None] peer len by metis
qed

text \<open>
  C5: \<^verbatim>\<open>Read\<close> reports the end of the stream only when everything the peer sent was read: a FIN
  that overtakes data, in whatever order they arrive, never truncates the stream.
\<close>

theorem stream_eof_complete:
  assumes "length B < 2 ^ 64" and "\<forall>e \<in> set es. from_peer B e"
    and "at_eof (fold on_event es (NewStream i r fc, []))"
  shows "snd (fold on_event es (NewStream i r fc, [])) = B"
  using bs.run_complete [OF stream_inv_New [OF assms(1)] assms(2,3)] .

theorem stream_eof_complete_witness:
  "snd (fold on_event [EvData 2 [3, 4], EvFin 4, EvData 0 [1, 2], EvRead 0 9] (NewStream 1 2 None, []))
     = [1, 2, 3, 4]"
proof -
  let ?es = "[EvData 2 [3, 4], EvFin 4, EvData 0 [1, 2], EvRead 0 9]"
  have "snd (snd (Read 0 9 (fst (fold on_event ?es (NewStream 1 2 None, []))))) = ReadError EOF"
    by code_simp
  then have "at_eof (fold on_event ?es (NewStream 1 2 None, []))"
    unfolding at_eof_def by blast
  moreover have "\<forall>e \<in> set ?es. from_peer [1, 2, 3, 4] e" by (simp add: segment_def)
  moreover have "length [1, 2, 3, 4 :: byte] < 2 ^ 64" by simp
  ultimately show ?thesis using stream_eof_complete [of "[1, 2, 3, 4]" ?es 1 2 None] by blast
qed

section \<open>Reassembly completes\<close>

text \<open>The chunks a sender cuts its bytes into, each with its offset.\<close>

fun chunks_at :: "nat \<Rightarrow> byte list list \<Rightarrow> (nat \<times> byte list) list" where
  "chunks_at b [] = []"
| "chunks_at b (c # cs) = (b, c) # chunks_at (b + length c) cs"

lemma chunks_at_range:
  "(k, c) \<in> set (chunks_at b cs) \<Longrightarrow> b \<le> k \<and> k + length c \<le> b + length (concat cs)"
  by (induction b cs rule: chunks_at.induct) force+

lemma chunks_at_segment:
  "(k, c) \<in> set (chunks_at b cs) \<Longrightarrow> c = take (length c) (drop (k - b) (concat cs))"
proof (induction b cs rule: chunks_at.induct)
  case (2 b c' cs)
  show ?case
  proof (cases "(k, c) = (b, c')")
    case False
    then have k: "(k, c) \<in> set (chunks_at (b + length c') cs)" using 2(2) by auto
    then have "b + length c' \<le> k" using chunks_at_range by blast
    then show ?thesis using 2(1) [OF k] by simp
  qed simp
qed simp

lemma chunks_at_next:
  assumes "(k, c) \<in> set (chunks_at b cs)"
  shows "k + length c = b + length (concat cs) \<or> k + length c \<in> fst ` set (chunks_at b cs)"
  using assms
proof (induction b cs rule: chunks_at.induct)
  case (2 b c' cs)
  show ?case
  proof (cases "(k, c) = (b, c')")
    case True
    then show ?thesis by (cases cs) auto
  next
    case False
    then show ?thesis using 2 by fastforce
  qed
qed simp

lemma chunks_at_apart:
  assumes "(k, c) \<in> set (chunks_at b cs)" and "(k', c') \<in> set (chunks_at b cs)" and "k < k'"
  shows "k + length c \<le> k'"
  using assms
proof (induction b cs rule: chunks_at.induct)
  case (2 b d cs)
  have "b + length d \<le> j" if "(j, e) \<in> set (chunks_at (b + length d) cs)" for j e
    using that chunks_at_range by blast
  then show ?case using 2 by fastforce
qed simp

lemma chunks_at_fun:
  assumes "[] \<notin> set cs" and "(k, c) \<in> set (chunks_at b cs)" and "(k, c') \<in> set (chunks_at b cs)"
  shows "c = c'"
  using assms
proof (induction b cs rule: chunks_at.induct)
  case (2 b d cs)
  have "b + length d \<le> j" if "(j, e) \<in> set (chunks_at (b + length d) cs)" for j e
    using that chunks_at_range by blast
  moreover have "0 < length d" using 2(2) by auto
  ultimately show ?case using 2 by fastforce
qed simp

lemma chunks_at_nonempty: "(k, c) \<in> set (chunks_at b cs) \<Longrightarrow> [] \<notin> set cs \<Longrightarrow> 0 < length c"
  by (induction b cs rule: chunks_at.induct) auto

text \<open>
  After the chunks at the offsets \<open>D\<close> arrived: \<open>waiting\<close> holds while chunks are being released,
  \<open>settled\<close> after.
\<close>

definition waiting :: "byte list list \<Rightarrow> nat set \<Rightarrow> Stream \<Rightarrow> bool" where
  "waiting cs D s \<longleftrightarrow>
     (unat (recvOffset s) = length (concat cs) \<or> unat (recvOffset s) \<in> fst ` set (chunks_at 0 cs))
     \<and> (\<forall>k d. map_of (recvOOO s) k = Some d \<longleftrightarrow>
          (unat k, d) \<in> set (chunks_at 0 cs) \<and> unat k \<in> D \<and> unat (recvOffset s) \<le> unat k)"

definition settled :: "byte list list \<Rightarrow> nat set \<Rightarrow> Stream \<Rightarrow> bool" where
  "settled cs D s \<longleftrightarrow> waiting cs D s \<and> unat (recvOffset s) \<notin> D"

lemma release_settles:
  assumes cs: "[] \<notin> set cs" "length (concat cs) < 2 ^ 64" "D \<subseteq> fst ` set (chunks_at 0 cs)"
  shows "waiting cs D s \<Longrightarrow> settled cs D (release s)"
proof (induction s rule: release.induct)
  case (1 s)
  let ?K = "set (chunks_at 0 cs)" and ?r = "unat (recvOffset s)"
  show ?case
  proof (cases "map_of (recvOOO s) (recvOffset s)")
    case None
    have "?r \<notin> D"
    proof
      assume "?r \<in> D"
      then obtain d where "(?r, d) \<in> ?K" using cs(3) by auto
      then have "map_of (recvOOO s) (recvOffset s) = Some d"
        using 1(2) \<open>?r \<in> D\<close> by (simp add: waiting_def)
      then show False using None by simp
    qed
    then show ?thesis using 1(2) None by (simp add: settled_def release.simps [of s])
  next
    case (Some chunk)
    then have chunk: "(?r, chunk) \<in> ?K" "?r \<in> D" using 1(2) by (simp_all add: waiting_def)
    have r': "unat (recvOffset s + of_nat (length chunk)) = ?r + length chunk"
      using chunks_at_range [OF chunk(1)] cs(2) by (intro unat_plus_length) simp
    let ?s = "s\<lparr>recvOOO := AList.delete (recvOffset s) (recvOOO s),
        oooBytes := oooBytes s - int (length chunk), recvBuf := recvBuf s @ chunk,
        recvOffset := recvOffset s + of_nat (length chunk)\<rparr>"
    have pos: "0 < length chunk"
      using chunk(1) cs(1) chunks_at_nonempty by blast
    have "?r \<le> unat k \<and> k \<noteq> recvOffset s \<longleftrightarrow> ?r + length chunk \<le> unat k" if "(unat k, d) \<in> ?K" for k d
      using chunks_at_apart [OF chunk(1) that] pos unat_inject [of k "recvOffset s"] by force
    then have "waiting cs D ?s"
      using 1(2) chunks_at_next [OF chunk(1)] r' pos
      by (auto simp: waiting_def delete_conv)
    then show ?thesis using 1(1) [OF Some] Some by (simp add: release.simps [of s])
  qed
qed

lemma place_settles:
  assumes cs: "[] \<notin> set cs" "length (concat cs) < 2 ^ 64" "D \<subseteq> fst ` set (chunks_at 0 cs)"
    and k: "(unat off, d) \<in> set (chunks_at 0 cs)" and st: "settled cs D s"
    and ok: "\<not> flowControlViolation (fst (placeLocked off d s))"
  shows "settled cs (insert (unat off) D) (fst (placeLocked off d s))"
proof -
  let ?K = "set (chunks_at 0 cs)" and ?r = "unat (recvOffset s)"
  let ?fin = "off + of_nat (length d)"
  have fin: "unat ?fin = unat off + length d"
    using chunks_at_range [OF k] cs(2) by (intro unat_plus_length) simp
  have pos: "0 < length d" using chunks_at_nonempty [OF k cs(1)] .
  have bound: "?r = length (concat cs) \<or> ?r \<in> fst ` ?K" and rD: "?r \<notin> D"
    using st by (auto simp: settled_def waiting_def)
  consider "unat off < ?r" | "off = recvOffset s" | "?r < unat off"
    using unat_inject [of off "recvOffset s"] by linarith
  then show ?thesis
  proof cases
    case 1
    have "unat off + length d \<le> ?r"
      using bound chunks_at_range [OF k] chunks_at_apart [OF k _ 1] by auto
    then have "placeLocked off d s = (s, 0)"
      using fin by (simp add: placeLocked_def word_le_nat_alt)
    then show ?thesis using st 1 by (auto simp: settled_def waiting_def)
  next
    case 2
    let ?s = "s\<lparr>recvBuf := recvBuf s @ d, recvOffset := ?fin\<rparr>"
    have eq: "fst (placeLocked off d s) = release ?s"
      using 2 fin pos by (simp add: placeLocked_def word_le_nat_alt Let_def)
    have key: "unat j \<in> insert (unat off) D \<and> unat off + length d \<le> unat j
        \<longleftrightarrow> unat j \<in> D \<and> ?r \<le> unat j" if "(unat j, e) \<in> ?K" for j e
      using chunks_at_apart [OF k that] pos 2 rD by (cases "unat j = ?r") auto
    have "waiting cs (insert (unat off) D) ?s"
      unfolding waiting_def
    proof (intro conjI allI)
      show "unat (recvOffset ?s) = length (concat cs) \<or> unat (recvOffset ?s) \<in> fst ` ?K"
        using chunks_at_next [OF k] fin by simp
      show "map_of (recvOOO ?s) j = Some e \<longleftrightarrow> (unat j, e) \<in> ?K
          \<and> unat j \<in> insert (unat off) D \<and> unat (recvOffset ?s) \<le> unat j" for j e
        using st key [of j e] fin unfolding settled_def waiting_def by simp blast
    qed
    moreover have "unat off \<in> fst ` ?K" using k by force
    ultimately show ?thesis
      using eq release_settles [OF cs(1,2), of "insert (unat off) D" ?s] cs(3) by simp
  next
    case 3
    then have out: "\<not> ?fin \<le> recvOffset s" "recvOffset s < off" "\<not> off < recvOffset s"
      using fin by (simp_all add: word_le_nat_alt word_less_nat_alt)
    show ?thesis
    proof (cases "map_of (recvOOO s) off")
      case (Some d')
      then have "unat off \<in> D" using st by (simp add: settled_def waiting_def)
      then show ?thesis using Some out st by (simp add: placeLocked_def insert_absorb)
    next
      case None
      then have eq: "fst (placeLocked off d s) = s\<lparr>recvOOO := AList.update off d (recvOOO s),
          oooBytes := oooBytes s + int (length d)\<rparr>"
        using out ok by (auto simp: placeLocked_def Let_def split: if_splits)
      have uniq: "(unat off, e) \<in> ?K \<longleftrightarrow> d = e" for e using chunks_at_fun [OF cs(1) _ k] k by blast
      have "map_of (AList.update off d (recvOOO s)) j = Some e \<longleftrightarrow> (unat j, e) \<in> ?K
          \<and> unat j \<in> insert (unat off) D \<and> ?r \<le> unat j" for j e
      proof (cases "j = off")
        case True
        then show ?thesis using 3 by (simp add: update_conv' uniq)
      next
        case False
        then have "unat j \<noteq> unat off" by (simp add: unat_inject)
        then show ?thesis using False st by (simp add: update_conv' settled_def waiting_def)
      qed
      then show ?thesis
        unfolding eq settled_def waiting_def using bound rD 3 by simp
    qed
  qed
qed

lemma DeliverData_violation:
  "flowControlViolation (fst (DeliverData off d s)) = flowControlViolation (fst (placeLocked off d s))"
  by (cases "placeLocked off d s")
    (auto simp: DeliverData_def Stream_Reset_def finishLocked_def Let_def)

lemma place_violation_mono:
  "flowControlViolation s \<Longrightarrow> flowControlViolation (fst (placeLocked off d s))"
  by (simp add: placeLocked_def Let_def)

lemma settled_cong:
  "recvOOO s' = recvOOO s \<Longrightarrow> recvOffset s' = recvOffset s \<Longrightarrow> settled cs D s' = settled cs D s"
  by (simp add: settled_def waiting_def)

text \<open>The frames \<open>ds\<close>, pairs of an offset and data, arrive in this order.\<close>

definition arrive :: "(nat \<times> byte list) list \<Rightarrow> Stream \<Rightarrow> Stream" where
  "arrive ds s = fold (\<lambda>(k, d) s. fst (DeliverData (of_nat k) d s)) ds s"

lemma arrive_violation_mono: "flowControlViolation s \<Longrightarrow> flowControlViolation (arrive ds s)"
  unfolding arrive_def
  by (induction ds arbitrary: s) (auto simp: DeliverData_violation place_violation_mono)

lemma unat_chunk:
  assumes "length (concat cs) < 2 ^ 64" and "(k, d) \<in> set (chunks_at 0 cs)"
  shows "unat (of_nat k :: uint64) = k"
  using chunks_at_range [OF assms(2)] assms(1) by (intro unat_of_nat_less) simp

lemma arrive_settles:
  assumes cs: "[] \<notin> set cs" "length (concat cs) < 2 ^ 64"
    and "set ds \<subseteq> set (chunks_at 0 cs)" and "D \<subseteq> fst ` set (chunks_at 0 cs)"
    and "settled cs D s" and "\<not> flowControlViolation (arrive ds s)"
  shows "settled cs (D \<union> fst ` set ds) (arrive ds s)"
  using assms(3-)
proof (induction ds arbitrary: s D)
  case (Cons kd ds)
  obtain k d where kd: "kd = (k, d)" by (cases kd)
  let ?s = "fst (DeliverData (of_nat k) d s)"
  have K: "(k, d) \<in> set (chunks_at 0 cs)" using Cons.prems(1) kd by auto
  have u: "unat (of_nat k :: uint64) = k" using unat_chunk [OF cs(2) K] .
  have rest: "arrive (kd # ds) s = arrive ds ?s" by (simp add: arrive_def kd)
  have "\<not> flowControlViolation ?s"
    using Cons.prems(4) rest arrive_violation_mono by metis
  then have "settled cs (insert k D) (fst (placeLocked (of_nat k) d s))"
    using place_settles [OF cs Cons.prems(2), of "of_nat k" d s] Cons.prems(3) K u
    by (simp add: DeliverData_violation)
  then have "settled cs (insert k D) ?s"
    using settled_cong [OF DeliverData_recv(2,3)] by blast
  moreover have "k \<in> fst ` set (chunks_at 0 cs)" using K by force
  ultimately show ?case
    using Cons.IH [of "insert k D" ?s] Cons.prems rest by (simp add: kd insert_commute)
qed (simp add: arrive_def)



section \<open>Two things the receive path does not do\<close>


text \<open>
  C37: A reset stream is not final: when the FIN arrives after the reset and nothing is missing,
  \<^verbatim>\<open>finishLocked\<close> moves the stream to the half-closed state and \<^verbatim>\<open>Write\<close> accepts it again.
\<close>

theorem reset_undone_by_fin:
  assumes "state s = StreamStateReset" and "\<not> finReceived s" and "final \<le> recvOffset s"
  shows "state (DeliverFin final s) = StreamStateHalfClosedRemote
    \<and> write_entry (DeliverFin final s) = None"
  using assms by (simp add: DeliverFin_def finishLocked_def write_entry_def)

theorem reset_undone_by_fin_witness:
  "state (DeliverReset 7 (NewStream 1 2 None)) = StreamStateReset
   \<and> state (DeliverFin 0 (DeliverReset 7 (NewStream 1 2 None))) = StreamStateHalfClosedRemote"
  using reset_undone_by_fin [of "DeliverReset 7 (NewStream 1 2 None)" 0]
  by (simp add: DeliverReset_def NewStream_def)

section \<open>Writing tiles the stream\<close>

text \<open>
  One pass of the loop of \<^verbatim>\<open>Write\<close> meets an environment: the time and the datagram size it
  reads, what \<^verbatim>\<open>awaitSendCreditUpTo\<close> grants (\<open>None\<close> when it gives up), and the events that
  happen on the stream while the mutex is released before and after sending.
\<close>

record write_env =
  w_now :: time
  w_mtu :: int
  w_grant :: "int \<Rightarrow> int \<Rightarrow> int option"
  w_between :: "stream_event list"
  w_after :: "stream_event list"

definition meanwhile :: "stream_event list \<Rightarrow> Stream \<Rightarrow> Stream" where
  "meanwhile es s = fst (fold on_event es (s, []))"

text \<open>
  The loop over as many passes as the list has environments; the last component is \<open>None\<close>
  while it still runs, otherwise the byte count and error \<^verbatim>\<open>Write\<close> returns.
\<close>

fun write_loop :: "write_env list \<Rightarrow> byte list \<Rightarrow> int \<Rightarrow> Stream
    \<Rightarrow> Stream \<times> conn_call list \<times> (int \<times> stream_error option) option" where
  "write_loop [] data done_so_far s = (s, [], None)"
| "write_loop (e # es) data done_so_far s =
     (case write_claim (w_now e) (w_mtu e) data s of
        (cs, WriteDone) \<Rightarrow> (s, cs, Some (done_so_far, None))
      | (cs, WriteError err) \<Rightarrow> (s, cs, Some (done_so_far, Some err))
      | (cs, WriteAwait first want deadline isSyn chunkSize) \<Rightarrow>
          (case write_send (if conn s then w_grant e first want else Some want) isSyn chunkSize data
                  (meanwhile (w_between e) s) of
             (s1, cs1, WriteSent n) \<Rightarrow>
               (case write_loop es (drop (nat n) data) (done_so_far + n) (meanwhile (w_after e) s1) of
                  (s2, cs2, r) \<Rightarrow> (s2, cs @ cs1 @ cs2, r))
           | (s1, cs1, WriteError err) \<Rightarrow> (s1, cs @ cs1, Some (done_so_far, Some err))
           | (s1, cs1, _) \<Rightarrow>
               (case write_loop es data done_so_far s1 of (s2, cs2, r) \<Rightarrow> (s2, cs @ cs1 @ cs2, r)))
      | (cs, WriteRetry) \<Rightarrow> (case write_loop es data done_so_far s of (s2, cs2, r) \<Rightarrow> (s2, cs @ cs2, r))
      | (cs, _) \<Rightarrow>
          (case write_loop es data done_so_far (meanwhile (w_after e) s) of
             (s2, cs2, r) \<Rightarrow> (s2, cs @ cs2, r)))"

definition Write :: "write_env list \<Rightarrow> byte list \<Rightarrow> Stream
    \<Rightarrow> Stream \<times> conn_call list \<times> (int \<times> stream_error option) option" where
  "Write es p s = (case write_entry s of Some err \<Rightarrow> (s, [], Some (0, Some err))
                   | None \<Rightarrow> write_loop es p 0 s)"

text \<open>The frames handed to the connection, and that they follow one another from \<open>k\<close> on.\<close>

definition sent_frames :: "conn_call list \<Rightarrow> (uint64 \<times> byte list) list" where
  "sent_frames cs = concat (map (\<lambda>c. case c of
     sendStreamFrames i r off d chunk syn \<Rightarrow> [(off, d)] | _ \<Rightarrow> []) cs)"

fun consecutive :: "int \<Rightarrow> (uint64 \<times> byte list) list \<Rightarrow> bool" where
  "consecutive k [] \<longleftrightarrow> True"
| "consecutive k ((off, d) # fs) \<longleftrightarrow>
     off = word_of_int k \<and> d \<noteq> [] \<and> consecutive (k + int (length d)) fs"

definition within_credit :: "Stream \<Rightarrow> bool" where
  "within_credit s \<longleftrightarrow> (case streamFC s of None \<Rightarrow> True | Some fc \<Rightarrow> dataSent fc \<le> SendLimit fc)"

text \<open>What \<^verbatim>\<open>awaitSendCreditUpTo\<close> promises: at least the first chunk and at most what was asked.\<close>

definition env_ok :: "write_env \<Rightarrow> bool" where
  "env_ok e \<longleftrightarrow> streamChunkOverhead < w_mtu e
     \<and> (\<forall>first want g. first \<le> want \<and> w_grant e first want = Some g \<longrightarrow> first \<le> g \<and> g \<le> want)"

text \<open>What the other operations leave to a writer.\<close>

definition undisturbed :: "Stream \<Rightarrow> Stream \<Rightarrow> bool" where
  "undisturbed s s' \<longleftrightarrow> conn s' = conn s \<and> BytesWritten s' = BytesWritten s
     \<and> (within_credit s \<longrightarrow> within_credit s')"

lemma release_writer [simp]:
  "conn (release s) = conn s" "BytesWritten (release s) = BytesWritten s"
  "streamFC (release s) = streamFC s"
  by (induction s rule: release.induct; subst release.simps; simp split: option.split)+

lemma place_writer:
  "conn (fst (placeLocked off d s)) = conn s"
  "BytesWritten (fst (placeLocked off d s)) = BytesWritten s"
  "streamFC (fst (placeLocked off d s)) = streamFC s"
  by (auto simp: placeLocked_def Let_def)

lemma finishLocked_writer [simp]:
  "conn (finishLocked s) = conn s" "BytesWritten (finishLocked s) = BytesWritten s"
  "streamFC (finishLocked s) = streamFC s"
  by (simp_all add: finishLocked_def Let_def)

lemma DeliverData_undisturbed: "undisturbed s (fst (DeliverData off d s))"
  using place_writer [of off d s]
  by (cases "placeLocked off d s")
    (auto simp: undisturbed_def within_credit_def DeliverData_def Stream_Reset_def Let_def
      Stream_OnDataReceived_def SendLimit_def split: option.splits)

lemma Read_undisturbed:
  assumes "Read now n s = (s', cs, r)"
  shows "undisturbed s s'"
proof -
  have adv: "dataSent (fst (AdvertiseLimit fc)) = dataSent fc"
    "SendLimit (fst (AdvertiseLimit fc)) = SendLimit fc" for fc
    by (simp_all add: AdvertiseLimit_def advertiseLocked_def SendLimit_def Let_def)
  have con: "dataSent (fst (OnDataConsumed k fc)) = dataSent fc"
    "SendLimit (fst (OnDataConsumed k fc)) = SendLimit fc" for k fc
    by (simp_all add: OnDataConsumed_def SendLimit_def Let_def)
  show ?thesis
  proof (cases "recvBuf s = []")
    case True
    then show ?thesis using assms by (auto simp: Read_def undisturbed_def split: if_splits)
  next
    case False
    then show ?thesis
      using assms adv con
      by (auto simp: Read_def Let_def undisturbed_def within_credit_def split: option.splits
          prod.splits if_splits dest!: arg_cong [where f = fst])
  qed
qed

lemma on_event_undisturbed: "undisturbed s (fst (on_event e (s, c)))"
proof (cases e)
  case (EvData off d)
  then show ?thesis using DeliverData_undisturbed by simp
next
  case (EvRead now n)
  obtain s' cs r where R: "Read now n s = (s', cs, r)" by (metis prod_cases3)
  then show ?thesis using Read_undisturbed [OF R] EvRead by simp
next
  case (EvWindow wire)
  then show ?thesis
    by (auto simp: undisturbed_def within_credit_def OnWindowUpdate_def ApplyWindowUpdate_def
        UpdateMaxStreamData_def SendLimit_def Let_def split: option.splits)
qed (auto simp: undisturbed_def within_credit_def DeliverFin_def DeliverReset_def Close_def
    Stream_Reset_def SetReadDeadline_def SetWriteDeadline_def Let_def split: option.splits)

lemma meanwhile_undisturbed: "undisturbed s (meanwhile es s)"
proof -
  have "undisturbed s (fst (fold on_event es (s', c)))" if "undisturbed s s'" for s' c
    using that
  proof (induction es arbitrary: s' c)
    case (Cons e es)
    obtain s1 c1 where e: "on_event e (s', c) = (s1, c1)" by (metis prod.exhaust)
    then have "undisturbed s s1"
      using Cons.prems on_event_undisturbed [of s' e c] by (auto simp: undisturbed_def)
    then show ?case using Cons.IH e by simp
  qed simp
  then show ?thesis unfolding meanwhile_def by (simp add: undisturbed_def)
qed

lemma write_claim_await:
  assumes "write_claim now mtu data s = (cs, WriteAwait first want dl syn chunk)"
    and "streamChunkOverhead < mtu"
  shows "cs = [] \<and> 0 < first \<and> first \<le> want \<and> want \<le> int (length data) \<and> 0 < chunk"
proof -
  have c: "0 < chunkSizeLocked mtu s"
    using assms(2) by (auto simp: chunkSizeLocked_def streamChunkOverhead_def)
  have a: "0 \<le> SendWindowAvailable fc" for fc by (simp add: SendWindowAvailable_def Let_def)
  show ?thesis
    using assms(1) c a
    by (auto simp: write_claim_def Let_def order_le_less split: if_splits option.splits)
qed

lemma write_claim_no_frames: "sent_frames (fst (write_claim now mtu data s)) = []"
  by (auto simp: write_claim_def sent_frames_def Let_def split: option.splits)

lemma write_claim_done: "write_claim now mtu data s = (cs, WriteDone) \<Longrightarrow> data = []"
  by (auto simp: write_claim_def Let_def split: if_splits option.splits)

lemma write_claim_not_sent: "write_claim now mtu data s \<noteq> (cs, WriteSent n)"
  by (auto simp: write_claim_def Let_def split: if_splits option.splits)

lemma write_send_other:
  assumes "write_send g syn chunk data s = (s', cs, out)" and "\<And>n. out \<noteq> WriteSent n"
  shows "s' = s \<and> cs = []"
  using assms by (auto simp: write_send_def Let_def split: if_splits option.splits)

lemma whole_chunks:
  assumes "0 < g" "0 < chunk"
  shows "0 < (if P \<and> chunk < g then g - g mod chunk else g)
    \<and> (if P \<and> chunk < g then g - g mod chunk else g) \<le> (g :: int)"
proof -
  have "g mod chunk < chunk" "0 \<le> g mod chunk" using assms by simp_all
  then have "0 < g - g mod chunk" if "chunk < g" using that by linarith
  then show ?thesis using assms by simp
qed

lemma write_send_sent:
  assumes "write_send (Some g) syn chunk data s = (s', cs, WriteSent n)"
    and "0 < g" "g \<le> int (length data)" "0 < chunk" "conn s" "within_credit s"
  shows "0 < n \<and> n \<le> int (length data) \<and> conn s' \<and> within_credit s'
    \<and> BytesWritten s' = BytesWritten s + n
    \<and> sent_frames cs = [(word_of_int (BytesWritten s), take (nat n) data)]"
proof -
  define h where "h = (case streamFC s of
     Some fc \<Rightarrow> if SendWindowAvailable fc < g then SendWindowAvailable fc else g | None \<Rightarrow> g)"
  have h: "0 \<le> h" "h \<le> g" "\<And>fc. streamFC s = Some fc \<Longrightarrow> h \<le> SendWindowAvailable fc"
    using assms(2) by (auto simp: h_def SendWindowAvailable_def Let_def split: option.splits)
  have h0: "h \<noteq> 0" and n: "n = (if h < int (length data) \<and> chunk < h then h - h mod chunk else h)"
    and s': "conn s' = conn s" "BytesWritten s' = BytesWritten s + n"
      "streamFC s' = map_option (Stream_OnDataSent n) (streamFC s)"
    and cs: "sent_frames cs = [(word_of_int (BytesWritten s), take (nat n) data)]"
    using assms(1,5)
    by (auto simp: write_send_def Let_def h_def [symmetric] sent_frames_def split: if_splits)
  have nh: "0 < n" "n \<le> h" using whole_chunks [of h chunk "h < int (length data)"] h h0 assms(4) n by auto
  have "within_credit s'"
    using assms(6) nh h(3) s'(3)
    by (auto simp: within_credit_def Stream_OnDataSent_def SendLimit_def SendWindowAvailable_def Let_def
        split: option.splits if_splits)
  then show ?thesis using nh h(2) assms(3,5) s' cs by auto
qed

text \<open>What a run of the loop has done with \<open>data\<close>: \<open>n\<close> of its bytes went out.\<close>

definition wrote :: "byte list \<Rightarrow> int \<Rightarrow> Stream
    \<Rightarrow> Stream \<times> conn_call list \<times> (int \<times> stream_error option) option \<Rightarrow> nat \<Rightarrow> bool" where
  "wrote data sofar s res n \<longleftrightarrow> (case res of (s', cs, r) \<Rightarrow>
     n \<le> length data \<and> concat (map snd (sent_frames cs)) = take n data
     \<and> consecutive (BytesWritten s) (sent_frames cs) \<and> BytesWritten s' = BytesWritten s + int n
     \<and> within_credit s'
     \<and> (case r of None \<Rightarrow> True
        | Some (t, err) \<Rightarrow> t = sofar + int n \<and> (err = None \<longrightarrow> n = length data)))"

lemma sent_frames_append [simp]: "sent_frames (cs @ ds) = sent_frames cs @ sent_frames ds"
  by (simp add: sent_frames_def)

lemma wrote_none:
  "within_credit s \<Longrightarrow> sent_frames cs = [] \<Longrightarrow> err = None \<longrightarrow> data = []
    \<Longrightarrow> wrote data sofar s (s, cs, Some (sofar, err)) 0"
  by (simp add: wrote_def)

lemma wrote_later:
  assumes "wrote data sofar s1 (s2, cs2, r) n" and "sent_frames cs = []"
    and "BytesWritten s1 = BytesWritten s"
  shows "wrote data sofar s (s2, cs @ cs2, r) n"
  using assms by (simp add: wrote_def)

lemma wrote_frame:
  assumes "wrote (drop (nat k) data) (sofar + k) s1 (s2, cs2, r) n"
    and "0 < k" "k \<le> int (length data)" "BytesWritten s1 = BytesWritten s + k"
    and "sent_frames cs = [(word_of_int (BytesWritten s), take (nat k) data)]"
  shows "wrote data sofar s (s2, cs @ cs2, r) (nat k + n)"
proof -
  have "take (nat k) data \<noteq> []" using assms(2,3) by (cases data) auto
  moreover have "min (length data) (nat k) = nat k" "int (nat k) = k"
    using assms(2,3) by simp_all
  ultimately show ?thesis
    using assms by (auto simp: wrote_def take_add split: option.splits prod.splits)
qed

lemma write_loop_wrote:
  assumes "\<forall>e \<in> set es. env_ok e" and "conn s" and "within_credit s"
  shows "\<exists>n. wrote data sofar s (write_loop es data sofar s) n"
  using assms
proof (induction es arbitrary: data sofar s)
  case Nil
  then show ?case by (intro exI [of _ 0]) (simp add: wrote_def sent_frames_def)
next
  case (Cons e es)
  have ok: "env_ok e" and IH: "conn s1 \<Longrightarrow> within_credit s1 \<Longrightarrow>
      \<exists>n. wrote data1 sofar1 s1 (write_loop es data1 sofar1 s1) n" for s1 data1 sofar1
    using Cons by simp_all
  obtain cs out where claim: "write_claim (w_now e) (w_mtu e) data s = (cs, out)" by (metis prod.exhaust)
  have nf: "sent_frames cs = []" using write_claim_no_frames claim by (metis fst_conv)
  have again: "\<exists>n. wrote data sofar s (case write_loop es data sofar s1 of (s2, cs2, r) \<Rightarrow> (s2, cs @ cs2, r)) n"
    if "undisturbed s s1" for s1
  proof -
    obtain s2 cs2 r where rec: "write_loop es data sofar s1 = (s2, cs2, r)" by (metis prod_cases3)
    have "conn s1" "within_credit s1" and bw: "BytesWritten s1 = BytesWritten s"
      using that Cons.prems by (simp_all add: undisturbed_def)
    then obtain n where "wrote data sofar s1 (s2, cs2, r) n" using IH rec by metis
    then have "wrote data sofar s (s2, cs @ cs2, r) n" using nf bw by (rule wrote_later)
    then show ?thesis using rec by auto
  qed
  show ?case
  proof (cases out)
    case (WriteAwait first want dl syn chunk)
    note aw = write_claim_await [OF claim [unfolded WriteAwait]]
    let ?s = "meanwhile (w_between e) s" and ?g = "w_grant e first want"
    have between: "undisturbed s ?s" by (rule meanwhile_undisturbed)
    obtain s1 cs1 out1 where send: "write_send ?g syn chunk data ?s = (s1, cs1, out1)"
      by (metis prod_cases3)
    show ?thesis
    proof (cases "\<exists>k. out1 = WriteSent k")
      case False
      then have "s1 = ?s" "cs1 = []" using write_send_other [OF send] by blast+
      then have res: "write_loop (e # es) data sofar s = (case out1 of
          WriteError err \<Rightarrow> (?s, cs, Some (sofar, Some err))
        | _ \<Rightarrow> (case write_loop es data sofar ?s of (s2, cs2, r) \<Rightarrow> (s2, cs @ cs2, r)))"
        using False claim WriteAwait send Cons.prems(2) by (simp split: write_outcome.split)
      have "wrote data sofar s (?s, cs, Some (sofar, Some err)) 0" for err
        using between nf Cons.prems by (simp add: wrote_def undisturbed_def)
      then show ?thesis
        unfolding res using again [OF between] by (cases out1) (simp_all, blast)
    next
      case True
      then obtain k where k: "out1 = WriteSent k" by blast
      then obtain g where g: "?g = Some g" using send by (cases ?g) (auto simp: write_send_def)
      have aw': "0 < first" "first \<le> want" "want \<le> int (length data)" "0 < chunk"
        using aw ok unfolding env_ok_def by blast+
      then have "first \<le> g" "g \<le> want" using ok g unfolding env_ok_def by blast+
      then have gb: "0 < g" "g \<le> int (length data)" "0 < chunk" using aw' by linarith+
      have sent: "0 < k" "k \<le> int (length data)" "conn s1" "within_credit s1"
          "BytesWritten s1 = BytesWritten ?s + k"
          "sent_frames cs1 = [(word_of_int (BytesWritten ?s), take (nat k) data)]"
        using write_send_sent [OF send [unfolded g k] gb] between Cons.prems
        by (simp_all add: undisturbed_def)
      let ?s1 = "meanwhile (w_after e) s1"
      have after: "undisturbed s1 ?s1" by (rule meanwhile_undisturbed)
      obtain s2 cs2 r where rec: "write_loop es (drop (nat k) data) (sofar + k) ?s1 = (s2, cs2, r)"
        by (metis prod_cases3)
      obtain n where "wrote (drop (nat k) data) (sofar + k) ?s1 (s2, cs2, r) n"
        using IH [of ?s1 "drop (nat k) data" "sofar + k"] sent after rec by (auto simp: undisturbed_def)
      then have "wrote data sofar s (s2, (cs @ cs1) @ cs2, r) (nat k + n)"
        using sent between after nf by (intro wrote_frame [where ?s1.0 = ?s1]) (simp_all add: undisturbed_def)
      then show ?thesis using claim WriteAwait send k rec Cons.prems(2) by auto
    qed
  next
    case WriteDone
    then have "data = []" using claim write_claim_done by blast
    then show ?thesis using claim WriteDone nf Cons.prems by (auto intro: wrote_none)
  next
    case (WriteError err)
    then show ?thesis using claim nf Cons.prems by (auto intro: wrote_none)
  next
    case WriteBlocked
    then show ?thesis using claim again [OF meanwhile_undisturbed] by simp
  next
    case WriteRetry
    then show ?thesis using claim again [of s] by (simp add: undisturbed_def)
  next
    case (WriteSent n)
    then show ?thesis using claim write_claim_not_sent by blast
  qed
qed


definition example_env :: write_env where
  "example_env = \<lparr>w_now = 0, w_mtu = 1200, w_grant = (\<lambda>first want. Some want),
     w_between = [EvData 0 [9], EvRead 0 1], w_after = []\<rparr>"


end
