(* ===== verification/Udx_Pmtud.thy ===== *)
theory Udx_Pmtud
  imports Udx_Constants
begin

text \<open>
  Path MTU discovery (\<^verbatim>\<open>pmtud.go\<close>): the search for the largest datagram the path carries and
  the black-hole watch. The clock is the argument \<open>now\<close> of the operations that read it.
\<close>

section \<open>The controller\<close>

record MTUDiscovery =
  current :: int
  probe :: int
  lowFailed :: int
  tries :: int
  inFlight :: bool
  search_done :: bool
  retryAt :: time
  largeLost :: int

definition restartLocked :: "MTUDiscovery \<Rightarrow> MTUDiscovery" where
  "restartLocked m = m\<lparr>probe := MaxDatagramSize, lowFailed := MaxDatagramSize + 1, tries := 0,
     inFlight := False, search_done := False, retryAt := 0, largeLost := 0\<rparr>"

definition NewMTUDiscovery :: MTUDiscovery where
  "NewMTUDiscovery = restartLocked
     \<lparr>current = SafeDatagramSize, probe = 0, lowFailed = 0, tries = 0, inFlight = False,
      search_done = False, retryAt = 0, largeLost = 0\<rparr>"

definition Current :: "MTUDiscovery \<Rightarrow> int" where
  "Current m = current m"

definition Done :: "MTUDiscovery \<Rightarrow> bool" where
  "Done m = search_done m"

definition NextProbe :: "time \<Rightarrow> MTUDiscovery \<Rightarrow> MTUDiscovery \<times> int" where
  "NextProbe now m =
     (if retryAt m \<noteq> 0 \<and> now < retryAt m then (m, 0)
      else let m = (if retryAt m \<noteq> 0 then restartLocked m else m)
           in if search_done m \<or> inFlight m then (m, 0)
              else (m\<lparr>inFlight := True\<rparr>, probe m))"

definition nextLocked :: "MTUDiscovery \<Rightarrow> MTUDiscovery" where
  "nextLocked m =
     (if lowFailed m - current m \<le> MTUSearchStep then m\<lparr>search_done := True, probe := 0\<rparr>
      else m\<lparr>probe := go_div (current m + lowFailed m) 2\<rparr>)"

definition OnProbeAcked :: "int \<Rightarrow> MTUDiscovery \<Rightarrow> MTUDiscovery" where
  "OnProbeAcked sz m =
     (let m = m\<lparr>inFlight := False\<rparr>
      in if retryAt m \<noteq> 0 then m
         else let m = (if sz > current m then m\<lparr>current := sz\<rparr> else m)
              in nextLocked (m\<lparr>tries := 0\<rparr>))"

definition OnProbeLost :: "int \<Rightarrow> MTUDiscovery \<Rightarrow> MTUDiscovery" where
  "OnProbeLost sz m =
     (let m = m\<lparr>inFlight := False\<rparr>
      in if retryAt m \<noteq> 0 then m
         else let m = m\<lparr>tries := tries m + 1\<rparr>
              in if tries m < MTUProbeTries then m
                 else let m = m\<lparr>tries := 0\<rparr>;
                          m = (if sz < lowFailed m then m\<lparr>lowFailed := sz\<rparr> else m)
                      in nextLocked m)"

definition OnDataAcked :: "int \<Rightarrow> MTUDiscovery \<Rightarrow> MTUDiscovery" where
  "OnDataAcked sz m = (if sz > SafeDatagramSize then m\<lparr>largeLost := 0\<rparr> else m)"

definition blackholeLocked :: "time \<Rightarrow> MTUDiscovery \<Rightarrow> MTUDiscovery" where
  "blackholeLocked now m =
     (if current m \<le> SafeDatagramSize then m
      else m\<lparr>current := SafeDatagramSize, probe := 0, search_done := True, inFlight := False,
             largeLost := 0, retryAt := now + BlackholeRetry\<rparr>)"

definition OnDataLost :: "time \<Rightarrow> int \<Rightarrow> MTUDiscovery \<Rightarrow> MTUDiscovery" where
  "OnDataLost now sz m =
     (if current m \<le> SafeDatagramSize \<or> sz \<le> SafeDatagramSize then m
      else let m = m\<lparr>largeLost := largeLost m + 1\<rparr>
           in if largeLost m \<ge> BlackholePackets then blackholeLocked now m else m)"

definition Blackhole :: "time \<Rightarrow> MTUDiscovery \<Rightarrow> MTUDiscovery" where
  "Blackhole now m = blackholeLocked now m"

definition Reset :: "MTUDiscovery \<Rightarrow> MTUDiscovery" where
  "Reset m = restartLocked (m\<lparr>current := SafeDatagramSize\<rparr>)"

section \<open>Every state a connection can drive it into\<close>

text \<open>
  The calls may come in any order: an acknowledgement or loss of a probe may be stale, from
  before a black hole or a reset. Probe sizes are ones \<^verbatim>\<open>NextProbe\<close> can have returned, and the
  clock reads after the zero instant.
\<close>

inductive mtu_step :: "MTUDiscovery \<Rightarrow> MTUDiscovery \<Rightarrow> bool" where
  "mtu_step m (fst (NextProbe now m))"
| "SafeDatagramSize < sz \<Longrightarrow> sz \<le> MaxDatagramSize \<Longrightarrow> mtu_step m (OnProbeAcked sz m)"
| "SafeDatagramSize < sz \<Longrightarrow> sz \<le> MaxDatagramSize \<Longrightarrow> mtu_step m (OnProbeLost sz m)"
| "mtu_step m (OnDataAcked sz m)"
| "0 \<le> now \<Longrightarrow> mtu_step m (OnDataLost now sz m)"
| "0 \<le> now \<Longrightarrow> mtu_step m (Blackhole now m)"
| "mtu_step m (Reset m)"

definition mtu_inv :: "MTUDiscovery \<Rightarrow> bool" where
  "mtu_inv m \<longleftrightarrow> SafeDatagramSize \<le> current m \<and> current m \<le> MaxDatagramSize
     \<and> SafeDatagramSize < lowFailed m \<and> lowFailed m \<le> MaxDatagramSize + 1
     \<and> 0 \<le> tries m \<and> tries m < MTUProbeTries \<and> 0 \<le> largeLost m \<and> largeLost m < BlackholePackets
     \<and> (if search_done m
        then probe m = 0 \<and> (if retryAt m = 0 then lowFailed m - current m \<le> MTUSearchStep
                            else current m = SafeDatagramSize)
        else retryAt m = 0 \<and> current m < probe m \<and> probe m < lowFailed m)"

lemmas mtu_defs = restartLocked_def NewMTUDiscovery_def NextProbe_def nextLocked_def
  OnProbeAcked_def OnProbeLost_def OnDataAcked_def blackholeLocked_def OnDataLost_def
  Blackhole_def Reset_def

lemma go_div_2: "0 \<le> a \<Longrightarrow> go_div a 2 = a div 2"
  by (simp add: go_div_nonneg)

lemma mtu_inv_New: "mtu_inv NewMTUDiscovery"
  by (simp add: mtu_inv_def mtu_defs)

lemma nextLocked_inv:
  assumes "SafeDatagramSize \<le> current m" "current m \<le> MaxDatagramSize"
    and "SafeDatagramSize < lowFailed m" "lowFailed m \<le> MaxDatagramSize + 1"
    and "0 \<le> tries m" "tries m < MTUProbeTries" "0 \<le> largeLost m" "largeLost m < BlackholePackets"
    and "retryAt m = 0" "search_done m \<longrightarrow> lowFailed m - current m \<le> MTUSearchStep"
  shows "mtu_inv (nextLocked m)"
  using assms by (auto simp: mtu_inv_def nextLocked_def go_div_2)

lemma mtu_inv_step: "mtu_step m m' \<Longrightarrow> mtu_inv m \<Longrightarrow> mtu_inv m'"
proof (induction rule: mtu_step.induct)
  case (2 sz m)
  then show ?case
    by (auto simp: OnProbeAcked_def Let_def intro!: nextLocked_inv) (auto simp: mtu_inv_def)
next
  case (3 sz m)
  then show ?case
    by (auto simp: OnProbeLost_def Let_def intro!: nextLocked_inv)
      (auto simp: mtu_inv_def split: if_splits)
qed (auto simp: mtu_inv_def mtu_defs Let_def split: if_splits)

interpretation mtu_run: preserved mtu_step mtu_inv
  by unfold_locales (rule mtu_inv_step)

lemma mtu_reachable_inv: "mtu_step\<^sup>*\<^sup>* NewMTUDiscovery m \<Longrightarrow> mtu_inv m"
  using mtu_run.run mtu_inv_New by blast

text \<open>
  In any order of probe and data events, black holes and resets, stale ones included, the
  size streams use stays between \<^verbatim>\<open>SafeDatagramSize\<close> and \<^verbatim>\<open>MaxDatagramSize\<close>, and \<^verbatim>\<open>NextProbe\<close>
  asks for nothing or for a size above the validated one and within the maximum.
\<close>

lemma mtu_size_bounds:
  assumes "mtu_step\<^sup>*\<^sup>* NewMTUDiscovery m"
  shows "SafeDatagramSize \<le> Current m \<and> Current m \<le> MaxDatagramSize
    \<and> (snd (NextProbe now m) = 0
       \<or> Current m < snd (NextProbe now m) \<and> snd (NextProbe now m) \<le> MaxDatagramSize)"
  using mtu_reachable_inv [OF assms]
  by (auto simp: mtu_inv_def Current_def NextProbe_def restartLocked_def Let_def split: if_splits)

section \<open>The search finds the path's size\<close>

text \<open>One probe over a path that carries datagrams of up to \<open>p\<close> bytes.\<close>

definition probe_once :: "time \<Rightarrow> int \<Rightarrow> MTUDiscovery \<Rightarrow> MTUDiscovery" where
  "probe_once now p m =
     (let (m, sz) = NextProbe now m
      in if sz = 0 then m else if sz \<le> p then OnProbeAcked sz m else OnProbeLost sz m)"

definition search_ok :: "int \<Rightarrow> MTUDiscovery \<Rightarrow> bool" where
  "search_ok p m \<longleftrightarrow> mtu_inv m \<and> retryAt m = 0 \<and> \<not> inFlight m \<and> current m \<le> p
     \<and> (p < lowFailed m \<or> lowFailed m = 1473)
     \<and> (search_done m \<or> 16 < lowFailed m - current m
          \<and> (if lowFailed m = 1473 then current m = 1200 \<and> probe m = 1472
             else probe m = (current m + lowFailed m) div 2))"

text \<open>How many more probes the search takes at most.\<close>

definition halvings :: "int \<Rightarrow> int" where
  "halvings g = (if g \<le> 16 then 0 else if g \<le> 32 then 1 else if g \<le> 64 then 2
     else if g \<le> 128 then 3 else if g \<le> 256 then 4 else 5)"

definition probes_left :: "MTUDiscovery \<Rightarrow> int" where
  "probes_left m = (if search_done m then 0 else if lowFailed m = 1473 then 18 - tries m
     else 3 * halvings (lowFailed m - current m) - tries m)"

lemma halvings_half: "16 < g \<Longrightarrow> g \<le> 272 \<Longrightarrow> h \<le> (g + 1) div 2 \<Longrightarrow> halvings h \<le> halvings g - 1"
  unfolding halvings_def by (cases "h \<le> 16") (auto split: if_splits)

lemma search_ok_New: "1200 \<le> p \<Longrightarrow> search_ok p NewMTUDiscovery"
  using mtu_inv_New by (simp add: search_ok_def mtu_defs)

lemma probe_once_done: "search_ok p m \<Longrightarrow> search_done m \<Longrightarrow> probe_once now p m = m"
  by (simp add: probe_once_def NextProbe_def search_ok_def)

lemma probe_once_acked:
  assumes "search_ok p m" and "\<not> search_done m" and "probe m \<le> p"
  shows "probe_once now p m = nextLocked (m\<lparr>inFlight := False, current := probe m, tries := 0\<rparr>)"
  using assms
  by (auto simp: probe_once_def NextProbe_def OnProbeAcked_def search_ok_def mtu_inv_def Let_def)

lemma probe_once_lost:
  assumes "search_ok p m" and "\<not> search_done m" and "\<not> probe m \<le> p"
  shows "probe_once now p m =
    (if tries m < 2 then m\<lparr>inFlight := False, tries := tries m + 1\<rparr>
     else nextLocked (m\<lparr>inFlight := False, tries := 0, lowFailed := probe m\<rparr>))"
  using assms
  by (auto simp: probe_once_def NextProbe_def OnProbeLost_def search_ok_def mtu_inv_def Let_def)

lemma probe_once_step:
  assumes ok: "search_ok p m" and going: "\<not> search_done m"
  shows "search_ok p (probe_once now p m) \<and> probes_left (probe_once now p m) \<le> probes_left m - 1"
proof -
  have b: "1200 \<le> current m" "current m < probe m" "probe m < lowFailed m" "lowFailed m \<le> 1473"
      "0 \<le> tries m" "tries m < 3" "current m \<le> p" "retryAt m = 0" "\<not> inFlight m"
      "0 \<le> largeLost m" "largeLost m < 3" "p < lowFailed m \<or> lowFailed m = 1473"
    using assms by (auto simp: search_ok_def mtu_inv_def)
  show ?thesis
  proof (cases "lowFailed m = 1473")
    case True
    then have "current m = 1200" "probe m = 1472" using assms by (auto simp: search_ok_def)
    then show ?thesis
      using assms b True
      by (cases "probe m \<le> p")
        (auto simp: probe_once_acked probe_once_lost nextLocked_def search_ok_def mtu_inv_def
          probes_left_def halvings_def go_div_2)
  next
    case False
    then have mid: "probe m = (current m + lowFailed m) div 2" and "p < lowFailed m"
      using assms by (auto simp: search_ok_def)
    have wide: "16 < lowFailed m - current m" using assms by (auto simp: search_ok_def)
    have "halvings (lowFailed m - probe m) \<le> halvings (lowFailed m - current m) - 1"
         "halvings (probe m - current m) \<le> halvings (lowFailed m - current m) - 1"
      using wide b mid False by (intro halvings_half; linarith)+
    moreover have "1 \<le> halvings (lowFailed m - current m)" using wide by (simp add: halvings_def)
    ultimately show ?thesis
      using assms b False mid \<open>p < lowFailed m\<close> wide
      by (cases "probe m \<le> p")
        (auto simp: probe_once_acked probe_once_lost nextLocked_def search_ok_def mtu_inv_def
          probes_left_def go_div_2)
  qed
qed

lemma probes_left_pos: "search_ok p m \<Longrightarrow> \<not> search_done m \<Longrightarrow> 0 < probes_left m"
  by (auto simp: search_ok_def mtu_inv_def probes_left_def halvings_def)

lemma search_runs:
  "search_ok p m \<Longrightarrow> probes_left m \<le> int n
    \<Longrightarrow> search_ok p ((probe_once now p ^^ n) m) \<and> search_done ((probe_once now p ^^ n) m)"
proof (induction n arbitrary: m)
  case 0
  then show ?case using probes_left_pos by fastforce
next
  case (Suc n)
  show ?case
  proof (cases "search_done m")
    case True
    then have "(probe_once now p ^^ k) m = m" for k
      using Suc.prems probe_once_done by (induction k) simp_all
    then show ?thesis using True Suc.prems(1) by metis
  next
    case False
    then show ?thesis
      using probe_once_step [OF Suc.prems(1) False, of now] Suc.prems(2)
        Suc.IH [of "probe_once now p m"]
      by (simp add: funpow_swap1)
  qed
qed

text \<open>
  C20: Over a path that carries datagrams of up to \<open>p\<close> bytes, the search ends after at most 18
  probes with a validated size the path carries, within \<^verbatim>\<open>MTUSearchStep\<close> of the best one.
\<close>

theorem search_finds_path_mtu:
  assumes "SafeDatagramSize \<le> p"
  shows "Done ((probe_once now p ^^ 18) NewMTUDiscovery)
    \<and> Current ((probe_once now p ^^ 18) NewMTUDiscovery) \<le> p
    \<and> min p MaxDatagramSize - Current ((probe_once now p ^^ 18) NewMTUDiscovery) < MTUSearchStep"
proof -
  have "probes_left NewMTUDiscovery = 18" by (simp add: probes_left_def mtu_defs)
  then have "search_ok p ((probe_once now p ^^ 18) NewMTUDiscovery)"
      "search_done ((probe_once now p ^^ 18) NewMTUDiscovery)"
    using search_runs [OF search_ok_New, of p 18 now] assms by simp_all
  then show ?thesis by (auto simp: search_ok_def mtu_inv_def Done_def Current_def)
qed

theorem search_finds_path_mtu_witness:
  "Done ((probe_once 1 1400 ^^ 18) NewMTUDiscovery)
   \<and> 1384 < Current ((probe_once 1 1400 ^^ 18) NewMTUDiscovery)
   \<and> Current ((probe_once 1 1400 ^^ 18) NewMTUDiscovery) \<le> 1400"
  using search_finds_path_mtu [of 1400 1] by simp

section \<open>Black holes\<close>

datatype data_event = Acked int | Lost int

fun on_data :: "time \<Rightarrow> data_event \<Rightarrow> MTUDiscovery \<Rightarrow> MTUDiscovery" where
  "on_data now (Acked sz) m = OnDataAcked sz m"
| "on_data now (Lost sz) m = OnDataLost now sz m"

fun large_loss :: "data_event \<Rightarrow> bool" where
  "large_loss (Lost sz) \<longleftrightarrow> sz > SafeDatagramSize"
| "large_loss (Acked sz) \<longleftrightarrow> False"

fun large_ack :: "data_event \<Rightarrow> bool" where
  "large_ack (Acked sz) \<longleftrightarrow> sz > SafeDatagramSize"
| "large_ack (Lost sz) \<longleftrightarrow> False"

lemma on_data_inv: "0 \<le> now \<Longrightarrow> mtu_inv m \<Longrightarrow> mtu_inv (on_data now e m)"
  by (cases e) (auto intro: mtu_inv_step mtu_step.intros)

lemma on_data_counts:
  assumes "mtu_inv m" and "\<not> large_ack e"
  shows "current (on_data now e m) = SafeDatagramSize
     \<or> current (on_data now e m) = current m
       \<and> largeLost (on_data now e m) = largeLost m + (if large_loss e then 1 else 0)"
  using assms
  by (cases e) (auto simp: mtu_inv_def OnDataAcked_def OnDataLost_def blackholeLocked_def Let_def)

lemma on_data_safe: "mtu_inv m \<Longrightarrow> current m = SafeDatagramSize \<Longrightarrow>
    current (on_data now e m) = SafeDatagramSize"
  by (cases e) (auto simp: OnDataAcked_def OnDataLost_def)

lemma fold_on_data:
  assumes "0 \<le> now" and "mtu_inv m" and "\<forall>e \<in> set es. \<not> large_ack e"
    and "current (fold (on_data now) es m) \<noteq> SafeDatagramSize"
  shows "int (length (filter large_loss es)) + largeLost m
    = largeLost (fold (on_data now) es m) \<and> mtu_inv (fold (on_data now) es m)"
  using assms
proof (induction es arbitrary: m)
  case (Cons e es)
  have inv: "mtu_inv (on_data now e m)" using Cons.prems on_data_inv by blast
  have "current (on_data now e m) \<noteq> SafeDatagramSize"
  proof
    assume *: "current (on_data now e m) = SafeDatagramSize"
    have "current (fold (on_data now) es' m') = SafeDatagramSize"
      if "mtu_inv m'" "current m' = SafeDatagramSize" for es' m'
      using that Cons.prems(1) by (induction es' arbitrary: m') (simp_all add: on_data_inv on_data_safe)
    then show False using Cons.prems(4) inv * by simp
  qed
  then show ?case
    using on_data_counts [of m e now] Cons.prems Cons.IH [OF Cons.prems(1) inv] by auto
qed simp

text \<open>
  Once \<^verbatim>\<open>BlackholePackets\<close> full-size data packets are lost with no full-size one acknowledged
  among them (small packets may come and go), the size is back at \<^verbatim>\<open>SafeDatagramSize\<close>.
\<close>

lemma blackhole_detected:
  assumes "mtu_step\<^sup>*\<^sup>* NewMTUDiscovery m" and "0 \<le> now"
    and "\<forall>e \<in> set es. \<not> large_ack e"
    and "BlackholePackets \<le> int (length (filter large_loss es))"
  shows "Current (fold (on_data now) es m) = SafeDatagramSize"
proof (rule ccontr)
  assume "\<not> ?thesis"
  then have "int (length (filter large_loss es)) + largeLost m = largeLost (fold (on_data now) es m)"
      "mtu_inv (fold (on_data now) es m)"
    using fold_on_data [OF assms(2) mtu_reachable_inv [OF assms(1)] assms(3)]
    by (simp_all add: Current_def)
  then show False
    using assms(4) mtu_reachable_inv [OF assms(1)] by (auto simp: mtu_inv_def)
qed

end
