(* ===== verification/Udx_Connection.thy ===== *)
theory Udx_Connection
  imports Udx_Packet_Manager Udx_Stream Udx_Pmtud
begin

text \<open>
  A connection (\<^verbatim>\<open>connection.go\<close>): it owns the streams and the components of the other theories,
  turns their calls into packets and dispatches the frames that arrive. A handler is one function
  on the state; the clock is the argument \<open>now\<close>, what \<^verbatim>\<open>crypto/rand\<close> returns is an argument, a
  timer is the instant it fires at, and \<open>outbox\<close> lists what \<^verbatim>\<open>sendFunc\<close> was given, in order. A
  stream is never removed from the map, so its local ID stands for the pointer to it. An address
  is its \<^verbatim>\<open>String()\<close>. A panic of the encoder sets \<open>panicked\<close>.
\<close>

section \<open>State\<close>

type_synonym addr = string

datatype ConnectionState =
    ConnStateNew
  | ConnStateHandshaking
  | ConnStateEstablished
  | ConnStateClosing
  | ConnStateClosed

record Connection =
  localCID :: ConnectionID
  remoteCID :: ConnectionID
  localAddr :: addr
  remoteAddr :: "addr option"
  c_state :: ConnectionState
  streams :: "(uint32 \<times> Stream) list"
  nextStreamID :: uint32
  isInitiator :: bool
  maxStreams :: int
  incomingStreams :: "uint32 list"
  c_cc :: CongestionController
  c_pm :: PacketManager
  c_fc :: FlowController
  c_mtu :: MTUDiscovery
  ackedLarge :: bool
  pathChallenge :: "byte list"
  pathChallengeResp :: "byte list option"
  pendingAddr :: "addr option"
  pendingChallenge :: "byte list"
  pendingSentAt :: time
  recvd :: recvTracker
  ackPending :: int
  ackTimer :: "(time \<times> uint32 \<times> uint32) option"
  largestArrival :: time
  bytesSent :: int
  bytesReceived :: int
  addrValidated :: bool
  inbound :: "Packet list"
  inboundDropped :: int
  lostQueue :: "packet_ptr list"
  lostTimer :: "time option"
  lastActivity :: time
  idleTimer :: "time option"
  closeCh :: bool
  onCloseCalled :: bool
  nextCell :: packet_ptr
  outbox :: "(byte list \<times> addr option) list"
  panicked :: bool

definition idleCheckInterval :: duration where [simp]: "idleCheckInterval = second"
definition pathChallengeRetry :: duration where [simp]: "pathChallengeRetry = second"

section \<open>Sending\<close>

definition upd_cc :: "(CongestionController \<Rightarrow> CongestionController) \<Rightarrow> Connection \<Rightarrow> Connection" where
  "upd_cc f c = c\<lparr>c_cc := f (c_cc c)\<rparr>"

definition upd_pacer :: "(PacingController \<Rightarrow> PacingController) \<Rightarrow> Connection \<Rightarrow> Connection" where
  "upd_pacer f c = upd_cc (\<lambda>cc. cc\<lparr>Pacer := f (Pacer cc)\<rparr>) c"

definition upd_pm :: "(PacketManager \<Rightarrow> PacketManager) \<Rightarrow> Connection \<Rightarrow> Connection" where
  "upd_pm f c = c\<lparr>c_pm := f (c_pm c)\<rparr>"

definition upd_mtu :: "(MTUDiscovery \<Rightarrow> MTUDiscovery) \<Rightarrow> Connection \<Rightarrow> Connection" where
  "upd_mtu f c = c\<lparr>c_mtu := f (c_mtu c)\<rparr>"

definition upd_stream :: "uint32 \<Rightarrow> (Stream \<Rightarrow> Stream) \<Rightarrow> Connection \<Rightarrow> Connection" where
  "upd_stream k f c = c\<lparr>streams := map (\<lambda>(j, s). (j, if j = k then f s else s)) (streams c)\<rparr>"

text \<open>Allocation of a \<^verbatim>\<open>SentPacket\<close>.\<close>

definition new_packet :: "SentPacket \<Rightarrow> Connection \<Rightarrow> packet_ptr \<times> Connection" where
  "new_packet pkt c =
     (nextCell c, c\<lparr>nextCell := nextCell c + 1,
        c_pm := (c_pm c)\<lparr>cells := (cells (c_pm c))(nextCell c := pkt)\<rparr>\<rparr>)"

definition sent_packet :: "uint32 \<Rightarrow> int \<Rightarrow> Frame list \<Rightarrow> uint32 \<Rightarrow> uint32 \<Rightarrow> SentPacket" where
  "sent_packet seq sz frames dst src =
     \<lparr>sp_Sequence = seq, SentTime = 0, FirstSentTime = 0, sp_Size = sz, IsAcked = False, sp_Frames = frames,
      sp_DestinationStreamID = dst, sp_SourceStreamID = src, RetransmitCount = 0, Probe = False,
      LastRetransmit = 0\<rparr>"

definition conn_packet :: "Connection \<Rightarrow> uint32 \<Rightarrow> uint32 \<Rightarrow> uint32 \<Rightarrow> Frame list \<Rightarrow> Packet" where
  "conn_packet c seq dst src frames =
     \<lparr>Version = VersionCurrent, DestinationCID = remoteCID c, SourceCID = localCID c, Sequence = seq,
      DestinationStreamID = dst, SourceStreamID = src, Frames = frames,
      Packet_SentTime = 0, Packet_IsAcked = False, wireLen = 0\<rparr>"

definition encode :: "Packet \<Rightarrow> Connection \<Rightarrow> byte list \<times> Connection" where
  "encode pkt c = (case MarshalPacket pkt of Inr bs \<Rightarrow> (bs, c) | Inl _ \<Rightarrow> ([], c\<lparr>panicked := True\<rparr>))"

definition put_wire :: "byte list \<Rightarrow> addr option \<Rightarrow> Connection \<Rightarrow> Connection" where
  "put_wire data a c = c\<lparr>outbox := outbox c @ [(data, a)]\<rparr>"

fun data_frame :: "Frame \<Rightarrow> bool" where
  "data_frame (Frame.Stream f) \<longleftrightarrow> length (Data f) > 0 \<or> IsSyn f \<or> IsFin f"
| "data_frame _ \<longleftrightarrow> False"

definition isDataBearing :: "Packet \<Rightarrow> bool" where
  "isDataBearing pkt \<longleftrightarrow> list_ex data_frame (Frames pkt)"

definition amplification_blocked :: "int \<Rightarrow> Connection \<Rightarrow> bool" where
  "amplification_blocked n c \<longleftrightarrow> \<not> addrValidated c \<and> bytesSent c + n > bytesReceived c * AmplificationFactor"

definition sendPacket :: "time \<Rightarrow> uint32 \<Rightarrow> uint32 \<Rightarrow> Frame list \<Rightarrow> Connection \<Rightarrow> Connection" where
  "sendPacket now dst src frames c =
     (let hasData = list_ex data_frame frames;
          (seq, c) = (if hasData
                      then let (seq, pm) = NextSequence (c_pm c) in (seq, c\<lparr>c_pm := pm\<rparr>)
                      else (0, c));
          (data, c) = encode (conn_packet c seq dst src frames) c;
          n = int (length data);
          c = (if hasData
               then let (p, c) = new_packet (sent_packet seq n frames dst src) c
                    in upd_cc (CC_OnPacketSent now n) (upd_pm (SendPacket now p) c)
               else c)
      in if amplification_blocked n c then c
         else put_wire data (remoteAddr c) (c\<lparr>bytesSent := bytesSent c + n\<rparr>))"

definition sendFrames :: "time \<Rightarrow> Frame list \<Rightarrow> Connection \<Rightarrow> Connection" where
  "sendFrames now frames c = sendPacket now 0 0 frames c"

definition retransmitPacket :: "packet_ptr \<Rightarrow> uint32 \<Rightarrow> Connection \<Rightarrow> Connection" where
  "retransmitPacket p seq c =
     (let pkt = cells (c_pm c) p;
          (data, c) = encode (conn_packet c seq (sp_DestinationStreamID pkt) (sp_SourceStreamID pkt) (sp_Frames pkt)) c
      in put_wire data (remoteAddr c) (c\<lparr>bytesSent := bytesSent c + int (length data)\<rparr>))"

definition prepareDataPacket ::
    "time \<Rightarrow> uint32 \<Rightarrow> uint32 \<Rightarrow> Frame list \<Rightarrow> Connection \<Rightarrow> Connection \<times> byte list option" where
  "prepareDataPacket now dst src frames c =
     (let (seq, pm) = NextSequence (c_pm c);
          c = c\<lparr>c_pm := pm\<rparr>;
          (data, c) = encode (conn_packet c seq dst src frames) c;
          n = int (length data);
          (p, c) = new_packet (sent_packet seq n frames dst src) c;
          c = upd_pm (SendPacket now p) c;
          c = upd_cc (CC_OnPacketSent now n) c;
          c = upd_pacer (Pacer_OnPacketSent now n) c
      in if amplification_blocked n c then (c, None)
         else (c\<lparr>bytesSent := bytesSent c + n\<rparr>, Some data))"

definition writeDatagrams :: "byte list list \<Rightarrow> Connection \<Rightarrow> Connection" where
  "writeDatagrams bufs c = fold (\<lambda>b c. put_wire b (remoteAddr c) c) bufs c"

text \<open>
  The frames data is cut into, by \<^verbatim>\<open>sendStreamFrames\<close> (which never sets FIN) and by \<^verbatim>\<open>fitToPath\<close>:
  SYN on the first, FIN on the last.
\<close>

function piece_frames :: "nat \<Rightarrow> uint64 \<Rightarrow> byte list \<Rightarrow> bool \<Rightarrow> bool \<Rightarrow> StreamFrame list" where
  "piece_frames k off data isSyn isFin =
     (if data = [] \<or> k = 0 then []
      else \<lparr>IsFin = isFin \<and> length data \<le> k, IsSyn = isSyn, Offset = off, Data = take k data\<rparr>
           # piece_frames k (off + of_nat (min k (length data))) (drop k data) False isFin)"
  by pat_completeness auto

termination piece_frames
  by (relation "measure (\<lambda>(k, off, data, isSyn, isFin). length data)") auto

declare piece_frames.simps [simp del]

text \<open>
  \<^verbatim>\<open>sendStreamFrames\<close>. A chunk size that is not positive (a division by zero or a slice out of
  bounds there) is a panic.
\<close>

definition sendStreamFrames_conn ::
    "time \<Rightarrow> uint32 \<Rightarrow> uint32 \<Rightarrow> uint64 \<Rightarrow> byte list \<Rightarrow> int \<Rightarrow> bool \<Rightarrow> Connection \<Rightarrow> Connection" where
  "sendStreamFrames_conn now streamID remoteID off data chunkSize isSyn c =
     (if chunkSize \<le> 0 then c\<lparr>panicked := True\<rparr>
      else let (c, bufs) = fold (\<lambda>f (c, bufs).
                 case prepareDataPacket now remoteID streamID [Frame.Stream f] c of
                   (c, Some buf) \<Rightarrow> (c, bufs @ [buf])
                 | (c, None) \<Rightarrow> (c, bufs)) (piece_frames (nat chunkSize) off data isSyn False) (c, [])
           in writeDatagrams bufs c)"

text \<open>The calls a stream makes on its connection (the interface \<^verbatim>\<open>streamConn\<close>).\<close>

fun run_call :: "time \<Rightarrow> conn_call \<Rightarrow> Connection \<Rightarrow> Connection" where
  "run_call now (sendStreamFrame sid rid off data isFin isSyn) c =
     sendPacket now rid sid [Frame.Stream \<lparr>IsFin = isFin, IsSyn = isSyn, Offset = off, Data = data\<rparr>] c"
| "run_call now (sendStreamFrames sid rid off data chunkSize isSyn) c =
     sendStreamFrames_conn now sid rid off data chunkSize isSyn c"
| "run_call now (sendResetStream sid rid code) c = sendPacket now rid sid [ResetStreamFrame code] c"
| "run_call now (sendWindowUpdate sid rid limit) c =
     sendPacket now rid sid [WindowUpdateFrame (word_of_int limit)] c"
| "run_call now (sendStreamDataBlocked sid rid limit) c =
     sendPacket now rid sid [StreamDataBlockedFrame sid (word_of_int limit)] c"

definition run_calls :: "time \<Rightarrow> conn_call list \<Rightarrow> Connection \<Rightarrow> Connection" where
  "run_calls now calls c = fold (run_call now) calls c"

section \<open>Fitting the path, loss and probes\<close>

definition frame_size :: "packet_ptr \<Rightarrow> StreamFrame \<Rightarrow> Connection \<Rightarrow> int \<times> Connection" where
  "frame_size p f c =
     (let pkt = cells (c_pm c) p;
          (data, c) = encode (conn_packet c 0 (sp_DestinationStreamID pkt) (sp_SourceStreamID pkt) [Frame.Stream f]) c
      in (int (length data), c))"

definition add_piece :: "packet_ptr \<Rightarrow> StreamFrame \<Rightarrow> packet_ptr list \<times> Connection \<Rightarrow> packet_ptr list \<times> Connection" where
  "add_piece p f s = (case s of (pieces, c) \<Rightarrow>
     let pkt = cells (c_pm c) p;
         (n, c) = frame_size p f c;
         (q, c) = new_packet ((sent_packet 0 n [Frame.Stream f] (sp_DestinationStreamID pkt) (sp_SourceStreamID pkt))
                    \<lparr>FirstSentTime := FirstSentTime pkt, RetransmitCount := RetransmitCount pkt\<rparr>) c
     in (pieces @ [q], c))"

definition fitToPath :: "packet_ptr \<Rightarrow> Connection \<Rightarrow> packet_ptr list \<times> Connection" where
  "fitToPath p c =
     (let limit = Current (c_mtu c); pkt = cells (c_pm c) p
      in if sp_Size pkt \<le> limit then ([p], c)
         else case sp_Frames pkt of
           [Frame.Stream sf] \<Rightarrow>
             let (n, c) = frame_size p \<lparr>IsFin = False, IsSyn = IsSyn sf, Offset = Offset sf, Data = []\<rparr> c;
                 piece = limit - n
             in if piece \<le> 0 \<or> piece \<ge> int (length (Data sf)) then ([p], c)
                else fold (add_piece p) (piece_frames (nat piece) (Offset sf) (Data sf) (IsSyn sf) (IsFin sf))
                       ([], upd_pm (Drop p) c)
         | _ \<Rightarrow> ([p], c))"

definition probe_piece :: "time \<Rightarrow> packet_ptr \<Rightarrow> Connection \<Rightarrow> Connection" where
  "probe_piece now q c =
     (case Resend now q (c_pm c) of
        (pm, None) \<Rightarrow> c\<lparr>c_pm := pm\<rparr>
      | (pm, Some seq) \<Rightarrow>
          let c = retransmitPacket q seq (c\<lparr>c_pm := pm\<rparr>)
          in upd_pacer (Pacer_OnPacketSent now (sp_Size (cells (c_pm c) q))) c)"

definition onPTO :: "time \<Rightarrow> Connection \<Rightarrow> Connection" where
  "onPTO now c =
     (let c = (if ptoCount (c_cc c) \<ge> BlackholePTOs then upd_mtu (Blackhole now) c else c)
      in fold (\<lambda>p c. let (pieces, c) = fitToPath p c in fold (probe_piece now) pieces c)
           (OldestUnacked ptoProbes (c_pm c)) c)"

text \<open>The PTO timer of the controller, with \<^verbatim>\<open>onPTO\<close> as its \<^verbatim>\<open>OnProbe\<close>.\<close>

definition ptoTimerFired :: "time \<Rightarrow> Connection \<Rightarrow> Connection" where
  "ptoTimerFired now c =
     (let c' = onPTO now (upd_cc (\<lambda>cc. cc\<lparr>ptoCount := ptoCount cc + 1, ptoTimer := None\<rparr>) c)
      in c'\<lparr>c_cc := onPtoTimeout now (\<lambda>_. c_cc c') (c_cc c)\<rparr>)"

text \<open>
  One round of the loop of \<^verbatim>\<open>flushLost\<close>, with \<open>p\<close> at the head of the queue, and whether the loop
  goes on.
\<close>

definition resend_lost :: "time \<Rightarrow> packet_ptr \<Rightarrow> Connection \<Rightarrow> Connection" where
  "resend_lost now p c =
     (case Resend now p (c_pm c) of
        (pm, None) \<Rightarrow> c\<lparr>c_pm := pm\<rparr>
      | (pm, Some seq) \<Rightarrow>
          let c = c\<lparr>c_pm := pm\<rparr>;
              k = sp_Size (cells pm p);
              c = upd_cc (CC_OnPacketSent now k) c;
              c = upd_pacer (Pacer_OnPacketSent now k) c
          in retransmitPacket p seq c)"

definition flush_round :: "go_math \<Rightarrow> time \<Rightarrow> packet_ptr \<Rightarrow> packet_ptr list \<Rightarrow> Connection \<Rightarrow> Connection \<times> bool" where
  "flush_round gm now p rest c =
     (if closeCh c then (c\<lparr>lostQueue := []\<rparr>, False)
      else if IsAcked (cells (c_pm c) p) then (c\<lparr>lostQueue := rest\<rparr>, True)
      else let (pieces, c) = (if sp_Size (cells (c_pm c) p) > Current (c_mtu c) then fitToPath p c else ([p], c))
           in if length pieces > 1 then (c\<lparr>lostQueue := pieces @ rest\<rparr>, True)
              else let wait = TimeUntilSend gm now (Pacer (c_cc c))
                   in if wait > 0 then (c\<lparr>lostTimer := Some (now + wait)\<rparr>, False)
                      else if \<not> CC_CanSend (sp_Size (cells (c_pm c) p)) (c_cc c) then (c, False)
                      else (resend_lost now p (c\<lparr>lostQueue := rest\<rparr>), True))"

text \<open>
  Each round takes the head off the queue or replaces it by two or more shorter pieces, so
  \<open>2 * bytes + 1\<close> rounds per packet are enough.
\<close>

fun flush_loop :: "nat \<Rightarrow> go_math \<Rightarrow> time \<Rightarrow> Connection \<Rightarrow> Connection" where
  "flush_loop 0 gm now c = c"
| "flush_loop (Suc n) gm now c =
     (case lostQueue c of
        [] \<Rightarrow> c
      | p # rest \<Rightarrow> let (c, more) = flush_round gm now p rest c
                    in if more then flush_loop n gm now c else c)"

definition frame_bytes_of :: "Frame list \<Rightarrow> nat" where
  "frame_bytes_of fs = (case fs of [Frame.Stream f] \<Rightarrow> length (Data f) | _ \<Rightarrow> 0)"

definition flush_rounds :: "Connection \<Rightarrow> nat" where
  "flush_rounds c = sum_list (map (\<lambda>p. 2 * frame_bytes_of (sp_Frames (cells (c_pm c) p)) + 1) (lostQueue c))"

definition flushLost :: "go_math \<Rightarrow> time \<Rightarrow> Connection \<Rightarrow> Connection" where
  "flushLost gm now c = (let c = c\<lparr>lostTimer := None\<rparr> in flush_loop (flush_rounds c) gm now c)"

definition note_lost :: "time \<Rightarrow> bool \<Rightarrow> SentPacket \<Rightarrow> MTUDiscovery \<Rightarrow> MTUDiscovery" where
  "note_lost now countLarge pkt m =
     (if Probe pkt then OnProbeLost (sp_Size pkt) m
      else if countLarge then OnDataLost now (sp_Size pkt) m else m)"

definition onPacketsLost :: "go_math \<Rightarrow> time \<Rightarrow> packet_ptr list \<Rightarrow> Connection \<Rightarrow> Connection" where
  "onPacketsLost gm now lost c =
     (let mem = cells (c_pm c);
          c = upd_mtu (fold (\<lambda>p. note_lost now (\<not> ackedLarge c) (mem p)) lost) c;
          lost = filter (\<lambda>p. \<not> Probe (mem p)) lost
      in if lost = [] then c
         else let bytes = sum_list (map (\<lambda>p. sp_Size (mem p)) lost);
                  c = upd_cc (OnPacketLost gm now (Some (lastSentSeq (c_pm c))) bytes) c;
                  oldest = mem (hd lost); newest = mem (last lost);
                  c = (if HasRttSample (c_cc c)
                          \<and> time_sub (SentTime newest) (SentTime oldest) \<ge> PersistentCongestionDuration (c_cc c)
                          \<and> ackBeforeLoss (c_pm c) < SentTime oldest
                       then upd_cc OnPersistentCongestion c else c)
              in flushLost gm now (c\<lparr>lostQueue := lostQueue c @ lost\<rparr>))"

definition detect_conn :: "go_math \<Rightarrow> time \<Rightarrow> Connection \<Rightarrow> Connection" where
  "detect_conn gm now c =
     (let (pm, lost) = DetectLostPackets now (c_cc c) (c_pm c); c = c\<lparr>c_pm := pm\<rparr>
      in if lost \<noteq> [] then onPacketsLost gm now lost c else c)"

definition lossTimerFired :: "go_math \<Rightarrow> time \<Rightarrow> Connection \<Rightarrow> Connection" where
  "lossTimerFired gm now c =
     (let (pm, lost) = onLossTimer now (c_cc c) (c_pm c); c = c\<lparr>c_pm := pm\<rparr>
      in if lost \<noteq> [] then onPacketsLost gm now lost c else c)"

definition probeMTU :: "time \<Rightarrow> Connection \<Rightarrow> Connection" where
  "probeMTU now c =
     (if \<not> HasRttSample (c_cc c) then c
      else let (m, sz) = NextProbe now (c_mtu c); c = c\<lparr>c_mtu := m\<rparr>
           in if sz = 0 then c
              else let (seq, pm) = NextSequence (c_pm c);
                       c = c\<lparr>c_pm := pm\<rparr>;
                       (probe, c) = encode (conn_packet c seq 0 0 [MTUProbeFrame 1]) c;
                       header = int (length probe) - 1;
                       frames = [MTUProbeFrame (sz - header)];
                       (data, c) = encode (conn_packet c seq 0 0 frames) c;
                       (p, c) = new_packet ((sent_packet seq (int (length data)) frames 0 0)\<lparr>Probe := True\<rparr>) c;
                       c = upd_pm (SendPacket now p) c
                   in put_wire data (remoteAddr c) (c\<lparr>bytesSent := bytesSent c + int (length data)\<rparr>))"

definition note_acked :: "SentPacket \<Rightarrow> MTUDiscovery \<Rightarrow> MTUDiscovery" where
  "note_acked pkt m =
     (if Probe pkt then OnProbeAcked (sp_Size pkt) m
      else if sp_Size pkt > SafeDatagramSize then OnDataAcked (sp_Size pkt) m else m)"

definition handleAckFrame :: "go_math \<Rightarrow> time \<Rightarrow> AckFrame \<Rightarrow> Connection \<Rightarrow> Connection" where
  "handleAckFrame gm now f c =
     (let (pm, acked) = HandleAckFrame now f (c_pm c); c = c\<lparr>c_pm := pm\<rparr>
      in if acked = [] then c
         else let pkts = map (cells pm) acked;
                  data = filter (\<lambda>k. \<not> Probe k) pkts;
                  bytes = sum_list (map sp_Size data);
                  newest = filter (\<lambda>k. sp_Sequence k = LargestAcked f) pkts;
                  c = upd_mtu (fold note_acked pkts) c;
                  c = c\<lparr>ackedLarge := list_ex (\<lambda>k. sp_Size k > SafeDatagramSize) data\<rparr>;
                  sentTime = (if newest = [] then 0 else SentTime (last newest));
                  c = upd_cc (OnPacketAcked gm now bytes sentTime (int (unat (AckDelay f)) * millisecond)
                        (newest \<noteq> []) (int (unat (LargestAcked f)))) c;
                  c = detect_conn gm now c;
                  c = flushLost gm now c
              in probeMTU now c)"

section \<open>Opening and closing\<close>

definition armIdleCheck :: "time \<Rightarrow> Connection \<Rightarrow> Connection" where
  "armIdleCheck now c = (if closeCh c then c else c\<lparr>idleTimer := Some (now + idleCheckInterval)\<rparr>)"

definition startIdleTimer :: "time \<Rightarrow> Connection \<Rightarrow> Connection" where
  "startIdleTimer now c = armIdleCheck now (c\<lparr>lastActivity := now\<rparr>)"

definition NewConnection ::
    "time \<Rightarrow> (packet_ptr \<Rightarrow> SentPacket) \<Rightarrow> ConnectionID \<Rightarrow> ConnectionID \<Rightarrow> addr \<Rightarrow> addr option \<Rightarrow> bool \<Rightarrow> Connection" where
  "NewConnection now mem lcid rcid laddr raddr initiator =
     startIdleTimer now
     \<lparr>localCID = lcid, remoteCID = rcid, localAddr = laddr, remoteAddr = raddr, c_state = ConnStateNew,
      streams = [], nextStreamID = (if initiator then 1 else 2), isInitiator = initiator,
      maxStreams = InitialMaxStreams, incomingStreams = [], c_cc = NewCongestionController,
      c_pm = NewPacketManager mem, c_fc = NewFlowController InitialMaxData InitialMaxData,
      c_mtu = NewMTUDiscovery, ackedLarge = False, pathChallenge = replicate 8 0, pathChallengeResp = None,
      pendingAddr = None, pendingChallenge = replicate 8 0, pendingSentAt = 0, recvd = newTracker,
      ackPending = 0, ackTimer = None, largestArrival = 0, bytesSent = 0, bytesReceived = 0,
      addrValidated = False, inbound = [], inboundDropped = 0, lostQueue = [], lostTimer = None,
      lastActivity = 0, idleTimer = None, closeCh = False, onCloseCalled = False, nextCell = 0,
      outbox = [], panicked = False\<rparr>"

datatype open_error = ErrConnectionClosed | ErrMaxStreams | ErrContext

text \<open>
  A call that waits in a \<^verbatim>\<open>select\<close> is modelled by the case it is woken by, since Go picks any of the
  ready ones: what it waits for, its context, the closing of the connection, or a timeout.
\<close>

datatype wake = WakeValue | WakeContext | WakeClosed | WakeTimeout

definition new_stream :: "uint32 \<Rightarrow> StreamState \<Rightarrow> Connection \<Rightarrow> uint32 \<times> Connection" where
  "new_stream remoteID st c =
     (let k = nextStreamID c;
          fc = NewStreamFlowController InitialMaxStreamData InitialMaxStreamData;
          s = (NewStream k remoteID (Some fc))\<lparr>conn := True, state := st\<rparr>
      in (k, c\<lparr>nextStreamID := k + 2, streams := AList.update k s (streams c)\<rparr>))"

definition OpenStream :: "Connection \<Rightarrow> Connection \<times> (open_error + uint32)" where
  "OpenStream c =
     (if c_state c = ConnStateClosed \<or> c_state c = ConnStateClosing then (c, Inl ErrConnectionClosed)
      else if int (length (streams c)) \<ge> maxStreams c then (c, Inl ErrMaxStreams)
      else let (k, c) = new_stream 0 StreamStateIdle c in (c, Inr k))"

text \<open>\<^verbatim>\<open>AcceptStream\<close>, woken by \<open>w\<close>; \<open>None\<close> when that case is not ready and the call still waits.\<close>

definition AcceptStream :: "wake \<Rightarrow> Connection \<Rightarrow> Connection \<times> (open_error + uint32) option" where
  "AcceptStream w c =
     (case w of
        WakeValue \<Rightarrow> (case incomingStreams c of
             [] \<Rightarrow> (c, None)
           | k # rest \<Rightarrow> (c\<lparr>incomingStreams := rest\<rparr>, Some (Inr k)))
      | WakeContext \<Rightarrow> (c, Some (Inl ErrContext))
      | WakeClosed \<Rightarrow> (c, if closeCh c then Some (Inl ErrConnectionClosed) else None)
      | WakeTimeout \<Rightarrow> (c, None))"

definition StreamCount :: "Connection \<Rightarrow> nat" where
  "StreamCount c = length (streams c)"

text \<open>\<^verbatim>\<open>closeOnce\<close> has run exactly when the state is past \<open>ConnStateClosing\<close>.\<close>

definition closeInternal :: "time \<Rightarrow> uint32 \<Rightarrow> byte list \<Rightarrow> bool \<Rightarrow> Connection \<Rightarrow> Connection" where
  "closeInternal now code reason announce c =
     (if c_state c = ConnStateClosing \<or> c_state c = ConnStateClosed then c
      else let c = c\<lparr>c_state := ConnStateClosing, idleTimer := None, ackTimer := None, ackPending := 0\<rparr>;
               c = (if announce
                    then sendFrames now [ConnectionClose \<lparr>ErrorCode = code, FrameTypeVal = 0, ReasonPhrase = reason\<rparr>] c
                    else c)
           in c\<lparr>c_state := ConnStateClosed, closeCh := True,
                streams := map (\<lambda>(k, s). (k, DeliverReset code s)) (streams c),
                lostTimer := None, lostQueue := [],
                c_cc := CC_Destroy (c_cc c), c_pm := PM_Destroy (c_pm c), onCloseCalled := True\<rparr>)"

definition CloseWithError :: "time \<Rightarrow> uint32 \<Rightarrow> byte list \<Rightarrow> Connection \<Rightarrow> Connection" where
  "CloseWithError now code reason c = closeInternal now code reason True c"

definition Conn_Close :: "time \<Rightarrow> Connection \<Rightarrow> Connection" where
  "Conn_Close now c = CloseWithError now ErrorNoError [] c"

definition idleTimeout :: "Connection \<Rightarrow> duration" where
  "idleTimeout c = (let d = MaxIdleTimeout; pto3 = 3 * pto (c_cc c) in if pto3 > d then pto3 else d)"

definition idleExpired :: "time \<Rightarrow> Connection \<Rightarrow> bool" where
  "idleExpired now c \<longleftrightarrow> \<not> (c_state c = ConnStateClosing \<or> c_state c = ConnStateClosed)
     \<and> time_sub now (lastActivity c) \<ge> idleTimeout c"

definition onIdleCheck :: "time \<Rightarrow> Connection \<Rightarrow> Connection" where
  "onIdleCheck now c =
     (if idleExpired now c
      then closeInternal now ErrorConnectionTimeout (map of_char ''idle timeout'') False c
      else armIdleCheck now c)"

definition Ping :: "time \<Rightarrow> Connection \<Rightarrow> Connection" where
  "Ping now c = sendFrames now [PingFrame] c"

section \<open>Send credit\<close>

datatype credit_outcome = CreditRefused | CreditReady | CreditWait duration

text \<open>One round of the loop of \<^verbatim>\<open>awaitSendCredit\<close>; \<open>CreditWait\<close> sleeps and starts the next.\<close>

definition awaitSendCredit :: "go_math \<Rightarrow> time \<Rightarrow> int \<Rightarrow> time \<Rightarrow> Connection \<Rightarrow> credit_outcome" where
  "awaitSendCredit gm now sz deadline c =
     (if closeCh c then CreditRefused
      else if deadline \<noteq> 0 \<and> \<not> now < deadline then CreditRefused
      else let wait = TimeUntilSend gm now (Pacer (c_cc c))
           in if wait \<le> 0 \<and> CC_CanSend sz (c_cc c) then CreditReady
              else CreditWait (if wait \<le> 0 \<or> wait > sendCreditPollInterval then sendCreditPollInterval else wait))"

text \<open>What \<^verbatim>\<open>awaitSendCreditUpTo\<close> grants once \<^verbatim>\<open>awaitSendCredit\<close> has returned true.\<close>

definition grant_up_to :: "int \<Rightarrow> int \<Rightarrow> Connection \<Rightarrow> int" where
  "grant_up_to minSize maxSize c =
     (let granted = Available (c_cc c);
          granted = (if granted > maxSize then maxSize else granted)
      in if granted < minSize then minSize else granted)"

section \<open>Acknowledging\<close>

definition takeAckLocked :: "time \<Rightarrow> Connection \<Rightarrow> AckFrame \<times> Connection" where
  "takeAckLocked now c =
     (let d = (if largestArrival c \<noteq> 0 then go_div (time_sub now (largestArrival c)) millisecond else 0);
          delay = (if d > 0 then if d > 65535 then 65535 else d else 0)
      in (frame (recvd c) (word_of_int delay), c\<lparr>ackPending := 0, ackTimer := None\<rparr>))"

fun edge_frame :: "Frame \<Rightarrow> bool" where
  "edge_frame (Frame.Stream f) \<longleftrightarrow> IsSyn f \<or> IsFin f"
| "edge_frame PingFrame \<longleftrightarrow> True"
| "edge_frame (MTUProbeFrame _) \<longleftrightarrow> True"
| "edge_frame _ \<longleftrightarrow> False"

definition noteReceived :: "time \<Rightarrow> Packet \<Rightarrow> Connection \<Rightarrow> Connection" where
  "noteReceived now pkt c =
     (let edge = list_ex edge_frame (Frames pkt);
          (r, outOfOrder) = add (Sequence pkt) (recvd c);
          c = (if \<not> any_recvd (recvd c) \<or> largest r \<noteq> largest (recvd c)
               then c\<lparr>recvd := r, largestArrival := now\<rparr> else c\<lparr>recvd := r\<rparr>);
          c = c\<lparr>ackPending := ackPending c + 1\<rparr>
      in if outOfOrder \<or> edge \<or> ackPending c \<ge> AckElicitingThreshold
         then let (f, c) = takeAckLocked now c
              in sendPacket now (SourceStreamID pkt) (DestinationStreamID pkt) [Ack f] c
         else if ackTimer c = None
         then let delay = go_div (smoothedRtt (c_cc c)) 4;
                  delay = (if delay < MinAckDelay then MinAckDelay else delay);
                  delay = (if delay > MaxAckDelay then MaxAckDelay else delay)
              in c\<lparr>ackTimer := Some (now + delay, SourceStreamID pkt, DestinationStreamID pkt)\<rparr>
         else c)"

definition ackTimerFired :: "time \<Rightarrow> uint32 \<Rightarrow> uint32 \<Rightarrow> Connection \<Rightarrow> Connection" where
  "ackTimerFired now src dst c =
     (let c = c\<lparr>ackTimer := None\<rparr>
      in if ackPending c = 0 then c
         else let (f, c) = takeAckLocked now c in sendPacket now src dst [Ack f] c)"

definition buildAckFrame :: "uint32 \<Rightarrow> Connection \<Rightarrow> AckFrame \<times> Connection" where
  "buildAckFrame seq c = (let r = fst (add seq (recvd c)) in (frame r 0, c\<lparr>recvd := r\<rparr>))"

section \<open>Migration\<close>

text \<open>\<open>rnd\<close> is what \<^verbatim>\<open>rand.Read\<close> filled the challenge with, \<open>None\<close> its error.\<close>

definition sendControlTo :: "Frame list \<Rightarrow> addr \<Rightarrow> Connection \<Rightarrow> Connection" where
  "sendControlTo frames a c =
     (let (data, c) = encode (conn_packet c 0 0 0 frames) c
      in put_wire data (Some a) (c\<lparr>bytesSent := bytesSent c + int (length data)\<rparr>))"

definition observeAddr :: "time \<Rightarrow> byte list option \<Rightarrow> addr option \<Rightarrow> Connection \<Rightarrow> Connection" where
  "observeAddr now rnd from c =
     (case from of
        None \<Rightarrow> c
      | Some a \<Rightarrow>
          if remoteAddr c = Some a then c
          else if pendingAddr c = Some a \<and> time_sub now (pendingSentAt c) < pathChallengeRetry then c
          else case rnd of
            None \<Rightarrow> c
          | Some challenge \<Rightarrow>
              sendControlTo [PathChallengeFrame challenge] a
                (c\<lparr>pendingAddr := Some a, pendingChallenge := challenge, pendingSentAt := now\<rparr>))"

definition completeMigration :: "byte list \<Rightarrow> Connection \<Rightarrow> Connection \<times> bool" where
  "completeMigration data c =
     (if pendingAddr c = None \<or> data \<noteq> pendingChallenge c then (c, False)
      else (c\<lparr>remoteAddr := pendingAddr c, addrValidated := True, pendingAddr := None\<rparr>, True))"

text \<open>
  \<^verbatim>\<open>InitiatePathMigration\<close> up to its wait (\<open>None\<close>: the challenge could not be drawn), and what it does
  once woken (\<open>None\<close>: it still waits).
\<close>

datatype migration_error = ErrPathMismatch | ErrPathTimeout | ErrPathContext

definition startMigration :: "time \<Rightarrow> byte list option \<Rightarrow> Connection \<Rightarrow> Connection \<times> byte list option" where
  "startMigration now rnd c =
     (case rnd of
        None \<Rightarrow> (c, None)
      | Some challenge \<Rightarrow>
          (sendFrames now [PathChallengeFrame challenge] (c\<lparr>pathChallenge := challenge\<rparr>), Some challenge))"

definition finishMigration ::
    "wake \<Rightarrow> byte list \<Rightarrow> addr \<Rightarrow> Connection \<Rightarrow> Connection \<times> (migration_error + unit) option" where
  "finishMigration w challenge newAddr c =
     (case w of
        WakeValue \<Rightarrow> (case pathChallengeResp c of
             None \<Rightarrow> (c, None)
           | Some resp \<Rightarrow>
               let c = c\<lparr>pathChallengeResp := None\<rparr>
               in if resp \<noteq> challenge then (c, Some (Inl ErrPathMismatch))
                  else (c\<lparr>remoteAddr := Some newAddr, addrValidated := True\<rparr>, Some (Inr ())))
      | WakeTimeout \<Rightarrow> (c, Some (Inl ErrPathTimeout))
      | WakeContext \<Rightarrow> (c, Some (Inl ErrPathContext))
      | WakeClosed \<Rightarrow> (c, None))"

section \<open>Receiving\<close>

definition find_remote :: "uint32 \<Rightarrow> Connection \<Rightarrow> uint32 option" where
  "find_remote rid c =
     (if rid = 0 then None else map_option fst (find (\<lambda>(k, s). RemoteID s = rid) (streams c)))"

definition findStream :: "uint32 \<Rightarrow> uint32 \<Rightarrow> Connection \<Rightarrow> uint32 option" where
  "findStream lid rid c = (if map_of (streams c) lid \<noteq> None then Some lid else find_remote rid c)"

text \<open>A stream operation that may call back into the connection.\<close>

definition on_stream :: "time \<Rightarrow> uint32 \<Rightarrow> (Stream \<Rightarrow> Stream \<times> conn_call list) \<Rightarrow> Connection \<Rightarrow> Connection" where
  "on_stream now k f c =
     (case map_of (streams c) k of
        None \<Rightarrow> c
      | Some s \<Rightarrow> run_calls now (snd (f s)) (upd_stream k (\<lambda>_. fst (f s)) c))"

definition handleStreamFrame :: "time \<Rightarrow> Packet \<Rightarrow> StreamFrame \<Rightarrow> Connection \<Rightarrow> Connection" where
  "handleStreamFrame now pkt f c =
     (let found = findStream (DestinationStreamID pkt) (SourceStreamID pkt) c;
          (target, c) =
            (if found = None \<and> SourceStreamID pkt \<noteq> 0 \<and> (IsSyn f \<or> length (Data f) > 0)
             then let (k, c) = new_stream (SourceStreamID pkt) StreamStateOpen c
                  in (Some k, if length (incomingStreams c) < 16
                              then c\<lparr>incomingStreams := incomingStreams c @ [k]\<rparr> else c)
             else (found, c))
      in case target of
           None \<Rightarrow> c
         | Some k \<Rightarrow>
             let c = (if length (Data f) > 0 then on_stream now k (DeliverData (Offset f) (Data f)) c else c)
             in if IsFin f
                then upd_stream k (DeliverFin (Offset f + of_nat (length (Data f)))) c
                else c)"

definition at_stream :: "Packet \<Rightarrow> (uint32 \<Rightarrow> Connection \<Rightarrow> Connection) \<Rightarrow> Connection \<Rightarrow> Connection" where
  "at_stream pkt g c =
     (case findStream (DestinationStreamID pkt) (SourceStreamID pkt) c of None \<Rightarrow> c | Some k \<Rightarrow> g k c)"

definition handleWindowUpdate :: "Packet \<Rightarrow> uint32 \<Rightarrow> Connection \<Rightarrow> Connection" where
  "handleWindowUpdate pkt w c = at_stream pkt (\<lambda>k. upd_stream k (OnWindowUpdate w)) c"

definition handleResetStream :: "Packet \<Rightarrow> uint32 \<Rightarrow> Connection \<Rightarrow> Connection" where
  "handleResetStream pkt code c = at_stream pkt (\<lambda>k. upd_stream k (DeliverReset code)) c"

definition refresh_stream :: "Stream \<Rightarrow> Stream \<times> conn_call list" where
  "refresh_stream s =
     (case streamFC s of
        None \<Rightarrow> (s, [])
      | Some fc \<Rightarrow> let (fc, limit) = RefreshLimit fc
                   in (s\<lparr>streamFC := Some fc\<rparr>, [sendWindowUpdate (ID s) (RemoteID s) limit]))"

fun handleFrame :: "go_math \<Rightarrow> time \<Rightarrow> Packet \<Rightarrow> Frame \<Rightarrow> Connection \<Rightarrow> Connection" where
  "handleFrame gm now pkt (Frame.Stream f) c = handleStreamFrame now pkt f c"
| "handleFrame gm now pkt (Ack f) c = handleAckFrame gm now f c"
| "handleFrame gm now pkt (WindowUpdateFrame w) c = handleWindowUpdate pkt w c"
| "handleFrame gm now pkt (MaxDataFrame m) c = c\<lparr>c_fc := UpdateMaxData (sint m) (c_fc c)\<rparr>"
| "handleFrame gm now pkt (ResetStreamFrame code) c = handleResetStream pkt code c"
| "handleFrame gm now pkt (ConnectionClose _) c = Conn_Close now c"
| "handleFrame gm now pkt PingFrame c = c"
| "handleFrame gm now pkt (PathChallengeFrame d) c = sendFrames now [PathResponseFrame d] c"
| "handleFrame gm now pkt (PathResponseFrame d) c =
     (let (c, moved) = completeMigration d c
      in if moved then c
         else if pathChallengeResp c = None then c\<lparr>pathChallengeResp := Some d\<rparr> else c)"
| "handleFrame gm now pkt (MaxStreamsFrame n) c =
     (if int (unat n) > maxStreams c then c\<lparr>maxStreams := int (unat n)\<rparr> else c)"
| "handleFrame gm now pkt (NewConnectionIDF _) c = c"
| "handleFrame gm now pkt (RetireConnectionIDFrame _) c = c"
| "handleFrame gm now pkt PaddingFrame c = c"
| "handleFrame gm now pkt (MTUProbeFrame _) c = c"
| "handleFrame gm now pkt (StopSendingFrame _ code) c =
     at_stream pkt (\<lambda>k. on_stream now k (Stream_Reset code)) c"
| "handleFrame gm now pkt (DataBlockedFrame _) c =
     sendFrames now [MaxDataFrame (word_of_int (ConnMaxData (c_fc c)))] c"
| "handleFrame gm now pkt (StreamDataBlockedFrame _ _) c =
     at_stream pkt (\<lambda>k. on_stream now k refresh_stream) c"

fun probe_frame :: "Frame \<Rightarrow> bool" where
  "probe_frame PingFrame \<longleftrightarrow> True"
| "probe_frame (MTUProbeFrame _) \<longleftrightarrow> True"
| "probe_frame _ \<longleftrightarrow> False"

definition isNumberedProbe :: "Packet \<Rightarrow> bool" where
  "isNumberedProbe pkt \<longleftrightarrow> Sequence pkt \<noteq> 0 \<and> list_ex probe_frame (Frames pkt)"

definition HandlePacket :: "go_math \<Rightarrow> time \<Rightarrow> Packet \<Rightarrow> Connection \<Rightarrow> Connection" where
  "HandlePacket gm now pkt c =
     (let (sz, c) = (if wireLen pkt = 0 then let (d, c) = encode pkt c in (length d, c) else (wireLen pkt, c));
          c = c\<lparr>bytesReceived := bytesReceived c + int sz, lastActivity := now\<rparr>;
          c = fold (handleFrame gm now pkt) (Frames pkt) c
      in if \<not> isDataBearing pkt \<and> \<not> isNumberedProbe pkt then c
         else noteReceived now pkt c)"

definition enqueue :: "Packet \<Rightarrow> Connection \<Rightarrow> Connection" where
  "enqueue pkt c =
     (if length (inbound c) < inboundQueue then c\<lparr>inbound := inbound c @ [pkt]\<rparr>
      else c\<lparr>inboundDropped := inboundDropped c + 1\<rparr>)"

text \<open>One round of \<^verbatim>\<open>inboundLoop\<close> with a packet in the queue.\<close>

definition inbound_step :: "go_math \<Rightarrow> time \<Rightarrow> Connection \<Rightarrow> Connection" where
  "inbound_step gm now c =
     (case inbound c of
        [] \<Rightarrow> c
      | pkt # rest \<Rightarrow> HandlePacket gm now pkt (c\<lparr>inbound := rest\<rparr>))"

section \<open>Cutting data into frames\<close>

lemma piece_frames_Nil [simp]: "piece_frames k off [] isSyn isFin = []"
  by (simp add: piece_frames.simps)

lemma piece_frames_data: "0 < k \<Longrightarrow> concat (map Data (piece_frames k off data isSyn isFin)) = data"
proof (induction k off data isSyn isFin rule: piece_frames.induct)
  case (1 k off data isSyn isFin)
  then show ?case by (cases "data = []") (simp_all add: piece_frames.simps [of k off data])
qed

lemma piece_frames_size: "f \<in> set (piece_frames k off data isSyn isFin) \<Longrightarrow> 0 < length (Data f) \<and> length (Data f) \<le> k"
proof (induction k off data isSyn isFin rule: piece_frames.induct)
  case (1 k off data isSyn isFin)
  then show ?case by (subst (asm) piece_frames.simps) (auto split: if_splits)
qed

lemma segment_take: "segment B off d \<Longrightarrow> segment B off (take k d)"
proof -
  assume s: "segment B off d"
  then have d: "d = take (length d) (drop (unat off) B)" and l: "unat off + length d \<le> length B"
    by (simp_all only: segment_def)
  have "take k d = take (min k (length d)) (drop (unat off) B)" by (subst d) (simp add: take_take)
  then show ?thesis unfolding segment_def using l by (simp add: min.commute)
qed

lemma piece_frames_segment:
  "segment B off data \<Longrightarrow> length B < 2 ^ 64 \<Longrightarrow> f \<in> set (piece_frames k off data isSyn isFin) \<Longrightarrow> segment B (Offset f) (Data f)"
proof (induction k off data isSyn isFin rule: piece_frames.induct)
  case (1 k off data isSyn isFin)
  show ?case
  proof (cases "data = [] \<or> k = 0")
    case True
    then show ?thesis using 1(4) by (auto simp: piece_frames.simps [of k off data])
  next
    case False
    let ?m = "min k (length data)"
    have o: "unat (off + of_nat ?m) = unat off + ?m"
      using 1(2,3) unat_plus_length [of off "take k data"] by (auto simp: segment_def min.commute)
    have "segment B (off + of_nat ?m) (drop k data)"
    proof (cases "k \<le> length data")
      case True
      then show ?thesis using 1(2) o by (intro segment_drop) auto
    next
      case False
      then show ?thesis using 1(2) o by (auto simp: segment_def)
    qed
    moreover have "segment B off (take k data)"
      using 1(2) by (rule segment_take)
    moreover have "f = \<lparr>IsFin = isFin \<and> length data \<le> k, IsSyn = isSyn, Offset = off, Data = take k data\<rparr>
        \<or> f \<in> set (piece_frames k (off + of_nat ?m) (drop k data) False isFin)"
      using 1(4) False by (auto simp: piece_frames.simps [of k off data])
    ultimately show ?thesis using 1(1) [OF False] 1(3) by auto
  qed
qed

text \<open>The first piece alone carries the SYN and the last alone the FIN.\<close>

lemma piece_frames_flags:
  "0 < k \<Longrightarrow> data \<noteq> [] \<Longrightarrow>
     map IsSyn (piece_frames k off data isSyn isFin)
       = isSyn # replicate (length (piece_frames k off data isSyn isFin) - 1) False
     \<and> map IsFin (piece_frames k off data isSyn isFin)
       = replicate (length (piece_frames k off data isSyn isFin) - 1) False @ [isFin]"
proof (induction k off data isSyn isFin rule: piece_frames.induct)
  case (1 k off data isSyn isFin)
  show ?case
  proof (cases "length data \<le> k")
    case True
    then show ?thesis using 1(2,3) by (simp add: piece_frames.simps [of k off data])
  next
    case False
    let ?r = "piece_frames k (off + of_nat (min k (length data))) (drop k data) False isFin"
    have r: "map IsSyn ?r = False # replicate (length ?r - 1) False \<and> map IsFin ?r = replicate (length ?r - 1) False @ [isFin]"
      using 1 False by auto
    then have "0 < length ?r" by (metis length_greater_0_conv list.map_disc_iff list.distinct(1))
    then have "replicate (length ?r) False = False # replicate (length ?r - 1) False"
      by (metis Suc_diff_1 replicate_Suc)
    then show ?thesis using r 1(2,3) False by (simp add: piece_frames.simps [of k off data])
  qed
qed

section \<open>What sending and recovery leave alone\<close>

text \<open>
  The identity, the path and the streams of a connection: sending, acknowledging and loss recovery
  change none of it.
\<close>

definition core :: "Connection \<Rightarrow> (ConnectionID \<times> ConnectionID \<times> addr option \<times> addr option \<times> byte list)
    \<times> (ConnectionState \<times> bool \<times> (uint32 \<times> Stream) list \<times> uint32 \<times> int)" where
  "core c = ((localCID c, remoteCID c, remoteAddr c, pendingAddr c, pendingChallenge c),
     (c_state c, closeCh c, streams c, nextStreamID c, maxStreams c))"

lemma core_eq_iff:
  "core c' = core c \<longleftrightarrow> localCID c' = localCID c \<and> remoteCID c' = remoteCID c \<and> remoteAddr c' = remoteAddr c
     \<and> pendingAddr c' = pendingAddr c \<and> pendingChallenge c' = pendingChallenge c \<and> c_state c' = c_state c
     \<and> closeCh c' = closeCh c \<and> streams c' = streams c \<and> nextStreamID c' = nextStreamID c
     \<and> maxStreams c' = maxStreams c"
  by (auto simp: core_def)

named_theorems core_simps

lemma core_fields [core_simps]:
  "core (c\<lparr>c_pm := pm\<rparr>) = core c" "core (c\<lparr>c_cc := cc\<rparr>) = core c" "core (c\<lparr>c_mtu := m\<rparr>) = core c"
  "core (c\<lparr>bytesSent := n\<rparr>) = core c" "core (c\<lparr>lostQueue := q\<rparr>) = core c" "core (c\<lparr>lostTimer := t\<rparr>) = core c"
  "core (c\<lparr>panicked := b\<rparr>) = core c" "core (c\<lparr>ackedLarge := b\<rparr>) = core c" "core (c\<lparr>ackTimer := a\<rparr>) = core c"
  "core (c\<lparr>ackPending := n\<rparr>) = core c" "core (c\<lparr>recvd := r\<rparr>) = core c" "core (c\<lparr>largestArrival := u\<rparr>) = core c"
  "core (c\<lparr>bytesReceived := n\<rparr>) = core c" "core (c\<lparr>lastActivity := u\<rparr>) = core c" "core (c\<lparr>inbound := i\<rparr>) = core c"
  "core (c\<lparr>c_fc := f\<rparr>) = core c" "core (c\<lparr>pathChallengeResp := p\<rparr>) = core c"
  "core (c\<lparr>incomingStreams := ks\<rparr>) = core c"
  by (simp_all add: core_def)

lemma core_helpers [core_simps]:
  "core (upd_cc f c) = core c" "core (upd_pacer g c) = core c" "core (upd_pm h c) = core c" "core (upd_mtu k c) = core c"
  "core (put_wire d a c) = core c" "core (snd (new_packet p c)) = core c" "core (snd (encode pkt c)) = core c"
  by (simp_all add: core_def upd_cc_def upd_pacer_def upd_pm_def upd_mtu_def put_wire_def new_packet_def encode_def
      split: sum.splits)

lemma core_fold: "(\<And>x c. core (f x c) = core c) \<Longrightarrow> core (fold f xs c) = core c"
  by (induction xs arbitrary: c) simp_all

lemma core_fold_fst: "(\<And>x s. core (fst (f x s)) = core (fst s)) \<Longrightarrow> core (fst (fold f xs s)) = core (fst s)"
  by (induction xs arbitrary: s) simp_all

lemma core_fold_snd: "(\<And>x s. core (snd (f x s)) = core (snd s)) \<Longrightarrow> core (snd (fold f xs s)) = core (snd s)"
  by (induction xs arbitrary: s) simp_all

lemma core_sendPacket [core_simps]: "core (sendPacket now dst src fs c) = core c"
  by (simp add: sendPacket_def Let_def case_prod_beta core_simps)

lemma core_sendFrames [core_simps]: "core (sendFrames now fs c) = core c"
  by (simp add: sendFrames_def core_simps)

lemma core_retransmit [core_simps]: "core (retransmitPacket p seq c) = core c"
  by (simp add: retransmitPacket_def Let_def case_prod_beta core_simps)

lemma core_prepare [core_simps]: "core (fst (prepareDataPacket now dst src fs c)) = core c"
  by (simp add: prepareDataPacket_def Let_def case_prod_beta core_simps)

lemma core_writeDatagrams [core_simps]: "core (writeDatagrams bufs c) = core c"
  unfolding writeDatagrams_def by (rule core_fold) (simp add: core_simps)

lemma core_sendStreamFrames [core_simps]: "core (sendStreamFrames_conn now sid rid off data k syn c) = core c"
proof -
  let ?f = "\<lambda>f (c, bufs). case prepareDataPacket now rid sid [Frame.Stream f] c of
                   (c, Some buf) \<Rightarrow> (c, bufs @ [buf]) | (c, None) \<Rightarrow> (c, bufs)"
  have "core (fst (?f x s)) = core (fst s)" for x s
    using core_prepare [of now rid sid "[Frame.Stream x]" "fst s"]
    by (auto simp: case_prod_beta split: option.splits)
  from core_fold_fst [of ?f, OF this] show ?thesis
    by (simp add: sendStreamFrames_conn_def case_prod_beta core_simps)
qed

lemma core_run_call [core_simps]: "core (run_call now call c) = core c"
  by (cases call) (simp_all add: core_simps)

lemma core_run_calls [core_simps]: "core (run_calls now calls c) = core c"
  unfolding run_calls_def by (rule core_fold) (simp add: core_simps)

lemma core_frame_size [core_simps]: "core (snd (frame_size p f c)) = core c"
  by (simp add: frame_size_def Let_def case_prod_beta core_simps)

lemma core_add_piece [core_simps]: "core (snd (add_piece p f s)) = core (snd s)"
  by (simp add: add_piece_def Let_def case_prod_beta core_simps)

lemma core_fitToPath [core_simps]: "core (snd (fitToPath p c)) = core c"
  by (auto simp: fitToPath_def Let_def case_prod_beta core_simps core_fold_snd split: list.splits Frame.splits)

lemma core_probe_piece [core_simps]: "core (probe_piece now q c) = core c"
  by (auto simp: probe_piece_def Let_def core_simps split: prod.splits option.splits)

lemma core_onPTO [core_simps]: "core (onPTO now c) = core c"
proof -
  have "core (let (pieces, c) = fitToPath p c in fold (probe_piece now) pieces c) = core c" for p c
    by (simp add: Let_def case_prod_beta core_fold core_simps)
  from core_fold [of "\<lambda>p c. let (pieces, c) = fitToPath p c in fold (probe_piece now) pieces c", OF this]
  show ?thesis by (simp add: onPTO_def Let_def core_simps)
qed

lemma core_resend_lost [core_simps]: "core (resend_lost now p c) = core c"
  by (auto simp: resend_lost_def Let_def core_simps split: prod.splits option.splits)

lemma core_flush_round [core_simps]: "core (fst (flush_round gm now p rest c)) = core c"
  by (simp add: flush_round_def Let_def case_prod_beta core_simps)

lemma core_flush_loop [core_simps]: "core (flush_loop n gm now c) = core c"
  by (induction n arbitrary: c) (simp_all add: Let_def case_prod_beta core_simps split: list.splits)

lemma core_flushLost [core_simps]: "core (flushLost gm now c) = core c"
  by (simp add: flushLost_def Let_def core_simps)

lemma core_onPacketsLost [core_simps]: "core (onPacketsLost gm now lost c) = core c"
  by (simp add: onPacketsLost_def Let_def core_simps)

lemma core_detect [core_simps]: "core (detect_conn gm now c) = core c" "core (lossTimerFired gm now c) = core c"
  by (simp_all add: detect_conn_def lossTimerFired_def Let_def case_prod_beta core_simps)

lemma core_probeMTU [core_simps]: "core (probeMTU now c) = core c"
  by (simp add: probeMTU_def Let_def case_prod_beta core_simps)

lemma core_handleAckFrame [core_simps]: "core (handleAckFrame gm now f c) = core c"
  by (simp add: handleAckFrame_def Let_def case_prod_beta core_simps)

lemma core_takeAck [core_simps]: "core (snd (takeAckLocked now c)) = core c"
  by (simp add: takeAckLocked_def Let_def core_simps)

lemma core_noteReceived [core_simps]: "core (noteReceived now pkt c) = core c"
  by (simp add: noteReceived_def Let_def case_prod_beta core_simps)

lemma core_timers [core_simps]: "core (ackTimerFired now src dst c) = core c" "core (ptoTimerFired now c) = core c"
  by (simp_all add: ackTimerFired_def ptoTimerFired_def Let_def case_prod_beta core_simps)

section \<open>The path\<close>

definition path :: "Connection \<Rightarrow> ConnectionID \<times> ConnectionID \<times> addr option \<times> addr option \<times> byte list" where
  "path c = fst (core c)"

lemma path_cong: "core c' = core c \<Longrightarrow> path c' = path c"
  by (simp add: path_def)

lemma path_streams [simp]: "path (upd_stream k f c) = path c" "path (snd (new_stream rid st c)) = path c"
  by (simp_all add: path_def core_def upd_stream_def new_stream_def Let_def)

lemma path_on_stream [simp]: "path (on_stream now k f c) = path c"
  by (auto simp: on_stream_def path_cong [OF core_run_calls] split: option.splits)

lemma path_close [simp]: "path (closeInternal now code reason announce c) = path c"
  using core_sendFrames [of now _ "c\<lparr>c_state := ConnStateClosing, idleTimer := None, ackTimer := None, ackPending := 0\<rparr>"]
  by (auto simp: closeInternal_def Let_def path_def core_def)

lemma path_updates [simp]:
  "path (c\<lparr>incomingStreams := ks\<rparr>) = path c" "path (c\<lparr>maxStreams := n\<rparr>) = path c"
  "path (c\<lparr>c_fc := f\<rparr>) = path c" "path (c\<lparr>pathChallengeResp := r\<rparr>) = path c"
  by (simp_all add: path_def core_def)

lemma path_handleStreamFrame [simp]: "path (handleStreamFrame now pkt f c) = path c"
  by (simp add: handleStreamFrame_def Let_def case_prod_beta split: option.splits)

definition answers :: "Connection \<Rightarrow> Frame \<Rightarrow> bool" where
  "answers c f \<longleftrightarrow> pendingAddr c \<noteq> None \<and> f = PathResponseFrame (pendingChallenge c)"

lemma handleFrame_path:
  "\<not> answers c f \<Longrightarrow> path (handleFrame gm now pkt f c) = path c"
  by (cases f)
     (auto simp: answers_def at_stream_def handleWindowUpdate_def handleResetStream_def Conn_Close_def CloseWithError_def
       completeMigration_def path_cong [OF core_handleAckFrame] path_cong [OF core_sendFrames]
       split: option.splits)

lemma handleFrame_moves:
  "answers c f \<Longrightarrow> remoteAddr (handleFrame gm now pkt f c) = pendingAddr c
     \<and> pendingAddr (handleFrame gm now pkt f c) = None"
  by (auto simp: answers_def completeMigration_def)

lemma path_fields: "path c' = path c \<Longrightarrow> remoteAddr c' = remoteAddr c \<and> pendingAddr c' = pendingAddr c
    \<and> pendingChallenge c' = pendingChallenge c"
  by (simp add: path_def core_def)

lemma frames_path:
  assumes "\<forall>f \<in> set fs. \<not> answers c f"
  shows "path (fold (handleFrame gm now pkt) fs c) = path c"
  using assms
proof (induction fs arbitrary: c)
  case (Cons f fs)
  have p: "path (handleFrame gm now pkt f c) = path c" using Cons.prems by (intro handleFrame_path) simp
  have "answers (handleFrame gm now pkt f c) g = answers c g" for g using path_fields [OF p] by (simp add: answers_def)
  then show ?case using Cons p by simp
qed simp

lemma HandlePacket_split:
  "\<exists>d. core d = core c \<and> core (HandlePacket gm now pkt c) = core (fold (handleFrame gm now pkt) (Frames pkt) d)"
proof (cases "wireLen pkt = 0")
  case True
  let ?d = "(snd (encode pkt c))\<lparr>bytesReceived := bytesReceived (snd (encode pkt c)) + int (length (fst (encode pkt c))),
      lastActivity := now\<rparr>"
  have "core ?d = core c" "core (HandlePacket gm now pkt c) = core (fold (handleFrame gm now pkt) (Frames pkt) ?d)"
    using True by (simp_all add: HandlePacket_def Let_def case_prod_beta core_simps)
  then show ?thesis by blast
next
  case False
  let ?d = "c\<lparr>bytesReceived := bytesReceived c + int (wireLen pkt), lastActivity := now\<rparr>"
  have "core ?d = core c" "core (HandlePacket gm now pkt c) = core (fold (handleFrame gm now pkt) (Frames pkt) ?d)"
    using False by (simp_all add: HandlePacket_def Let_def core_simps)
  then show ?thesis by blast
qed

lemma HandlePacket_path:
  assumes "\<forall>f \<in> set (Frames pkt). \<not> answers c f"
  shows "path (HandlePacket gm now pkt c) = path c"
proof -
  obtain d where d: "core d = core c" "core (HandlePacket gm now pkt c) = core (fold (handleFrame gm now pkt) (Frames pkt) d)"
    using HandlePacket_split by blast
  have "\<forall>f \<in> set (Frames pkt). \<not> answers d f"
    using assms path_fields [OF path_cong [OF d(1)]] by (simp add: answers_def)
  from frames_path [OF this] show ?thesis using path_cong [OF d(1)] path_cong [OF d(2)] by simp
qed

section \<open>The streams\<close>

definition stream_ids :: "Connection \<Rightarrow> uint32 list" where
  "stream_ids c = map fst (streams c)"

lemma stream_ids_cong: "core c' = core c \<Longrightarrow> stream_ids c' = stream_ids c"
  by (simp add: stream_ids_def core_eq_iff)

lemma stream_ids_upd [simp]: "stream_ids (upd_stream k f c) = stream_ids c"
  by (simp add: stream_ids_def upd_stream_def comp_def case_prod_beta)

lemma stream_ids_on_stream [simp]: "stream_ids (on_stream now k f c) = stream_ids c"
  by (auto simp: on_stream_def stream_ids_cong [OF core_run_calls] split: option.splits)

lemma stream_ids_close [simp]: "stream_ids (closeInternal now code reason announce c) = stream_ids c"
  using core_sendFrames [of now _ "c\<lparr>c_state := ConnStateClosing, idleTimer := None, ackTimer := None, ackPending := 0\<rparr>"]
  by (auto simp: closeInternal_def Let_def stream_ids_def core_eq_iff comp_def case_prod_beta)

lemma stream_ids_new: "set (stream_ids c) \<subseteq> set (stream_ids (snd (new_stream rid st c)))
    \<and> length (stream_ids c) \<le> length (stream_ids (snd (new_stream rid st c)))"
proof -
  have "set (map fst es) \<subseteq> set (map fst (AList.update k v es)) \<and> length es \<le> length (AList.update k v es)"
    for k and v :: Stream and es
    by (induction es) auto
  then show ?thesis by (simp add: stream_ids_def new_stream_def Let_def)
qed

definition keeps_streams :: "Connection \<Rightarrow> Connection \<Rightarrow> bool" where
  "keeps_streams c c' \<longleftrightarrow> set (stream_ids c) \<subseteq> set (stream_ids c') \<and> length (stream_ids c) \<le> length (stream_ids c')"

lemma keeps_refl: "stream_ids c' = stream_ids c \<Longrightarrow> keeps_streams c c'"
  by (simp add: keeps_streams_def)

lemma keeps_trans: "keeps_streams a b \<Longrightarrow> keeps_streams b c \<Longrightarrow> keeps_streams a c"
  unfolding keeps_streams_def by (blast intro: order_trans)

lemma stream_ids_updates [simp]:
  "stream_ids (c\<lparr>incomingStreams := ks\<rparr>) = stream_ids c" "stream_ids (c\<lparr>maxStreams := n\<rparr>) = stream_ids c"
  "stream_ids (c\<lparr>c_fc := f\<rparr>) = stream_ids c" "stream_ids (c\<lparr>pathChallengeResp := r\<rparr>) = stream_ids c"
  "stream_ids (c\<lparr>bytesReceived := b\<rparr>) = stream_ids c" "stream_ids (c\<lparr>lastActivity := t\<rparr>) = stream_ids c"
  "stream_ids (snd (encode pkt c)) = stream_ids c"
  by (simp_all add: stream_ids_def encode_def split: sum.splits)

lemma keeps_handleStreamFrame: "keeps_streams c (handleStreamFrame now pkt f c)"
  using stream_ids_new [of c "SourceStreamID pkt" StreamStateOpen]
  by (simp add: handleStreamFrame_def Let_def case_prod_beta keeps_streams_def split: option.splits)

lemma keeps_handleFrame: "keeps_streams c (handleFrame gm now pkt f c)"
proof (cases "\<exists>sf. f = Frame.Stream sf")
  case True
  then show ?thesis using keeps_handleStreamFrame by auto
next
  case False
  have "stream_ids (fst (completeMigration d c)) = stream_ids c" for d
    by (simp add: completeMigration_def stream_ids_def)
  then have "stream_ids (handleFrame gm now pkt f c) = stream_ids c" using False
    by (cases f)
       (simp_all add: at_stream_def handleWindowUpdate_def handleResetStream_def Conn_Close_def CloseWithError_def Let_def case_prod_beta
         stream_ids_cong [OF core_handleAckFrame] stream_ids_cong [OF core_sendFrames] split: option.splits)
  then show ?thesis by (rule keeps_refl)
qed

lemma keeps_HandlePacket: "keeps_streams c (HandlePacket gm now pkt c)"
proof -
  have f: "keeps_streams d (fold (handleFrame gm now pkt) fs d)" for fs d
  proof (induction fs arbitrary: d)
    case (Cons a fs)
    show ?case using keeps_trans [OF keeps_handleFrame Cons.IH] by simp
  qed (simp add: keeps_refl)
  obtain d where d: "core d = core c" "core (HandlePacket gm now pkt c) = core (fold (handleFrame gm now pkt) (Frames pkt) d)"
    using HandlePacket_split by blast
  show ?thesis
    using f [of d "Frames pkt"] stream_ids_cong [OF d(1)] stream_ids_cong [OF d(2)] by (simp add: keeps_streams_def)
qed

text \<open>
  The steps of a connection: a packet, a call of the application on a stream (any stream
  operation), opening, accepting and closing, a packet from another address, and the timers.
\<close>

inductive conn_step :: "go_math \<Rightarrow> Connection \<Rightarrow> Connection \<Rightarrow> bool" for gm where
  step_packet: "conn_step gm c (HandlePacket gm now pkt c)"
| step_stream: "conn_step gm c (on_stream now k f c)"
| step_open: "conn_step gm c (fst (OpenStream c))"
| step_accept: "conn_step gm c (fst (AcceptStream b c))"
| step_close: "conn_step gm c (closeInternal now code reason announce c)"
| step_observe: "conn_step gm c (observeAddr now rnd from c)"
| step_ack_timer: "conn_step gm c (ackTimerFired now src dst c)"
| step_pto_timer: "conn_step gm c (ptoTimerFired now c)"
| step_loss_timer: "conn_step gm c (lossTimerFired gm now c)"
| step_lost_timer: "conn_step gm c (flushLost gm now c)"
| step_idle_timer: "conn_step gm c (onIdleCheck now c)"
| step_ping: "conn_step gm c (Ping now c)"
| step_migrate: "conn_step gm c (fst (startMigration now rnd c))"
| step_migrated: "conn_step gm c (fst (finishMigration w challenge a c))"
| step_enqueue: "conn_step gm c (enqueue pkt c)"
| step_inbound: "conn_step gm c (inbound_step gm now c)"

lemma keeps_open: "keeps_streams c (fst (OpenStream c))"
  using stream_ids_new [of c 0 StreamStateIdle]
  by (auto simp: OpenStream_def keeps_streams_def Let_def case_prod_beta)

lemma stream_ids_observe: "stream_ids (observeAddr now rnd from c) = stream_ids c"
  by (auto simp: observeAddr_def sendControlTo_def put_wire_def encode_def stream_ids_def
      split: option.splits sum.splits)

lemma keeps_step: "conn_step gm c c' \<Longrightarrow> keeps_streams c c'"
proof (induction rule: conn_step.induct)
  case (step_accept c b)
  show ?case by (rule keeps_refl) (auto simp: AcceptStream_def stream_ids_def split: list.splits wake.splits)
next
  case (step_migrate c now rnd)
  have "stream_ids (c\<lparr>pathChallenge := d\<rparr>) = stream_ids c" for d by (simp add: stream_ids_def)
  then show ?case
    by (intro keeps_refl) (simp add: startMigration_def stream_ids_cong [OF core_sendFrames] split: option.split)
next
  case (step_migrated c w d a)
  show ?case
    by (rule keeps_refl) (auto simp: finishMigration_def stream_ids_def Let_def split: option.splits wake.splits)
next
  case (step_enqueue c pkt)
  show ?case by (rule keeps_refl) (simp add: enqueue_def stream_ids_def)
next
  case (step_inbound c now)
  show ?case
  proof (cases "inbound c")
    case (Cons pkt rest)
    have "stream_ids (c\<lparr>inbound := rest\<rparr>) = stream_ids c" by (simp add: stream_ids_def)
    then show ?thesis
      using keeps_HandlePacket [of "c\<lparr>inbound := rest\<rparr>" gm now pkt]
      by (simp add: inbound_step_def Cons keeps_streams_def)
  qed (simp add: inbound_step_def keeps_refl)
next
  case (step_idle_timer c now)
  have "stream_ids (armIdleCheck now c) = stream_ids c" by (simp add: armIdleCheck_def stream_ids_def)
  then show ?case by (intro keeps_refl) (simp add: onIdleCheck_def)
qed (simp_all add: keeps_HandlePacket keeps_open keeps_refl stream_ids_observe
    stream_ids_cong [OF core_timers(1)] stream_ids_cong [OF core_timers(2)] stream_ids_cong [OF core_detect(2)]
    stream_ids_cong [OF core_flushLost] Ping_def stream_ids_cong [OF core_sendFrames])

lemma keeps_run: "(conn_step gm)\<^sup>*\<^sup>* c c' \<Longrightarrow> keeps_streams c c'"
  by (induction rule: rtranclp_induct) (blast intro: keeps_refl keeps_trans keeps_step)+

section \<open>Packets that fit\<close>

definition wf_conn :: "Connection \<Rightarrow> bool" where
  "wf_conn c \<longleftrightarrow> wf_cid (localCID c) \<and> wf_cid (remoteCID c)"

definition overhead :: "Connection \<Rightarrow> nat" where
  "overhead c = headerLen (conn_packet c 0 0 0 []) + streamFrameHeaderLen"

lemma encode_wf: "wf_packet pkt \<Longrightarrow> encode pkt c = (packet_bytes pkt, c)"
  by (simp add: encode_def MarshalPacket_eq)

lemma frame_size_eq:
  "wf_conn c \<Longrightarrow> frame_size p f c = (int (overhead c + length (Data f)), c)"
proof -
  assume wf: "wf_conn c"
  let ?k = "conn_packet c 0 (sp_DestinationStreamID (cells (c_pm c) p)) (sp_SourceStreamID (cells (c_pm c) p)) [Frame.Stream f]"
  have w: "wf_packet ?k" using wf by (simp add: wf_packet_def conn_packet_def wf_conn_def)
  have "length (packet_bytes ?k) = overhead c + length (Data f)"
    using length_header_bytes [OF w] length_frames_bytes [of "Frames ?k"] w
    by (simp add: packet_bytes_def overhead_def headerLen_def conn_packet_def wf_packet_def)
  then show ?thesis by (simp add: frame_size_def encode_wf [OF w])
qed

definition piece_cell :: "Connection \<Rightarrow> packet_ptr \<Rightarrow> StreamFrame \<Rightarrow> SentPacket" where
  "piece_cell c p f = (let pkt = cells (c_pm c) p in
     (sent_packet 0 (int (overhead c + length (Data f))) [Frame.Stream f] (sp_DestinationStreamID pkt) (sp_SourceStreamID pkt))
       \<lparr>FirstSentTime := FirstSentTime pkt, RetransmitCount := RetransmitCount pkt\<rparr>)"

definition put_cells :: "packet_ptr \<Rightarrow> SentPacket list \<Rightarrow> (packet_ptr \<Rightarrow> SentPacket) \<Rightarrow> packet_ptr \<Rightarrow> SentPacket" where
  "put_cells n ks m = (\<lambda>a. if n \<le> a \<and> a < n + length ks then ks ! (a - n) else m a)"

lemma put_cells_Nil [simp]: "put_cells n [] m = m"
  by (rule ext) (auto simp: put_cells_def)

lemma put_cells_one: "put_cells n [k] m = m(n := k)"
  by (rule ext) (auto simp: put_cells_def)

lemma put_cells_Cons: "put_cells (Suc n) ks (m(n := k)) = put_cells n (k # ks) m"
proof
  fix a
  show "put_cells (Suc n) ks (m(n := k)) a = put_cells n (k # ks) m a"
    by (cases "a = n") (auto simp: put_cells_def nth_Cons' Suc_diff_le)
qed

lemma put_cells_below: "a < n \<Longrightarrow> put_cells n ks m a = m a"
  by (simp add: put_cells_def)

lemma put_cells_new: "map (put_cells n ks m) [n..<n + length ks] = ks"
  by (rule nth_equalityI) (simp_all add: put_cells_def)

definition with_cells :: "SentPacket list \<Rightarrow> Connection \<Rightarrow> Connection" where
  "with_cells ks c = c\<lparr>nextCell := nextCell c + length ks,
     c_pm := (c_pm c)\<lparr>cells := put_cells (nextCell c) ks (cells (c_pm c))\<rparr>\<rparr>"

lemma with_cells_Nil [simp]: "with_cells [] c = c"
  by (simp add: with_cells_def)

lemma with_cells_Cons: "with_cells ks (with_cells [k] c) = with_cells (k # ks) c"
  by (simp add: with_cells_def put_cells_one put_cells_Cons)

lemma new_packet_with: "new_packet k c = (nextCell c, with_cells [k] c)"
  by (simp add: new_packet_def with_cells_def put_cells_one)

lemma with_cells_same [simp]: "overhead (with_cells ks c) = overhead c" "wf_conn (with_cells ks c) = wf_conn c"
  "nextCell (with_cells ks c) = nextCell c + length ks"
  by (simp_all add: with_cells_def overhead_def wf_conn_def conn_packet_def headerLen_def)

lemma cells_with_below: "p < nextCell c \<Longrightarrow> cells (c_pm (with_cells ks c)) p = cells (c_pm c) p"
  by (simp add: with_cells_def put_cells_below)

lemma add_pieces:
  assumes "wf_conn c" "p < nextCell c"
  shows "fold (add_piece p) fs (ps, c)
    = (ps @ [nextCell c ..< nextCell c + length fs], with_cells (map (piece_cell c p) fs) c)"
  using assms
proof (induction fs arbitrary: ps c)
  case (Cons f fs)
  let ?d = "with_cells [piece_cell c p f] c"
  have "add_piece p f (ps, c) = (ps @ [nextCell c], ?d)"
    using Cons.prems by (simp add: add_piece_def frame_size_eq new_packet_with Let_def piece_cell_def)
  moreover have "piece_cell ?d p = piece_cell c p"
    using Cons.prems(2) by (intro ext) (simp add: piece_cell_def cells_with_below)
  moreover have "fold (add_piece p) fs (ps @ [nextCell c], ?d)
      = ((ps @ [nextCell c]) @ [nextCell ?d ..< nextCell ?d + length fs], with_cells (map (piece_cell ?d p) fs) ?d)"
    using Cons.prems by (intro Cons.IH) simp_all
  moreover have "[nextCell c ..< nextCell c + length (f # fs)] = nextCell c # [nextCell ?d ..< nextCell ?d + length fs]"
    by (simp add: upt_conv_Cons del: upt_Suc)
  ultimately show ?case by (simp add: with_cells_Cons del: upt_Suc)
qed simp

lemma cells_untrack [simp]: "nextCell (upd_pm (Drop p) c) = nextCell c" "cells (c_pm (upd_pm (Drop p) c)) = cells (c_pm c)"
  "overhead (upd_pm (Drop p) c) = overhead c" "wf_conn (upd_pm (Drop p) c) = wf_conn c"
  by (simp_all add: upd_pm_def Drop_def overhead_def wf_conn_def conn_packet_def headerLen_def)

text \<open>Either the packet is returned as it is, or it is dropped for the frames its data is cut into.\<close>

lemma fitToPath_cases:
  assumes "wf_conn c" "p < nextCell c"
  shows "fitToPath p c = ([p], c) \<or>
    (\<exists>sf. sp_Frames (cells (c_pm c) p) = [Frame.Stream sf] \<and>
      (let k = nat (Current (c_mtu c) - int (overhead c));
           fs = piece_frames k (Offset sf) (Data sf) (IsSyn sf) (IsFin sf)
       in 0 < k \<and> int (overhead c) + int k = Current (c_mtu c) \<and> k < length (Data sf)
          \<and> fitToPath p c = ([nextCell c ..< nextCell c + length fs],
               with_cells (map (piece_cell c p) fs) (upd_pm (Drop p) c))))"
proof -
  have pc: "piece_cell (upd_pm (Drop p) c) p = piece_cell c p" by (intro ext) (simp add: piece_cell_def)
  show ?thesis
    using assms add_pieces [of "upd_pm (Drop p) c" p _ "[]"]
    by (auto simp: fitToPath_def Let_def frame_size_eq pc split: list.splits Frame.splits)
qed

section \<open>The resend queue drains\<close>

text \<open>
  The queue's packets are allocated. A round of the loop that does not stop it takes something off
  the weight of the queue.
\<close>

definition weight :: "SentPacket \<Rightarrow> nat" where
  "weight k = max 1 (2 * frame_bytes_of (sp_Frames k) - 1)"

definition queue_weight :: "Connection \<Rightarrow> nat" where
  "queue_weight c = sum_list (map (\<lambda>p. weight (cells (c_pm c) p)) (lostQueue c))"

definition queue_ok :: "Connection \<Rightarrow> bool" where
  "queue_ok c \<longleftrightarrow> wf_conn c \<and> (\<forall>p \<in> set (lostQueue c). p < nextCell c)"

lemma weight_pos: "0 < weight k"
  by (simp add: weight_def)

lemma weight_cong: "sp_Frames k' = sp_Frames k \<Longrightarrow> weight k' = weight k"
  by (simp add: weight_def)

lemma resend_frames: "sp_Frames (cells (fst (Resend now p pm)) a) = sp_Frames (cells pm a)"
  by (simp add: Resend_def Let_def)

lemma retransmit_fields [simp]:
  "c_pm (retransmitPacket p seq c) = c_pm c" "lostQueue (retransmitPacket p seq c) = lostQueue c"
  "nextCell (retransmitPacket p seq c) = nextCell c" "c_cc (retransmitPacket p seq c) = c_cc c"
  "lostTimer (retransmitPacket p seq c) = lostTimer c" "closeCh (retransmitPacket p seq c) = closeCh c"
  "localCID (retransmitPacket p seq c) = localCID c" "remoteCID (retransmitPacket p seq c) = remoteCID c"
  by (simp_all add: retransmitPacket_def put_wire_def encode_def Let_def split: sum.splits prod.splits)

lemma resend_lost_fields:
  "c_pm (resend_lost now p c) = fst (Resend now p (c_pm c))" "lostQueue (resend_lost now p c) = lostQueue c"
  "nextCell (resend_lost now p c) = nextCell c" "wf_conn (resend_lost now p c) = wf_conn c"
  by (auto simp: resend_lost_def upd_cc_def upd_pacer_def Let_def wf_conn_def split: prod.splits option.splits)

lemma piece_frames_two: "0 < k \<Longrightarrow> k < length data \<Longrightarrow> 2 \<le> length (piece_frames k off data syn fin)"
  by (auto simp: piece_frames.simps [of k off data] piece_frames.simps [of k _ "drop k data"])

lemma fitToPath_single:
  assumes "wf_conn c" "p < nextCell c"
  shows "fitToPath p c = ([p], c) \<or> length (fst (fitToPath p c)) > 1"
proof -
  have "1 < length (piece_frames k (Offset sf) (Data sf) (IsSyn sf) (IsFin sf))" if "0 < k" "k < length (Data sf)" for k sf
    using piece_frames_two [OF that, of "Offset sf" "IsSyn sf" "IsFin sf"] by simp
  then show ?thesis
    using fitToPath_cases [OF assms] unfolding Let_def by (metis add_diff_cancel_left' fst_conv length_upt)
qed

lemma pieces_weight:
  assumes "0 < k" "k < length data"
  shows "sum_list (map (\<lambda>f. weight (piece_cell c p f)) (piece_frames k off data syn fin)) < 2 * length data - 1"
proof -
  let ?fs = "piece_frames k off data syn fin"
  have w: "weight (piece_cell c p f) + 1 = 2 * length (Data f)" if "f \<in> set ?fs" for f
    using piece_frames_size [OF that]
    by (cases "Data f") (simp_all add: weight_def piece_cell_def sent_packet_def frame_bytes_of_def Let_def)
  have "sum_list (map (\<lambda>f. weight (piece_cell c p f)) ?fs) + length ?fs = sum_list (map (\<lambda>f. weight (piece_cell c p f) + 1) ?fs)"
    by (simp add: sum_list_Suc)
  also have "\<dots> = sum_list (map (\<lambda>f. 2 * length (Data f)) ?fs)" using w by (simp cong: map_cong)
  also have "\<dots> = 2 * length (concat (map Data ?fs))" by (simp add: length_concat comp_def sum_list_const_mult)
  also have "\<dots> = 2 * length data" using assms(1) by (simp add: piece_frames_data)
  finally have s: "sum_list (map (\<lambda>f. weight (piece_cell c p f)) ?fs) + length ?fs = 2 * length data" .
  then show ?thesis using piece_frames_two [OF assms, of off syn fin] assms by linarith
qed

lemma flush_round_progress:
  assumes "queue_ok c" "lostQueue c = p # rest" "flush_round gm now p rest c = (c', True)"
  shows "queue_ok c' \<and> queue_weight c' < queue_weight c"
proof -
  have wf: "wf_conn c" "p < nextCell c" "\<forall>q \<in> set rest. q < nextCell c" using assms(1,2) by (auto simp: queue_ok_def)
  let ?m = "cells (c_pm c)" and ?W = "\<lambda>m. sum_list (map (\<lambda>p. weight (m p)) rest)"
  have W: "queue_weight c = weight (?m p) + ?W ?m" by (simp add: queue_weight_def assms(2))
  define fit where "fit = (if sp_Size (?m p) > Current (c_mtu c) then fitToPath p c else ([p], c))"
  have pop: ?thesis if "c' = c\<lparr>lostQueue := rest\<rparr>"
    using that wf weight_pos [of "?m p"] W by (simp add: queue_ok_def queue_weight_def wf_conn_def)
  have resend: ?thesis if "c' = resend_lost now p (c\<lparr>lostQueue := rest\<rparr>)"
    using wf weight_pos [of "?m p"] W unfolding that
    by (simp add: queue_ok_def queue_weight_def resend_lost_fields weight_cong [OF resend_frames]) (simp add: wf_conn_def)
  have split: ?thesis
    if h: "c' = d\<lparr>lostQueue := ps @ rest\<rparr>" "fitToPath p c = (ps, d)" "fitToPath p c \<noteq> ([p], c)" for ps d
  proof -
    obtain sf where sf: "sp_Frames (?m p) = [Frame.Stream sf]" and
      r: "let k = nat (Current (c_mtu c) - int (overhead c)); fs = piece_frames k (Offset sf) (Data sf) (IsSyn sf) (IsFin sf)
       in 0 < k \<and> int (overhead c) + int k = Current (c_mtu c) \<and> k < length (Data sf)
          \<and> fitToPath p c = ([nextCell c ..< nextCell c + length fs], with_cells (map (piece_cell c p) fs) (upd_pm (Drop p) c))"
      using fitToPath_cases [OF wf(1,2)] h(3) by blast
    define k where "k = nat (Current (c_mtu c) - int (overhead c))"
    define ks where "ks = map (piece_cell c p) (piece_frames k (Offset sf) (Data sf) (IsSyn sf) (IsFin sf))"
    have e: "0 < k" "k < length (Data sf)" "ps = [nextCell c ..< nextCell c + length ks]" "d = with_cells ks (upd_pm (Drop p) c)"
      using r h(2) by (simp_all add: Let_def k_def ks_def)
    have m: "cells (c_pm d) = put_cells (nextCell c) ks ?m" "nextCell d = nextCell c + length ks" "wf_conn d"
      using wf(1) by (simp_all add: e(4)) (simp add: with_cells_def)
    have "map (cells (c_pm d)) ps = ks" unfolding m e(3) by (rule put_cells_new)
    then have "sum_list (map (\<lambda>p. weight (cells (c_pm d) p)) ps) = sum_list (map weight ks)"
      by (metis (no_types, lifting) comp_apply map_map map_eq_conv)
    also have "\<dots> < weight (?m p)"
      using pieces_weight [OF e(1,2), of c p "Offset sf" "IsSyn sf" "IsFin sf"]
      by (simp add: ks_def comp_def weight_def [of "?m p"] sf frame_bytes_of_def)
    finally have "sum_list (map (\<lambda>p. weight (cells (c_pm d) p)) ps) < weight (?m p)" .
    moreover have "?W (cells (c_pm d)) = ?W ?m"
      using wf(3) by (intro arg_cong [of _ _ sum_list] map_cong) (simp_all add: m(1) put_cells_below)
    ultimately show ?thesis
      using W wf m(2,3) unfolding h(1) by (auto simp: queue_ok_def queue_weight_def e(3)) (auto simp: wf_conn_def)
  qed
  have two: "fitToPath p c = ([p], c) \<or> length (fst (fitToPath p c)) > 1"
    by (rule fitToPath_single [OF wf(1,2)])
  show ?thesis
  proof (cases "fit = ([p], c)")
    case True
    then show ?thesis using assms(3) pop resend
      unfolding flush_round_def fit_def [symmetric] by (auto simp: Let_def split: if_splits)
  next
    case False
    then have f: "fit = fitToPath p c" "fitToPath p c \<noteq> ([p], c)" "length (fst fit) > 1"
      using two by (auto simp: fit_def split: if_splits)
    obtain ps d where pd: "fitToPath p c = (ps, d)" by fastforce
    have "closeCh c \<Longrightarrow> False" using assms(3) by (auto simp: flush_round_def)
    then have "c' = c\<lparr>lostQueue := rest\<rparr> \<or> c' = d\<lparr>lostQueue := ps @ rest\<rparr>"
      using assms(3) f pd unfolding flush_round_def fit_def [symmetric] by (auto split: if_splits)
    then show ?thesis using pop split [OF _ pd f(2)] by blast
  qed
qed

definition stopped :: "Connection \<Rightarrow> bool" where
  "stopped c \<longleftrightarrow> lostQueue c = [] \<or> lostTimer c \<noteq> None
     \<or> (\<exists>p rest. lostQueue c = p # rest \<and> \<not> CC_CanSend (sp_Size (cells (c_pm c) p)) (c_cc c))"

lemma flush_round_stops:
  assumes "queue_ok c" "lostQueue c = p # rest" "flush_round gm now p rest c = (c', False)"
  shows "stopped c'"
proof -
  have wf: "wf_conn c" "p < nextCell c" using assms(1,2) by (auto simp: queue_ok_def)
  have one: "fitToPath p c = ([p], c) \<or> length (fst (fitToPath p c)) > 1"
    by (rule fitToPath_single [OF wf])
  show ?thesis using assms(2,3) one
    by (auto simp: flush_round_def stopped_def Let_def case_prod_beta split: if_splits)
qed

lemma flush_loop_stops: "queue_ok c \<Longrightarrow> queue_weight c \<le> n \<Longrightarrow> stopped (flush_loop n gm now c)"
proof (induction n arbitrary: c)
  case 0
  then have "lostQueue c = []" by (cases "lostQueue c") (auto simp: queue_weight_def weight_def)
  then show ?case by (simp add: stopped_def)
next
  case (Suc n)
  show ?case
  proof (cases "lostQueue c")
    case (Cons p rest)
    obtain c' more where r: "flush_round gm now p rest c = (c', more)" by fastforce
    show ?thesis
    proof (cases more)
      case True
      with flush_round_progress [OF Suc.prems(1) Cons] r have "queue_ok c'" "queue_weight c' < queue_weight c" by auto
      then show ?thesis using Suc r Cons True by simp
    next
      case False
      then show ?thesis using flush_round_stops [OF Suc.prems(1) Cons] r Cons by simp
    qed
  qed (simp add: stopped_def)
qed

lemma flush_rounds_enough: "queue_weight c \<le> flush_rounds c"
  unfolding queue_weight_def flush_rounds_def by (rule sum_list_mono) (simp add: weight_def)

section \<open>Closing and acknowledging\<close>

lemma closeInternal_closed:
  fixes now :: time and code :: uint32 and reason :: "byte list" and announce :: bool
  assumes "\<not> (c_state c = ConnStateClosing \<or> c_state c = ConnStateClosed)"
  defines "c' \<equiv> closeInternal now code reason announce c"
  shows "c_state c' = ConnStateClosed \<and> closeCh c' \<and> onCloseCalled c' \<and> lostQueue c' = [] \<and> lostTimer c' = None
    \<and> ptoTimer (c_cc c') = None \<and> lossTimer (c_pm c') = None \<and> sentPackets (c_pm c') = []
    \<and> (\<forall>(k, s) \<in> set (streams c'). state s = StreamStateReset)"
  using assms
  by (auto simp: closeInternal_def Let_def CC_Destroy_def PM_Destroy_def DeliverReset_def)

lemma sendPacket_ack:
  "ackPending (sendPacket now dst src fs c) = ackPending c" "ackTimer (sendPacket now dst src fs c) = ackTimer c"
  by (simp_all add: sendPacket_def Let_def put_wire_def encode_def new_packet_def upd_cc_def upd_pm_def
      amplification_blocked_def case_prod_beta split: sum.splits)

text \<open>At most one packet waits for its acknowledgement, and the timer is running for it.\<close>

definition ack_inv :: "time \<Rightarrow> Connection \<Rightarrow> bool" where
  "ack_inv now c = (case ackTimer c of
       None \<Rightarrow> ackPending c = 0
     | Some (t, src, dst) \<Rightarrow> ackPending c = 1 \<and> t \<le> now + MaxAckDelay)"

lemma ack_inv_note: "ack_inv now c \<Longrightarrow> now \<le> now' \<Longrightarrow> ack_inv now' (noteReceived now' pkt c)"
  by (auto simp: noteReceived_def ack_inv_def Let_def case_prod_beta sendPacket_ack takeAckLocked_def
      split: option.splits)

fun arrivals :: "(time \<times> Packet) list \<Rightarrow> Connection \<Rightarrow> Connection" where
  "arrivals [] c = c"
| "arrivals ((now, pkt) # es) c = arrivals es (noteReceived now pkt c)"

lemma ack_inv_arrivals:
  "ack_inv t c \<Longrightarrow> sorted (t # map fst es) \<Longrightarrow> ack_inv (last (t # map fst es)) (arrivals es c)"
proof (induction es arbitrary: t c)
  case (Cons e es)
  then show ?case using ack_inv_note [of t c "fst e" "snd e"] by (cases e) auto
qed simp

section \<open>Probes\<close>

text \<open>What a probe leaves alone: the window and the bytes in flight.\<close>

definition window :: "Connection \<Rightarrow> int \<times> int \<times> int" where
  "window c = (cwnd (c_cc c), ssthresh (c_cc c), inflight (c_cc c))"

lemma window_encode [simp]: "window (snd (encode pkt c)) = window c"
  by (simp add: window_def encode_def split: sum.splits)

lemma window_new [simp]: "window (snd (new_packet k c)) = window c"
  by (simp add: window_def new_packet_def)

lemma window_updates [simp]: "window (upd_pm f c) = window c" "window (upd_mtu g c) = window c"
  "window (upd_pacer h c) = window c" "window (c\<lparr>c_pm := pm\<rparr>) = window c"
  by (simp_all add: window_def upd_pm_def upd_mtu_def upd_pacer_def upd_cc_def)

lemma window_retransmit [simp]: "window (retransmitPacket p seq c) = window c"
  by (simp add: window_def)

lemma window_add_piece: "window (snd (add_piece p f s)) = window (snd s)"
  by (simp add: add_piece_def frame_size_def Let_def case_prod_beta)

lemma window_fold_pieces: "window (snd (fold (add_piece p) fs s)) = window (snd s)"
  by (induction fs arbitrary: s) (simp_all add: window_add_piece)

lemma window_fitToPath [simp]: "window (snd (fitToPath p c)) = window c"
  by (auto simp: fitToPath_def frame_size_def Let_def case_prod_beta window_fold_pieces split: list.splits Frame.splits)

lemma window_probes: "window (fold (probe_piece now) qs c) = window c"
proof (induction qs arbitrary: c)
  case (Cons q qs)
  have "window (probe_piece now q c) = window c"
    by (auto simp: probe_piece_def Let_def split: prod.splits option.splits)
  then show ?case using Cons by simp
qed simp

lemma window_onPTO: "window (onPTO now c) = window c"
proof -
  have "window (fold (\<lambda>p c. let (pieces, c) = fitToPath p c in fold (probe_piece now) pieces c) ps c) = window c" for ps c
    by (induction ps arbitrary: c) (simp_all add: Let_def case_prod_beta window_probes)
  then show ?thesis by (simp add: onPTO_def Let_def)
qed

lemma window_ptoTimerFired: "window (ptoTimerFired now c) = window c"
proof -
  have "window (upd_cc (\<lambda>cc. cc\<lparr>ptoCount := ptoCount cc + 1, ptoTimer := None\<rparr>) c) = window c"
    by (simp add: window_def upd_cc_def)
  then show ?thesis
    using window_onPTO [of now "upd_cc (\<lambda>cc. cc\<lparr>ptoCount := ptoCount cc + 1, ptoTimer := None\<rparr>) c"]
    by (simp add: ptoTimerFired_def onPtoTimeout_def Let_def window_def)
qed

section \<open>Properties\<close>

text \<open>A connection for the concrete instances.\<close>

definition sample_cid :: ConnectionID where
  "sample_cid = \<lparr>cid_data = replicate 20 0, cid_len = 0\<rparr>"

definition sample_conn :: Connection where
  "sample_conn = NewConnection 1 (\<lambda>_. sample_packet 0) sample_cid sample_cid ''a'' (Some ''b'') True"

lemmas sample_conn_defs = sample_conn_def NewConnection_def startIdleTimer_def armIdleCheck_def

lemma sample_conn_wf: "wf_conn sample_conn"
  by (simp add: wf_conn_def sample_conn_defs sample_cid_def wf_cid_def)


definition sample_answer :: Packet where
  "sample_answer = \<lparr>Version = 3, DestinationCID = sample_cid, SourceCID = sample_cid, Sequence = 0,
     DestinationStreamID = 0, SourceStreamID = 0, Frames = [PathResponseFrame (replicate 8 7)],
     Packet_SentTime = 0, Packet_IsAcked = False, wireLen = 30\<rparr>"



definition large_packet :: SentPacket where
  "large_packet = sent_packet 0 1440 [Frame.Stream \<lparr>IsFin = True, IsSyn = False, Offset = 10, Data = replicate 1400 9\<rparr>] 2 1"

definition shrunk_conn :: Connection where
  "shrunk_conn = with_cells [large_packet] sample_conn"

lemma shrunk_conn_fields:
  "wf_conn shrunk_conn" "nextCell shrunk_conn = 1" "cells (c_pm shrunk_conn) 0 = large_packet"
  "c_mtu shrunk_conn = NewMTUDiscovery" "overhead shrunk_conn = 30" "Current NewMTUDiscovery = 1200"
  using sample_conn_wf
  by (simp_all add: shrunk_conn_def with_cells_def put_cells_def sample_conn_defs overhead_def headerLen_def
      conn_packet_def sample_cid_def Len_def NewMTUDiscovery_def restartLocked_def Current_def wf_conn_def)


text \<open>
  C31. The loop that sends lost packets again ends, and stops only for a reason: the queue is
  empty, the pacer's timer has been set to resume it, or the window is full for the packet at its
  head (the next acknowledgement resumes it).
\<close>

theorem flushLost_stops_for_cause:
  assumes "queue_ok c"
  shows "stopped (flushLost gm now c)"
proof -
  have "queue_ok (c\<lparr>lostTimer := None\<rparr>)" using assms by (simp add: queue_ok_def wf_conn_def)
  then show ?thesis unfolding flushLost_def Let_def by (intro flush_loop_stops flush_rounds_enough)
qed

theorem flushLost_stops_for_cause_witness:
  "stopped (flushLost sample_math 5 (shrunk_conn\<lparr>lostQueue := [0]\<rparr>))"
  by (rule flushLost_stops_for_cause)
     (use shrunk_conn_fields(1) in \<open>simp add: queue_ok_def shrunk_conn_fields wf_conn_def\<close>)



text \<open>
  C33. A probe timeout leaves the window, the threshold and the bytes in flight as they are, and
  while bytes are in flight the timer is armed again afterwards.
\<close>

theorem pto_keeps_window:
  "cwnd (c_cc (ptoTimerFired now c)) = cwnd (c_cc c) \<and> ssthresh (c_cc (ptoTimerFired now c)) = ssthresh (c_cc c)
   \<and> inflight (c_cc (ptoTimerFired now c)) = inflight (c_cc c)
   \<and> (inflight (c_cc c) \<le> 0 \<or> (\<exists>t. ptoTimer (c_cc (ptoTimerFired now c)) = Some t))"
proof -
  have w: "window (ptoTimerFired now c) = window c" by (rule window_ptoTimerFired)
  have "inflight (c_cc (ptoTimerFired now c)) > 0 \<Longrightarrow> \<exists>t. ptoTimer (c_cc (ptoTimerFired now c)) = Some t"
    by (auto simp: ptoTimerFired_def onPtoTimeout_def Let_def split: if_splits)
  then show ?thesis using w by (cases "0 < inflight (c_cc c)") (auto simp: window_def)
qed

text \<open>
  What a writer is granted lies between the least it asked for and the most, and exceeds the
  room left in the congestion window only by that least.
\<close>

lemma grant_within_request:
  assumes "minSize \<le> maxSize"
  shows "minSize \<le> grant_up_to minSize maxSize c \<and> grant_up_to minSize maxSize c \<le> maxSize
    \<and> grant_up_to minSize maxSize c \<le> max minSize (Available (c_cc c))"
  using assms by (simp add: grant_up_to_def Let_def)

text \<open>
  Closing happens once and ends everything: the state is closed, every stream is reset, no
  timer is armed, nothing is tracked or queued, and closing again changes nothing.
\<close>

lemma close_is_final:
  assumes "\<not> (c_state c = ConnStateClosing \<or> c_state c = ConnStateClosed)"
  shows "let c' = closeInternal now code reason announce c
    in c_state c' = ConnStateClosed \<and> closeCh c' \<and> onCloseCalled c' \<and> lostQueue c' = [] \<and> lostTimer c' = None
      \<and> ptoTimer (c_cc c') = None \<and> lossTimer (c_pm c') = None \<and> sentPackets (c_pm c') = []
      \<and> (\<forall>(k, s) \<in> set (streams c'). state s = StreamStateReset)
      \<and> closeInternal now' code' reason' announce' c' = c'"
proof -
  note cl = closeInternal_closed [OF assms, of now code reason announce]
  have "closeInternal now' code' reason' announce' (closeInternal now code reason announce c) = closeInternal now code reason announce c"
    using cl by (simp add: closeInternal_def [of now'])
  then show ?thesis using cl by (simp add: Let_def)
qed



end
