(* ===== verification/Udx_Safety.thy ===== *)
theory Udx_Safety
  imports Udx_Connection
begin

text \<open>
  The invariant of a connection: its CIDs are well formed, the packets its manager tracks and its
  queue holds are allocated and carry well-formed frames, the datagram size is at least the safe
  one, and nothing has panicked. Every handler, timer and call of the application keeps it.
\<close>

section \<open>The invariant\<close>

definition mem_ok :: "Connection \<Rightarrow> bool" where
  "mem_ok c \<longleftrightarrow> pm_inv (c_pm c)
     \<and> (\<forall>p \<in> tracked_ptrs (c_pm c) \<union> set (lostQueue c). p < nextCell c)
     \<and> (\<forall>p < nextCell c. list_all wf_frame (sp_Frames (cells (c_pm c) p)))"

definition conn_inv :: "Connection \<Rightarrow> bool" where
  "conn_inv c \<longleftrightarrow> wf_conn c \<and> mem_ok c \<and> SafeDatagramSize \<le> Current (c_mtu c)
     \<and> list_all wf_packet (inbound c) \<and> \<not> panicked c"

named_theorems inv_simps

lemma inv_fields [inv_simps]:
  "conn_inv (c\<lparr>remoteAddr := ra\<rparr>) = conn_inv c" "conn_inv (c\<lparr>c_state := st\<rparr>) = conn_inv c"
  "conn_inv (c\<lparr>streams := ss\<rparr>) = conn_inv c" "conn_inv (c\<lparr>nextStreamID := sid\<rparr>) = conn_inv c"
  "conn_inv (c\<lparr>maxStreams := n\<rparr>) = conn_inv c" "conn_inv (c\<lparr>incomingStreams := ks\<rparr>) = conn_inv c"
  "conn_inv (c\<lparr>c_cc := cc\<rparr>) = conn_inv c" "conn_inv (c\<lparr>c_fc := fc\<rparr>) = conn_inv c"
  "conn_inv (c\<lparr>ackedLarge := b\<rparr>) = conn_inv c" "conn_inv (c\<lparr>pathChallenge := d\<rparr>) = conn_inv c"
  "conn_inv (c\<lparr>pathChallengeResp := r\<rparr>) = conn_inv c" "conn_inv (c\<lparr>pendingAddr := ra\<rparr>) = conn_inv c"
  "conn_inv (c\<lparr>pendingChallenge := d\<rparr>) = conn_inv c" "conn_inv (c\<lparr>pendingSentAt := t\<rparr>) = conn_inv c"
  "conn_inv (c\<lparr>recvd := tr\<rparr>) = conn_inv c" "conn_inv (c\<lparr>ackPending := n\<rparr>) = conn_inv c"
  "conn_inv (c\<lparr>ackTimer := tm\<rparr>) = conn_inv c" "conn_inv (c\<lparr>largestArrival := t\<rparr>) = conn_inv c"
  "conn_inv (c\<lparr>bytesSent := n\<rparr>) = conn_inv c" "conn_inv (c\<lparr>bytesReceived := n\<rparr>) = conn_inv c"
  "conn_inv (c\<lparr>addrValidated := b\<rparr>) = conn_inv c" "conn_inv (c\<lparr>lostTimer := ot\<rparr>) = conn_inv c"
  "conn_inv (c\<lparr>lastActivity := t\<rparr>) = conn_inv c" "conn_inv (c\<lparr>idleTimer := ot\<rparr>) = conn_inv c"
  "conn_inv (c\<lparr>closeCh := b\<rparr>) = conn_inv c" "conn_inv (c\<lparr>onCloseCalled := b\<rparr>) = conn_inv c"
  "conn_inv (c\<lparr>outbox := ob\<rparr>) = conn_inv c" "conn_inv (c\<lparr>inboundDropped := n\<rparr>) = conn_inv c"
  by (simp_all add: conn_inv_def mem_ok_def wf_conn_def)

lemma inv_helpers [inv_simps]:
  "conn_inv (upd_cc f c) = conn_inv c" "conn_inv (upd_pacer g c) = conn_inv c"
  "conn_inv (put_wire d a c) = conn_inv c" "conn_inv (upd_stream k h c) = conn_inv c"
  by (simp_all add: upd_cc_def upd_pacer_def put_wire_def upd_stream_def inv_simps)

lemma inv_queue_ok: "conn_inv c \<Longrightarrow> queue_ok c"
  by (simp add: conn_inv_def mem_ok_def queue_ok_def)

lemma inv_fold: "(\<And>x c. x \<in> set xs \<Longrightarrow> conn_inv c \<Longrightarrow> conn_inv (f x c)) \<Longrightarrow> conn_inv c \<Longrightarrow> conn_inv (fold f xs c)"
  by (induction xs arbitrary: c) simp_all

section \<open>Packets\<close>

text \<open>What an operation of the packet manager may do to the packets of a connection.\<close>

definition pm_keeps :: "PacketManager \<Rightarrow> PacketManager \<Rightarrow> bool" where
  "pm_keeps pm pm' \<longleftrightarrow> pm_inv pm' \<and> tracked_ptrs pm' \<subseteq> tracked_ptrs pm
     \<and> (\<forall>p. sp_Frames (cells pm' p) = sp_Frames (cells pm p))"

lemma inv_pm: "conn_inv c \<Longrightarrow> pm_keeps (c_pm c) pm' \<Longrightarrow> conn_inv (c\<lparr>c_pm := pm'\<rparr>)"
  by (auto simp: conn_inv_def mem_ok_def pm_keeps_def wf_conn_def)

lemma keeps_next: "pm_inv pm \<Longrightarrow> pm_keeps pm (snd (NextSequence pm))"
  using pm_inv_step [OF step_seq] by (simp add: pm_keeps_def NextSequence_def tracked_ptrs_def)

lemma keeps_untrack: "pm_inv pm \<Longrightarrow> pm_keeps pm (untrack p pm)"
  using pm_inv_untrack [of pm p] tracked_untrack [of pm p] by (auto simp: pm_keeps_def untrack_def pm_inv_def)

lemma keeps_destroy: "pm_inv pm \<Longrightarrow> pm_keeps pm (PM_Destroy pm)"
  using pm_inv_step [OF step_destroy] by (simp add: pm_keeps_def PM_Destroy_def tracked_ptrs_def)

lemma keeps_ack:
  assumes "pm_inv pm" "HandleAckFrame now f pm = (pm', acked)"
  shows "pm_keeps pm pm'" "set acked \<subseteq> tracked_ptrs pm"
proof -
  have wf: "wf_pm pm" using assms(1) by (simp add: pm_inv_def)
  note s = HandleAckFrame_spec [OF wf assms(2)]
  show "set acked \<subseteq> tracked_ptrs pm" using s(1) by blast
  show "pm_keeps pm pm'" using s(3,5) pm_inv_ack [OF assms(1), of now f] by (auto simp: pm_keeps_def assms(2))
qed

lemma keeps_detect:
  assumes "pm_inv pm" "detectLostLocked now cc pm = (pm', lost)"
  shows "pm_keeps pm pm'" "set lost \<subseteq> tracked_ptrs pm"
proof -
  have i: "pm_inv pm'" using pm_inv_detect [OF assms(1), of now cc] by (simp add: assms(2))
  have "pm_keeps pm pm' \<and> set lost \<subseteq> tracked_ptrs pm"
  proof (cases "pm_largestAcked pm < 0")
    case True
    then have e: "pm' = pm\<lparr>lossTimer := None\<rparr>" "lost = []" using assms(2) by (simp_all add: detectLostLocked_def)
    show ?thesis using i by (simp add: e pm_keeps_def tracked_ptrs_def)
  next
    case False
    then have "wf_pm pm" "0 \<le> pm_largestAcked pm" using assms(1) by (simp_all add: pm_inv_def)
    from detect_spec [OF this assms(2)] i show ?thesis by (auto simp: pm_keeps_def)
  qed
  then show "pm_keeps pm pm'" "set lost \<subseteq> tracked_ptrs pm" by blast+
qed

lemma keeps_timer:
  assumes "pm_inv pm" "onLossTimer now cc pm = (pm', lost)"
  shows "pm_keeps pm pm'" "set lost \<subseteq> tracked_ptrs pm"
proof -
  let ?q = "pm\<lparr>ackBeforeLoss := lastAckTime pm\<rparr>"
  have "pm_inv ?q" using assms(1) by (subst pm_inv_cong [of _ pm]) simp_all
  from keeps_detect [OF this assms(2) [unfolded onLossTimer_def]]
  show "pm_keeps pm pm'" "set lost \<subseteq> tracked_ptrs pm" by (simp_all add: pm_keeps_def tracked_ptrs_def)
qed

lemma tracked_update: "snd ` set (AList.update k p es) \<subseteq> insert p (snd ` set es)"
  by (induction es) auto

lemma inv_resend:
  assumes "conn_inv c" "p < nextCell c"
  shows "conn_inv (c\<lparr>c_pm := fst (Resend now p (c_pm c))\<rparr>)"
proof -
  let ?pm = "c_pm c" and ?pm' = "fst (Resend now p (c_pm c))"
  have i: "pm_inv ?pm" using assms(1) by (simp add: conn_inv_def mem_ok_def)
  have u: "tracked_ptrs (untrack p ?pm) \<subseteq> tracked_ptrs ?pm"
    using keeps_untrack [OF i] by (simp add: pm_keeps_def)
  have "sentPackets ?pm' = sentPackets ?pm \<or> sentPackets ?pm' = AList.update (nextSeq (untrack p ?pm)) p (sentPackets (untrack p ?pm))"
    by (simp add: Resend_def Let_def)
  moreover have "snd ` set (AList.update k p (sentPackets (untrack p ?pm))) \<subseteq> insert p (tracked_ptrs ?pm)" for k
    using tracked_update [of k p "sentPackets (untrack p ?pm)"] u unfolding tracked_ptrs_def by blast
  ultimately have t: "tracked_ptrs ?pm' \<subseteq> insert p (tracked_ptrs ?pm)"
    unfolding tracked_ptrs_def [of ?pm'] by (elim disjE) (simp_all only: tracked_ptrs_def subset_insertI)
  have "pm_inv ?pm'" by (rule pm_inv_resend [OF i])
  then show ?thesis
    using assms t unfolding conn_inv_def mem_ok_def wf_conn_def by (auto simp: resend_frames)
qed

lemma new_packet_eq: "new_packet k c = (nextCell c, with_cells [k] c)"
  by (rule new_packet_with)

lemma inv_new:
  assumes "conn_inv c" "list_all wf_frame (sp_Frames k)"
  shows "conn_inv (with_cells [k] c)"
proof -
  have "p \<noteq> nextCell c" if "p \<in> tracked_ptrs (c_pm c)" for p
    using that assms(1) by (auto simp: conn_inv_def mem_ok_def)
  moreover have "(q, p) \<in> set (sentPackets (c_pm c)) \<Longrightarrow> p \<in> tracked_ptrs (c_pm c)" for q p
    by (force simp: tracked_ptrs_def)
  ultimately have "pm_inv ((c_pm c)\<lparr>cells := (cells (c_pm c))(nextCell c := k)\<rparr>)"
    using assms(1) by (fastforce simp: conn_inv_def mem_ok_def pm_inv_def wf_pm_def tracked_ptrs_def)
  then show ?thesis
    using assms
    by (auto simp: conn_inv_def mem_ok_def wf_conn_def with_cells_def put_cells_one tracked_ptrs_def intro: less_SucI)
qed

lemma SendPacket_frames [simp]: "sp_Frames (cells (SendPacket now p pm) a) = sp_Frames (cells pm a)"
  by (simp add: SendPacket_def Let_def)

lemma inv_send:
  assumes "conn_inv c" "p < nextCell c" "\<not> IsAcked (cells (c_pm c) p)"
  shows "conn_inv (upd_pm (SendPacket now p) c)"
proof -
  have "pm_inv (SendPacket now p (c_pm c))"
    using assms by (intro pm_inv_send) (simp_all add: conn_inv_def mem_ok_def)
  moreover have "tracked_ptrs (SendPacket now p (c_pm c)) \<subseteq> insert p (tracked_ptrs (c_pm c))"
    using tracked_update [of _ p "sentPackets (c_pm c)"] by (simp add: tracked_ptrs_def SendPacket_def Let_def)
  ultimately show ?thesis
    using assms(1,2) unfolding conn_inv_def mem_ok_def upd_pm_def wf_conn_def by auto
qed

lemma inv_track:
  assumes "conn_inv c" "list_all wf_frame (sp_Frames k)" "\<not> IsAcked k"
  shows "conn_inv (upd_pm (SendPacket now (nextCell c)) (with_cells [k] c))"
  using assms(3) by (intro inv_send inv_new assms) (simp_all add: with_cells_def put_cells_one)

lemma inv_pm_op: "conn_inv c \<Longrightarrow> (\<And>pm. pm_inv pm \<Longrightarrow> pm_keeps pm (f pm)) \<Longrightarrow> conn_inv (upd_pm f c)"
  unfolding upd_pm_def by (rule inv_pm) (simp_all add: conn_inv_def mem_ok_def)

lemma inv_next: "conn_inv c \<Longrightarrow> conn_inv (c\<lparr>c_pm := (c_pm c)\<lparr>nextSeq := n\<rparr>\<rparr>)"
  by (rule inv_pm) (auto simp: pm_keeps_def tracked_ptrs_def conn_inv_def mem_ok_def pm_inv_def wf_pm_def)

lemma encode_conn:
  "conn_inv c \<Longrightarrow> list_all wf_frame fs
     \<Longrightarrow> encode (conn_packet c seq dst src fs) c = (packet_bytes (conn_packet c seq dst src fs), c)"
  by (rule encode_wf) (simp add: conn_inv_def wf_conn_def wf_packet_def conn_packet_def)

section \<open>Sending keeps it\<close>

lemma sent_packet_fields [simp]:
  "sp_Frames (sent_packet seq n fs dst src) = fs" "IsAcked (sent_packet seq n fs dst src) = False"
  by (simp_all add: sent_packet_def)

lemma inv_sendPacket:
  assumes "conn_inv c" "list_all wf_frame fs"
  shows "conn_inv (sendPacket now dst src fs c)"
proof (cases "list_ex data_frame fs")
  case True
  note i = inv_next [OF assms(1), of "nextSeq (c_pm c) + 1"]
  show ?thesis
    using inv_track [OF i, of "sent_packet (nextSeq (c_pm c)) n fs dst src" now for n] assms(2) True
    by (simp add: sendPacket_def NextSequence_def Let_def encode_conn [OF i assms(2)] new_packet_eq inv_simps)
next
  case False
  then show ?thesis using assms by (simp add: sendPacket_def Let_def encode_conn inv_simps)
qed

lemma inv_sendFrames: "conn_inv c \<Longrightarrow> list_all wf_frame fs \<Longrightarrow> conn_inv (sendFrames now fs c)"
  by (simp add: sendFrames_def inv_sendPacket)

lemma inv_retransmit: "conn_inv c \<Longrightarrow> p < nextCell c \<Longrightarrow> conn_inv (retransmitPacket p seq c)"
proof -
  assume a: "conn_inv c" "p < nextCell c"
  then have "list_all wf_frame (sp_Frames (cells (c_pm c) p))" by (simp add: conn_inv_def mem_ok_def)
  then show ?thesis using a by (simp add: retransmitPacket_def Let_def encode_conn inv_simps)
qed

lemma inv_prepare:
  assumes "conn_inv c" "list_all wf_frame fs"
  shows "conn_inv (fst (prepareDataPacket now dst src fs c))"
proof -
  note i = inv_next [OF assms(1), of "nextSeq (c_pm c) + 1"]
  show ?thesis
    using inv_track [OF i, of "sent_packet (nextSeq (c_pm c)) n fs dst src" now for n] assms(2)
    by (simp add: prepareDataPacket_def NextSequence_def Let_def encode_conn [OF i assms(2)] new_packet_eq inv_simps)
qed

lemma inv_writeDatagrams: "conn_inv c \<Longrightarrow> conn_inv (writeDatagrams bufs c)"
  unfolding writeDatagrams_def by (rule inv_fold) (simp_all add: inv_simps)

lemma inv_sendStreamFrames:
  assumes "conn_inv c" "0 < k"
  shows "conn_inv (sendStreamFrames_conn now sid rid off data k syn c)"
proof -
  let ?f = "\<lambda>f (c, bufs). case prepareDataPacket now rid sid [Frame.Stream f] c of
                   (c, Some buf) \<Rightarrow> (c, bufs @ [buf]) | (c, None) \<Rightarrow> (c, bufs)"
  have f: "conn_inv (fst (?f x s))" if "conn_inv (fst s)" for x s
    using inv_prepare [OF that, of "[Frame.Stream x]" now rid sid]
    by (auto simp: case_prod_beta split: option.splits)
  have "conn_inv (fst (fold ?f fs s))" if "conn_inv (fst s)" for fs s
    using that by (induction fs arbitrary: s) (simp_all only: fold_simps f)
  then show ?thesis
    using assms by (simp add: sendStreamFrames_conn_def case_prod_beta inv_writeDatagrams)
qed

fun call_ok :: "conn_call \<Rightarrow> bool" where
  "call_ok (sendStreamFrames sid rid off data k syn) \<longleftrightarrow> 0 < k"
| "call_ok _ \<longleftrightarrow> True"

lemma inv_run_call: "conn_inv c \<Longrightarrow> call_ok call \<Longrightarrow> conn_inv (run_call now call c)"
  by (cases call) (simp_all add: inv_sendPacket inv_sendStreamFrames)

lemma inv_run_calls: "conn_inv c \<Longrightarrow> list_all call_ok calls \<Longrightarrow> conn_inv (run_calls now calls c)"
  unfolding run_calls_def by (rule inv_fold) (auto simp: inv_run_call list_all_iff)

section \<open>Recovery keeps it\<close>

lemma nextCell_with: "nextCell (with_cells ks c) = nextCell c + length ks"
  by (simp add: with_cells_def)

lemma inv_add_piece:
  assumes "conn_inv (snd s)" "\<forall>q \<in> set (fst s). q < nextCell (snd s)" "p < nextCell (snd s)"
  shows "conn_inv (snd (add_piece p f s)) \<and> (\<forall>q \<in> set (fst (add_piece p f s)). q < nextCell (snd (add_piece p f s)))
    \<and> nextCell (snd s) \<le> nextCell (snd (add_piece p f s))"
proof -
  obtain qs c where s: "s = (qs, c)" by fastforce
  have e: "frame_size p f c = (int (overhead c + length (Data f)), c)"
    using assms(1) by (intro frame_size_eq) (simp add: s conn_inv_def)
  show ?thesis
    using assms nextCell_with [of _ c] by (auto simp: s add_piece_def e Let_def new_packet_eq less_SucI intro!: inv_new)
qed

lemma inv_fitToPath:
  assumes "conn_inv c" "p < nextCell c"
  shows "conn_inv (snd (fitToPath p c)) \<and> (\<forall>q \<in> set (fst (fitToPath p c)). q < nextCell (snd (fitToPath p c)))
    \<and> nextCell c \<le> nextCell (snd (fitToPath p c))"
proof -
  let ?ok = "\<lambda>s. conn_inv (snd s) \<and> (\<forall>q \<in> set (fst s). q < nextCell (snd s)) \<and> nextCell c \<le> nextCell (snd s)"
  have step: "?ok (add_piece p f s)" if "?ok s" for f s
    using inv_add_piece [of s p f] that assms(2) by fastforce
  have f: "?ok (fold (add_piece p) fs s)" if "?ok s" for fs s
    using fold_invariant [of fs "\<lambda>_. True" ?ok s "add_piece p"] step that by simp
  have d: "conn_inv (upd_pm (Drop p) c)"
    by (rule inv_pm_op [OF assms(1)]) (simp add: Drop_def keeps_untrack)
  have e: "frame_size p g c = (int (overhead c + length (Data g)), c)" for g
    using assms(1) by (intro frame_size_eq) (simp add: conn_inv_def)
  have "fitToPath p c = ([p], c) \<or> (\<exists>fs. fitToPath p c = fold (add_piece p) fs ([], upd_pm (Drop p) c))"
    by (auto simp: fitToPath_def Let_def e split: list.splits Frame.splits)
  then show ?thesis
    using f [of "([], upd_pm (Drop p) c)"] d assms by auto
qed

lemma inv_probe_piece: "conn_inv c \<Longrightarrow> q < nextCell c \<Longrightarrow> conn_inv (probe_piece now q c)"
  using inv_resend [of c q now] by (auto simp: probe_piece_def Let_def inv_simps inv_retransmit split: prod.splits option.splits)

lemma nextCell_probe [simp]: "nextCell (probe_piece now q c) = nextCell c"
  by (auto simp: probe_piece_def Let_def upd_pacer_def upd_cc_def split: prod.splits option.splits)

lemma inv_probes:
  "conn_inv c \<Longrightarrow> \<forall>q \<in> set qs. q < nextCell c
     \<Longrightarrow> conn_inv (fold (probe_piece now) qs c) \<and> nextCell (fold (probe_piece now) qs c) = nextCell c"
  by (induction qs arbitrary: c) (simp_all add: inv_probe_piece)

lemma mtu_floor:
  assumes "SafeDatagramSize \<le> current m"
  shows "SafeDatagramSize \<le> current (OnProbeAcked sz m)" "SafeDatagramSize \<le> current (OnProbeLost sz m)"
    "SafeDatagramSize \<le> current (OnDataAcked sz m)" "SafeDatagramSize \<le> current (OnDataLost now sz m)"
    "SafeDatagramSize \<le> current (Blackhole now m)" "SafeDatagramSize \<le> current (fst (NextProbe now m))"
  using assms by (auto simp: mtu_defs Let_def)

lemma inv_mtu: "conn_inv c \<Longrightarrow> SafeDatagramSize \<le> current m \<Longrightarrow> conn_inv (c\<lparr>c_mtu := m\<rparr>)"
  by (simp add: conn_inv_def mem_ok_def wf_conn_def Current_def)

lemma inv_mtu_op:
  "conn_inv c \<Longrightarrow> (\<And>m. SafeDatagramSize \<le> current m \<Longrightarrow> SafeDatagramSize \<le> current (f m)) \<Longrightarrow> conn_inv (upd_mtu f c)"
  unfolding upd_mtu_def by (rule inv_mtu) (simp_all add: conn_inv_def Current_def)

lemma oldest_tracked: "set (OldestUnacked n pm) \<subseteq> tracked_ptrs pm"
  by (auto simp: OldestUnacked_def tracked_ptrs_def dest!: in_set_takeD intro: rev_image_eqI)

lemma inv_onPTO:
  assumes "conn_inv c"
  shows "conn_inv (onPTO now c)"
proof -
  let ?g = "\<lambda>p c. let (pieces, c) = fitToPath p c in fold (probe_piece now) pieces c"
  have g: "conn_inv (?g p d) \<and> nextCell d \<le> nextCell (?g p d)" if "conn_inv d" "p < nextCell d" for p d
    using inv_fitToPath [OF that] inv_probes [of "snd (fitToPath p d)" "fst (fitToPath p d)" now]
    by (simp add: case_prod_beta)
  have f: "conn_inv (fold ?g ps d)" if "conn_inv d" "\<forall>p \<in> set ps. p < nextCell d" for ps d
    using that
  proof (induction ps arbitrary: d)
    case (Cons p ps)
    then show ?case using g [of d p] by (simp only: fold_simps) (meson less_le_trans list.set_intros)
  qed simp
  define d where "d = (if ptoCount (c_cc c) \<ge> BlackholePTOs then upd_mtu (Blackhole now) c else c)"
  have d: "conn_inv d" unfolding d_def using assms by (auto intro!: inv_mtu_op mtu_floor simp del: SafeDatagramSize_def)
  then have "\<forall>p \<in> set (OldestUnacked ptoProbes (c_pm d)). p < nextCell d"
    using oldest_tracked by (fastforce simp: conn_inv_def mem_ok_def)
  then show ?thesis using f [OF d] by (simp add: onPTO_def d_def Let_def)
qed

lemma inv_pto: "conn_inv c \<Longrightarrow> conn_inv (ptoTimerFired now c)"
  by (simp add: ptoTimerFired_def Let_def inv_simps inv_onPTO)

lemma inv_queue: "conn_inv c \<Longrightarrow> \<forall>p \<in> set ps. p < nextCell c \<Longrightarrow> conn_inv (c\<lparr>lostQueue := ps\<rparr>)"
  by (auto simp: conn_inv_def mem_ok_def wf_conn_def)

lemma inv_resend_lost: "conn_inv c \<Longrightarrow> p < nextCell c \<Longrightarrow> conn_inv (resend_lost now p c)"
  using inv_resend [of c p now]
  by (auto simp: resend_lost_def Let_def inv_simps upd_cc_def upd_pacer_def intro!: inv_retransmit
      split: prod.splits option.splits)

lemma lostQueue_fit [simp]: "lostQueue (snd (fitToPath p c)) = lostQueue c"
proof -
  have e: "lostQueue (snd (encode pkt d)) = lostQueue d" for pkt d by (simp add: encode_def split: sum.split)
  have "lostQueue (snd (add_piece p f s)) = lostQueue (snd s)" for f s
    by (simp add: add_piece_def frame_size_def Let_def case_prod_beta new_packet_def e)
  then have "lostQueue (snd (fold (add_piece p) fs s)) = lostQueue (snd s)" for fs s
    by (induction fs arbitrary: s) simp_all
  then show ?thesis
    by (auto simp: fitToPath_def frame_size_def Let_def case_prod_beta e upd_pm_def split: list.splits Frame.splits)
qed

lemma inv_flush_round:
  assumes "conn_inv c" "lostQueue c = p # rest"
  shows "conn_inv (fst (flush_round gm now p rest c))"
proof -
  have p: "p < nextCell c" "\<forall>q \<in> set rest. q < nextCell c" using assms by (auto simp: conn_inv_def mem_ok_def)
  define s where "s = (if sp_Size (cells (c_pm c) p) > Current (c_mtu c) then fitToPath p c else ([p], c))"
  have s: "conn_inv (snd s)" "\<forall>q \<in> set (fst s). q < nextCell (snd s)" "nextCell c \<le> nextCell (snd s)"
    using inv_fitToPath [OF assms(1) p(1)] assms(1) p(1) by (simp_all add: s_def)
  then have q: "\<forall>q \<in> set rest. q < nextCell (snd s)" "p < nextCell (snd s)" using p by fastforce+
  have r: "conn_inv (resend_lost now p ((snd s)\<lparr>lostQueue := rest\<rparr>))"
    using s q by (intro inv_resend_lost inv_queue) simp_all
  show ?thesis
    using assms(1) p s q r unfolding flush_round_def s_def [symmetric]
    by (auto simp: Let_def case_prod_beta inv_simps intro!: inv_queue)
qed

lemma inv_flush_loop: "conn_inv c \<Longrightarrow> conn_inv (flush_loop n gm now c)"
proof (induction n arbitrary: c)
  case (Suc n)
  show ?case
  proof (cases "lostQueue c")
    case (Cons p rest)
    with inv_flush_round [OF Suc(2)] have "conn_inv (fst (flush_round gm now p rest c))" by blast
    then show ?thesis using Suc by (simp add: Cons Let_def case_prod_beta)
  qed (simp add: Suc)
qed simp

lemma inv_flushLost: "conn_inv c \<Longrightarrow> conn_inv (flushLost gm now c)"
  by (simp add: flushLost_def Let_def inv_flush_loop inv_simps)

lemma mtu_floor_lost: "SafeDatagramSize \<le> current m \<Longrightarrow> SafeDatagramSize \<le> current (note_lost now b k m)"
  using mtu_floor [of m] by (auto simp: note_lost_def simp del: SafeDatagramSize_def)

lemma mtu_floor_acked: "SafeDatagramSize \<le> current m \<Longrightarrow> SafeDatagramSize \<le> current (note_acked k m)"
  using mtu_floor [of m] by (auto simp: note_acked_def simp del: SafeDatagramSize_def)

lemma inv_mtu_fold:
  "conn_inv c \<Longrightarrow> (\<And>x m. SafeDatagramSize \<le> current m \<Longrightarrow> SafeDatagramSize \<le> current (f x m)) \<Longrightarrow> conn_inv (upd_mtu (fold f xs) c)"
proof (rule inv_mtu_op)
  assume f: "\<And>x m. SafeDatagramSize \<le> current m \<Longrightarrow> SafeDatagramSize \<le> current (f x m)"
  show "SafeDatagramSize \<le> current (fold f xs m)" if "SafeDatagramSize \<le> current m" for m
    using that by (induction xs arbitrary: m) (simp_all only: fold_simps f)
qed

lemma inv_onPacketsLost:
  assumes "conn_inv c" "\<forall>p \<in> set lost. p < nextCell c"
  shows "conn_inv (onPacketsLost gm now lost c)"
proof -
  define d where "d = upd_mtu (fold (\<lambda>p. note_lost now (\<not> ackedLarge c) (cells (c_pm c) p)) lost) c"
  have d: "conn_inv d" "nextCell d = nextCell c" "lostQueue d = lostQueue c"
    unfolding d_def using assms(1) by (auto intro!: inv_mtu_fold mtu_floor_lost simp del: SafeDatagramSize_def) (simp_all add: upd_mtu_def)
  let ?l = "filter (\<lambda>p. \<not> Probe (cells (c_pm c) p)) lost"
  have q: "conn_inv (e\<lparr>lostQueue := lostQueue e @ ?l\<rparr>)"
    if "conn_inv e" "nextCell e = nextCell c" "lostQueue e = lostQueue c" for e
    using that assms by (intro inv_queue) (auto simp: conn_inv_def mem_ok_def)
  show ?thesis
    unfolding onPacketsLost_def Let_def d_def [symmetric] using d
    by (auto simp: inv_simps intro!: inv_flushLost q) (simp_all add: upd_cc_def)
qed

lemma inv_lost:
  assumes "conn_inv c" "pm_keeps (c_pm c) pm'" "set lost \<subseteq> tracked_ptrs (c_pm c)"
  shows "conn_inv (onPacketsLost gm now lost (c\<lparr>c_pm := pm'\<rparr>))"
  using assms by (intro inv_onPacketsLost inv_pm) (auto simp: conn_inv_def mem_ok_def)

lemma inv_pm_inv: "conn_inv c \<Longrightarrow> pm_inv (c_pm c)"
  by (simp add: conn_inv_def mem_ok_def)

lemma inv_detect: "conn_inv c \<Longrightarrow> conn_inv (detect_conn gm now c)"
  using keeps_detect [OF inv_pm_inv, of c]
  by (auto simp: detect_conn_def DetectLostPackets_def Let_def inv_lost inv_pm split: prod.split)

lemma inv_lossTimer: "conn_inv c \<Longrightarrow> conn_inv (lossTimerFired gm now c)"
  using keeps_timer [OF inv_pm_inv, of c]
  by (auto simp: lossTimerFired_def Let_def inv_lost inv_pm split: prod.split)

lemma inv_probeMTU:
  assumes "conn_inv c"
  shows "conn_inv (probeMTU now c)"
proof -
  obtain m sz where m: "NextProbe now (c_mtu c) = (m, sz)" by fastforce
  have "SafeDatagramSize \<le> current m"
    using mtu_floor(6) [of "c_mtu c" now] assms by (simp add: m conn_inv_def Current_def)
  then have i: "conn_inv (c\<lparr>c_mtu := m\<rparr>)" by (rule inv_mtu [OF assms])
  note j = inv_next [OF i, of "nextSeq (c_pm c) + 1", simplified]
  have e: "encode (conn_packet d seq 0 0 [MTUProbeFrame k]) d = (packet_bytes (conn_packet d seq 0 0 [MTUProbeFrame k]), d)"
    if "conn_inv d" for d seq k
    using that by (rule encode_conn) simp
  show ?thesis
    using assms i inv_track [OF j, of "(sent_packet (nextSeq (c_pm c)) n [MTUProbeFrame k] 0 0)\<lparr>Probe := True\<rparr>" now for n k]
    by (simp add: probeMTU_def m NextSequence_def Let_def e [OF j] new_packet_eq inv_simps)
qed

lemma inv_handleAckFrame:
  assumes "conn_inv c"
  shows "conn_inv (handleAckFrame gm now f c)"
proof -
  obtain pm acked where r: "HandleAckFrame now f (c_pm c) = (pm, acked)" by fastforce
  have i: "conn_inv (c\<lparr>c_pm := pm\<rparr>)" using inv_pm [OF assms keeps_ack(1) [OF inv_pm_inv [OF assms] r]] .
  have "conn_inv (upd_mtu (fold note_acked pkts) (c\<lparr>c_pm := pm\<rparr>))" for pkts
    using i mtu_floor_acked by (rule inv_mtu_fold)
  then show ?thesis
    using i by (auto simp: handleAckFrame_def r Let_def inv_simps intro!: inv_probeMTU inv_flushLost inv_detect)
qed

section \<open>Receiving keeps it\<close>

lemma inv_takeAck: "conn_inv (snd (takeAckLocked now c)) = conn_inv c"
  by (simp add: takeAckLocked_def Let_def inv_simps)

lemma inv_noteReceived: "conn_inv c \<Longrightarrow> conn_inv (noteReceived now pkt c)"
  by (auto simp: noteReceived_def Let_def case_prod_beta inv_simps inv_takeAck intro!: inv_sendPacket)

lemma inv_ackTimer: "conn_inv c \<Longrightarrow> conn_inv (ackTimerFired now src dst c)"
  by (auto simp: ackTimerFired_def Let_def case_prod_beta inv_simps inv_takeAck intro!: inv_sendPacket)

lemma inv_sendControlTo: "conn_inv c \<Longrightarrow> list_all wf_frame fs \<Longrightarrow> conn_inv (sendControlTo fs a c)"
  by (simp add: sendControlTo_def Let_def encode_conn inv_simps)

text \<open>\<^verbatim>\<open>rand.Read\<close> fills the whole challenge.\<close>

definition rnd_ok :: "byte list option \<Rightarrow> bool" where
  "rnd_ok r \<longleftrightarrow> (case r of None \<Rightarrow> True | Some d \<Rightarrow> length d = 8)"

lemma inv_observeAddr: "conn_inv c \<Longrightarrow> rnd_ok rnd \<Longrightarrow> conn_inv (observeAddr now rnd from c)"
  by (auto simp: observeAddr_def rnd_ok_def inv_simps intro!: inv_sendControlTo split: option.splits)

lemma inv_startMigration: "conn_inv c \<Longrightarrow> rnd_ok rnd \<Longrightarrow> conn_inv (fst (startMigration now rnd c))"
  by (auto simp: startMigration_def rnd_ok_def inv_simps intro!: inv_sendFrames split: option.splits)

lemma inv_finishMigration: "conn_inv c \<Longrightarrow> conn_inv (fst (finishMigration w d a c))"
  by (auto simp: finishMigration_def Let_def inv_simps split: wake.splits option.splits)

lemma inv_completeMigration: "conn_inv c \<Longrightarrow> conn_inv (fst (completeMigration d c))"
  by (simp add: completeMigration_def inv_simps)

lemma inv_close: "conn_inv c \<Longrightarrow> conn_inv (closeInternal now code reason announce c)"
proof -
  assume c: "conn_inv c"
  have i: "conn_inv (d\<lparr>c_state := st, closeCh := b, streams := ss, lostTimer := t, lostQueue := [], c_cc := cc,
      c_pm := PM_Destroy (c_pm d), onCloseCalled := b'\<rparr>)" if "conn_inv d" for d st b ss t cc b'
    using that keeps_destroy [OF inv_pm_inv [OF that]]
    by (simp add: conn_inv_def mem_ok_def pm_keeps_def wf_conn_def) blast
  define d where "d = c\<lparr>c_state := ConnStateClosing, idleTimer := None, ackTimer := None, ackPending := 0\<rparr>"
  have d: "conn_inv d" using c by (simp add: d_def inv_simps)
  define e where "e = (if announce
      then sendFrames now [ConnectionClose \<lparr>ErrorCode = code, FrameTypeVal = 0, ReasonPhrase = reason\<rparr>] d else d)"
  have "conn_inv e" using d by (simp add: e_def inv_sendFrames)
  from i [OF this] c show ?thesis by (simp add: closeInternal_def Let_def d_def [symmetric] e_def [symmetric])
qed

lemma inv_new_stream: "conn_inv (snd (new_stream rid st c)) = conn_inv c"
  by (simp add: new_stream_def Let_def inv_simps)

lemma inv_on_stream:
  "conn_inv c \<Longrightarrow> (\<And>s. list_all call_ok (snd (f s))) \<Longrightarrow> conn_inv (on_stream now k f c)"
  by (auto simp: on_stream_def inv_simps intro!: inv_run_calls split: option.split)

lemma calls_stream [simp]:
  "list_all call_ok (snd (Stream_Reset code s))" "list_all call_ok (snd (DeliverData off d s))"
  "list_all call_ok (snd (Close s))" "list_all call_ok (fst (snd (Read now n s)))"
  "list_all call_ok (snd (refresh_stream s))" "list_all call_ok (fst (write_claim now m d s))"
proof -
  show r: "list_all call_ok (snd (Stream_Reset code s))" for code s by (simp add: Stream_Reset_def Let_def)
  show "list_all call_ok (snd (DeliverData off d s))" using r by (auto simp: DeliverData_def Let_def split: prod.split)
  show "list_all call_ok (snd (Close s))" by (simp add: Close_def Let_def)
  show "list_all call_ok (fst (snd (Read now n s)))" by (auto simp: Read_def Let_def case_prod_beta split: option.split)
  show "list_all call_ok (snd (refresh_stream s))" by (auto simp: refresh_stream_def Let_def case_prod_beta split: option.split)
  show "list_all call_ok (fst (write_claim now m d s))"
    by (auto simp: write_claim_def Let_def split: option.split)
qed

lemma calls_write_send: "0 < k \<Longrightarrow> list_all call_ok (fst (snd (write_send grant syn k d s)))"
  by (auto simp: write_send_def Let_def split: option.split)

lemma chunk_pos: "SafeDatagramSize \<le> n \<Longrightarrow> 0 < chunkSizeLocked n s"
  by (simp add: chunkSizeLocked_def streamChunkOverhead_def)

lemma inv_handleStreamFrame: "conn_inv c \<Longrightarrow> conn_inv (handleStreamFrame now pkt f c)"
  by (auto simp: handleStreamFrame_def Let_def case_prod_beta inv_simps inv_new_stream intro!: inv_on_stream
      split: option.splits)

lemma inv_at_stream: "conn_inv c \<Longrightarrow> (\<And>k. conn_inv (g k c)) \<Longrightarrow> conn_inv (at_stream pkt g c)"
  by (simp add: at_stream_def split: option.split)

lemma inv_handleFrame:
  assumes "conn_inv c" "wf_frame f"
  shows "conn_inv (handleFrame gm now pkt f c)"
  using assms inv_completeMigration
  by (cases f) (auto simp: handleWindowUpdate_def handleResetStream_def Conn_Close_def CloseWithError_def inv_simps
      Let_def case_prod_beta inv_handleStreamFrame inv_handleAckFrame inv_close
      intro!: inv_at_stream inv_on_stream inv_sendFrames)

lemma inv_HandlePacket:
  assumes "conn_inv c" "wf_packet pkt"
  shows "conn_inv (HandlePacket gm now pkt c)"
proof -
  have f: "\<forall>f \<in> set (Frames pkt). wf_frame f" using assms(2) by (simp add: wf_packet_def list_all_iff)
  have "conn_inv (fold (handleFrame gm now pkt) (Frames pkt) d)" if "conn_inv d" for d
    using that f by (intro inv_fold inv_handleFrame) auto
  then show ?thesis
    using assms
    by (auto simp: HandlePacket_def Let_def encode_wf inv_simps intro!: inv_noteReceived)
qed

lemma inv_enqueue: "conn_inv c \<Longrightarrow> wf_packet pkt \<Longrightarrow> conn_inv (enqueue pkt c)"
  by (auto simp: enqueue_def inv_simps conn_inv_def mem_ok_def wf_conn_def)

lemma inv_inbound: "conn_inv c \<Longrightarrow> conn_inv (inbound_step gm now c)"
proof (cases "inbound c")
  case (Cons pkt rest)
  assume c: "conn_inv c"
  then have "conn_inv (c\<lparr>inbound := rest\<rparr>)" "wf_packet pkt"
    by (auto simp: conn_inv_def mem_ok_def wf_conn_def Cons)
  then show ?thesis by (simp add: inbound_step_def Cons inv_HandlePacket)
qed (simp add: inbound_step_def)

lemma inv_NewConnection:
  "wf_cid lcid \<Longrightarrow> wf_cid rcid \<Longrightarrow> conn_inv (NewConnection now mem lcid rcid la ra initiator)"
  using pm_inv_new [of mem]
  by (simp add: NewConnection_def startIdleTimer_def armIdleCheck_def conn_inv_def wf_conn_def mem_ok_def
      tracked_ptrs_def NewPacketManager_def NewMTUDiscovery_def restartLocked_def Current_def)

section \<open>Every run\<close>

text \<open>
  What an application does with a stream. \<open>WriteClaim\<close> and \<open>WriteSend\<close> are the two halves of a round
  of \<^verbatim>\<open>Write\<close>; the second still has the datagram size \<open>n\<close> that the first saw.
\<close>

datatype app_call =
    AppRead time nat
  | AppClose
  | AppReset uint32
  | WriteClaim time "byte list"
  | WriteSend "int option" bool int "byte list"
  | AppReadDeadline time
  | AppWriteDeadline time

fun app_stream :: "int \<Rightarrow> app_call \<Rightarrow> Stream \<Rightarrow> Stream \<times> conn_call list" where
  "app_stream m (AppRead now n) s = (fst (Read now n s), fst (snd (Read now n s)))"
| "app_stream m AppClose s = Close s"
| "app_stream m (AppReset code) s = Stream_Reset code s"
| "app_stream m (WriteClaim now d) s = (s, fst (write_claim now m d s))"
| "app_stream m (WriteSend grant syn n d) s =
     (let r = write_send grant syn (chunkSizeLocked n s) d s in (fst r, fst (snd r)))"
| "app_stream m (AppReadDeadline t) s = (SetReadDeadline t s, [])"
| "app_stream m (AppWriteDeadline t) s = (SetWriteDeadline t s, [])"

fun app_ok :: "app_call \<Rightarrow> bool" where
  "app_ok (WriteSend grant syn n d) \<longleftrightarrow> SafeDatagramSize \<le> n"
| "app_ok _ \<longleftrightarrow> True"

definition on_app :: "time \<Rightarrow> uint32 \<Rightarrow> app_call \<Rightarrow> Connection \<Rightarrow> Connection" where
  "on_app now k a c = on_stream now k (app_stream (Current (c_mtu c)) a) c"

lemma inv_on_app: "conn_inv c \<Longrightarrow> app_ok a \<Longrightarrow> conn_inv (on_app now k a c)"
  unfolding on_app_def
proof (rule inv_on_stream)
  show "list_all call_ok (snd (app_stream m a s))" if "app_ok a" for m s
    using that by (cases a) (simp_all add: Let_def calls_write_send chunk_pos)
qed simp

inductive run_step :: "go_math \<Rightarrow> Connection \<Rightarrow> Connection \<Rightarrow> bool" for gm where
  run_enqueue: "wf_packet pkt \<Longrightarrow> run_step gm c (enqueue pkt c)"
| run_inbound: "run_step gm c (inbound_step gm now c)"
| run_observe: "rnd_ok rnd \<Longrightarrow> run_step gm c (observeAddr now rnd from c)"
| run_app: "app_ok a \<Longrightarrow> run_step gm c (on_app now k a c)"
| run_open: "run_step gm c (fst (OpenStream c))"
| run_accept: "run_step gm c (fst (AcceptStream w c))"
| run_ping: "run_step gm c (Ping now c)"
| run_migrate: "rnd_ok rnd \<Longrightarrow> run_step gm c (fst (startMigration now rnd c))"
| run_migrated: "run_step gm c (fst (finishMigration w challenge a c))"
| run_close: "run_step gm c (CloseWithError now code reason c)"
| run_ack_timer: "run_step gm c (ackTimerFired now src dst c)"
| run_pto_timer: "run_step gm c (ptoTimerFired now c)"
| run_loss_timer: "run_step gm c (lossTimerFired gm now c)"
| run_lost_timer: "run_step gm c (flushLost gm now c)"
| run_idle_timer: "run_step gm c (onIdleCheck now c)"

lemma inv_run_step: "run_step gm c c' \<Longrightarrow> conn_inv c \<Longrightarrow> conn_inv c'"
proof (induction rule: run_step.induct)
  case (run_open c)
  then show ?case using inv_new_stream [of 0 StreamStateIdle c] by (simp add: OpenStream_def case_prod_beta Let_def)
next
  case (run_accept c w)
  then show ?case by (simp add: AcceptStream_def inv_simps split: wake.split list.split)
next
  case (run_idle_timer c now)
  then show ?case by (simp add: onIdleCheck_def armIdleCheck_def inv_simps inv_close)
qed (simp_all add: inv_enqueue inv_inbound inv_observeAddr inv_on_app Ping_def inv_sendFrames inv_startMigration
    inv_finishMigration CloseWithError_def inv_close inv_ackTimer inv_pto inv_lossTimer inv_flushLost)

interpretation conn_run: preserved "run_step gm" conn_inv for gm
  by unfold_locales (rule inv_run_step)

section \<open>The CIDs never change\<close>

definition cids :: "Connection \<Rightarrow> ConnectionID \<times> ConnectionID" where
  "cids c = (localCID c, remoteCID c)"

lemma cids_core: "core c' = core c \<Longrightarrow> cids c' = cids c"
  by (simp add: core_def cids_def)

lemma cids_path: "path c' = path c \<Longrightarrow> cids c' = cids c"
  by (simp add: path_def core_def cids_def)

lemma cids_fields [simp]:
  "cids (c\<lparr>inbound := i\<rparr>) = cids c" "cids (c\<lparr>inboundDropped := n\<rparr>) = cids c" "cids (c\<lparr>incomingStreams := ks\<rparr>) = cids c"
  "cids (c\<lparr>idleTimer := t\<rparr>) = cids c" "cids (c\<lparr>pathChallenge := d\<rparr>) = cids c" "cids (c\<lparr>pathChallengeResp := r\<rparr>) = cids c"
  "cids (c\<lparr>remoteAddr := a\<rparr>) = cids c" "cids (c\<lparr>addrValidated := b\<rparr>) = cids c" "cids (c\<lparr>c_state := st\<rparr>) = cids c"
  by (simp_all add: cids_def)

lemma cids_complete: "cids (fst (completeMigration d c)) = cids c"
  by (simp add: completeMigration_def cids_def)

lemma cids_handleFrame: "cids (handleFrame gm now pkt f c) = cids c"
proof (cases "answers c f")
  case True
  then obtain d where "f = PathResponseFrame d" by (cases f) (simp_all add: answers_def)
  then show ?thesis using cids_complete [of d c] by (auto simp: Let_def case_prod_beta)
qed (rule cids_path, rule handleFrame_path)

lemma cids_HandlePacket: "cids (HandlePacket gm now pkt c) = cids c"
proof -
  have f: "cids (fold (handleFrame gm now pkt) fs d) = cids d" for fs d
    by (induction fs arbitrary: d) (simp_all add: cids_handleFrame)
  obtain d where d: "core d = core c"
      "core (HandlePacket gm now pkt c) = core (fold (handleFrame gm now pkt) (Frames pkt) d)"
    using HandlePacket_split by blast
  show ?thesis using f [of "Frames pkt" d] cids_core [OF d(1)] cids_core [OF d(2)] by simp
qed

lemma cids_observe: "cids (observeAddr now rnd from c) = cids c"
  by (auto simp: observeAddr_def sendControlTo_def put_wire_def encode_def cids_def split: option.splits sum.splits)

lemma cids_step: "run_step gm c c' \<Longrightarrow> cids c' = cids c"
proof (induction rule: run_step.induct)
  case (run_open c)
  then show ?case
    using cids_path [OF path_streams(2), of 0 StreamStateIdle c] by (simp add: OpenStream_def case_prod_beta Let_def)
next
  case (run_app a c now k)
  then show ?case unfolding on_app_def by (intro cids_path) simp
next
  case (run_inbound c now)
  then show ?case by (simp add: inbound_step_def cids_HandlePacket split: list.split)
next
  case (run_close c now code reason)
  then show ?case by (intro cids_path) (simp add: CloseWithError_def)
next
  case (run_idle_timer c now)
  then show ?case using cids_path [OF path_close] by (simp add: onIdleCheck_def armIdleCheck_def)
next
  case (run_migrate rnd c now)
  then show ?case using cids_core [OF core_sendFrames] by (simp add: startMigration_def split: option.split)
next
  case (run_ping c now)
  show ?case unfolding Ping_def by (rule cids_core [OF core_sendFrames])
qed (auto simp: enqueue_def cids_observe AcceptStream_def finishMigration_def Let_def
    cids_core [OF core_timers(1)] cids_core [OF core_timers(2)] cids_core [OF core_detect(2)] cids_core [OF core_flushLost]
    split: wake.splits list.splits option.splits)

end
