(* ===== verification/Udx_Multiplexer.thy ===== *)
theory Udx_Multiplexer
  imports Udx_Safety
begin

text \<open>
  The multiplexer (\<^verbatim>\<open>multiplexer.go\<close>): datagrams are routed to connections by the text form of
  their destination CID, a SYN for an unknown CID makes a connection, and other packets for one are
  kept for a SYN still to come. \<open>conns\<close> holds every connection made, in order, and a pointer to one
  is its index there; the routing map and the queue of \<^verbatim>\<open>Accept\<close> hold pointers. \<open>mem\<close> is the memory
  a new connection's packets are allocated in.
\<close>

section \<open>State\<close>

type_synonym conn_ptr = nat

record Multiplexer =
  mux_addr :: addr
  conns :: "Connection list"
  connections :: "(string \<times> conn_ptr) list"
  earlyPackets :: "(string \<times> (Packet \<times> addr) list) list"
  incoming :: "conn_ptr list"
  mux_closed :: bool

definition NewMultiplexer :: "addr \<Rightarrow> Multiplexer" where
  "NewMultiplexer a =
     \<lparr>mux_addr = a, conns = [], connections = [], earlyPackets = [], incoming = [], mux_closed = False\<rparr>"

definition Addr :: "Multiplexer \<Rightarrow> addr" where
  "Addr m = mux_addr m"

definition ConnectionCount :: "Multiplexer \<Rightarrow> nat" where
  "ConnectionCount m = length (connections m)"

section \<open>Operations\<close>

definition removeConnection :: "string \<Rightarrow> Multiplexer \<Rightarrow> Multiplexer" where
  "removeConnection key m = m\<lparr>connections := AList.delete key (connections m)\<rparr>"

text \<open>
  The new state of a connection after one of its handlers ran. Both places that make a connection
  set its \<^verbatim>\<open>onClose\<close> to the removal of the route under its local CID.
\<close>

definition set_conn :: "conn_ptr \<Rightarrow> Connection \<Rightarrow> Multiplexer \<Rightarrow> Multiplexer" where
  "set_conn p c m =
     (let closing = onCloseCalled c \<and> \<not> onCloseCalled (conns m ! p);
          m = m\<lparr>conns := (conns m)[p := c]\<rparr>
      in if closing then removeConnection (String (localCID c)) m else m)"

text \<open>\<^verbatim>\<open>Accept\<close>, woken by \<open>w\<close>; \<open>None\<close> when that case is not ready and the call still waits.\<close>

definition Accept :: "wake \<Rightarrow> Multiplexer \<Rightarrow> Multiplexer \<times> (open_error + conn_ptr) option" where
  "Accept w m =
     (case w of
        WakeValue \<Rightarrow> (case incoming m of
             [] \<Rightarrow> (m, None)
           | p # rest \<Rightarrow> (m\<lparr>incoming := rest\<rparr>, Some (Inr p)))
      | WakeContext \<Rightarrow> (m, Some (Inl ErrContext))
      | WakeClosed \<Rightarrow> (m, if mux_closed m then Some (Inl ErrConnectionClosed) else None)
      | WakeTimeout \<Rightarrow> (m, None))"

definition established :: "Connection \<Rightarrow> Connection" where
  "established c = c\<lparr>c_state := ConnStateEstablished, addrValidated := True\<rparr>"

text \<open>\<^verbatim>\<open>Dial\<close>; \<open>rnd1\<close> and \<open>rnd2\<close> are the two reads of \<^verbatim>\<open>crypto/rand\<close>.\<close>

definition Dial ::
    "time \<Rightarrow> (packet_ptr \<Rightarrow> SentPacket) \<Rightarrow> (nat \<Rightarrow> byte list option) \<Rightarrow> (nat \<Rightarrow> byte list option) \<Rightarrow> addr
       \<Rightarrow> Multiplexer \<Rightarrow> Multiplexer \<times> conn_ptr result" where
  "Dial now mem rnd1 rnd2 a m =
     (case RandomConnectionID rnd1 (int DefaultCIDLength) of
        Inl e \<Rightarrow> (m, Inl e)
      | Inr lcid \<Rightarrow>
          case RandomConnectionID rnd2 (int DefaultCIDLength) of
            Inl e \<Rightarrow> (m, Inl e)
          | Inr rcid \<Rightarrow>
              let c = NewConnection now mem lcid rcid (mux_addr m) (Some a) True;
                  p = length (conns m);
                  c = sendFrames now [Frame.Stream \<lparr>IsFin = False, IsSyn = True, Offset = 0, Data = []\<rparr>] (established c)
              in (m\<lparr>conns := conns m @ [c], connections := AList.update (String lcid) p (connections m)\<rparr>, Inr p))"

text \<open>\<^verbatim>\<open>Close\<close>: the map is cleared before the connections in it are closed.\<close>

definition Mux_Close :: "time \<Rightarrow> Multiplexer \<Rightarrow> Multiplexer" where
  "Mux_Close now m =
     (if mux_closed m then m
      else fold (\<lambda>(k, p) m. set_conn p (Conn_Close now (conns m ! p)) m) (connections m)
             (m\<lparr>mux_closed := True, connections := []\<rparr>))"

text \<open>One tick of \<^verbatim>\<open>idleTimeoutLoop\<close>.\<close>

definition idle_tick :: "Multiplexer \<Rightarrow> Multiplexer" where
  "idle_tick m = m\<lparr>connections := filter (\<lambda>(k, p). \<not> closeCh (conns m ! p)) (connections m)\<rparr>"

fun syn_frame :: "Frame \<Rightarrow> bool" where
  "syn_frame (Frame.Stream f) \<longleftrightarrow> IsSyn f"
| "syn_frame _ \<longleftrightarrow> False"

definition held :: "Multiplexer \<Rightarrow> string \<Rightarrow> (Packet \<times> addr) list" where
  "held m key = (case map_of (earlyPackets m) key of None \<Rightarrow> [] | Some buf \<Rightarrow> buf)"

definition hold_early :: "string \<Rightarrow> Packet \<Rightarrow> addr \<Rightarrow> Multiplexer \<Rightarrow> Multiplexer" where
  "hold_early key pkt a m =
     (if length (earlyPackets m) < 256
      then let buf = held m key
           in if length buf < 32
              then m\<lparr>earlyPackets := AList.update key (buf @ [(pkt, a)]) (earlyPackets m)\<rparr> else m
      else m)"

definition accept_syn ::
    "time \<Rightarrow> (packet_ptr \<Rightarrow> SentPacket) \<Rightarrow> string \<Rightarrow> Packet \<Rightarrow> addr \<Rightarrow> Multiplexer \<Rightarrow> Multiplexer" where
  "accept_syn now mem key pkt a m =
     (let c = established (NewConnection now mem (DestinationCID pkt) (SourceCID pkt) (mux_addr m) (Some a) False);
          p = length (conns m);
          early = held m key;
          c = fold (\<lambda>ep. enqueue (fst ep)) early (enqueue pkt c)
      in m\<lparr>conns := conns m @ [c],
           connections := AList.update key p (connections m),
           earlyPackets := AList.delete key (earlyPackets m),
           incoming := (if length (incoming m) < 16 then incoming m @ [p] else incoming m)\<rparr>)"

definition handleDatagram ::
    "time \<Rightarrow> (packet_ptr \<Rightarrow> SentPacket) \<Rightarrow> byte list option \<Rightarrow> byte list \<Rightarrow> addr \<Rightarrow> Multiplexer \<Rightarrow> Multiplexer" where
  "handleDatagram now mem rnd data a m =
     (case UnmarshalPacket data of
        Inl _ \<Rightarrow> m
      | Inr pkt \<Rightarrow>
          if Version pkt \<noteq> VersionCurrent then m
          else let key = String (DestinationCID pkt)
               in case map_of (connections m) key of
                    Some p \<Rightarrow> set_conn p (enqueue pkt (observeAddr now rnd (Some a) (conns m ! p))) m
                  | None \<Rightarrow> if \<not> list_ex syn_frame (Frames pkt) then hold_early key pkt a m
                            else accept_syn now mem key pkt a m)"

text \<open>
  One round of \<^verbatim>\<open>readLoop\<close>: what one read returned, each datagram with its address and what
  \<^verbatim>\<open>crypto/rand\<close> returns while it is handled; \<open>None\<close> is a failed read.
\<close>

definition read_round ::
    "time \<Rightarrow> (packet_ptr \<Rightarrow> SentPacket) \<Rightarrow> (byte list option \<times> byte list \<times> addr) list option \<Rightarrow> Multiplexer \<Rightarrow> Multiplexer" where
  "read_round now mem got m =
     (if mux_closed m then m
      else case got of
             None \<Rightarrow> m
           | Some ds \<Rightarrow> fold (\<lambda>(rnd, data, a). handleDatagram now mem rnd data a) ds m)"

section \<open>The invariant\<close>

definition route_ok :: "Connection list \<Rightarrow> string \<times> conn_ptr \<Rightarrow> bool" where
  "route_ok cs r \<longleftrightarrow> snd r < length cs \<and> fst r = String (localCID (cs ! snd r))"

definition early_ok :: "string \<times> (Packet \<times> addr) list \<Rightarrow> bool" where
  "early_ok e \<longleftrightarrow> length (snd e) \<le> 32
     \<and> (\<forall>ep \<in> set (snd e). wf_packet (fst ep) \<and> String (DestinationCID (fst ep)) = fst e)"

definition mux_inv :: "Multiplexer \<Rightarrow> bool" where
  "mux_inv m \<longleftrightarrow> list_all conn_inv (conns m)
     \<and> distinct (map fst (connections m)) \<and> list_all (route_ok (conns m)) (connections m)
     \<and> length (earlyPackets m) \<le> 256 \<and> list_all early_ok (earlyPackets m)
     \<and> length (incoming m) \<le> 16 \<and> list_all (\<lambda>p. p < length (conns m)) (incoming m)"

lemma mux_inv_New: "mux_inv (NewMultiplexer a)"
  by (simp add: mux_inv_def NewMultiplexer_def)

lemma routes_append: "list_all (route_ok cs) rs \<Longrightarrow> list_all (route_ok (cs @ [c])) rs"
  by (auto simp: list_all_iff route_ok_def nth_append)

lemma routes_update:
  "list_all (route_ok cs) rs \<Longrightarrow> p < length cs \<Longrightarrow> localCID c = localCID (cs ! p) \<Longrightarrow> list_all (route_ok (cs[p := c])) rs"
  by (auto simp: list_all_iff route_ok_def nth_list_update)

lemma list_all_update: "list_all P xs \<Longrightarrow> P x \<Longrightarrow> list_all P (xs[i := x])"
  by (auto simp: list_all_iff dest: set_update_subset_insert [THEN subsetD])

lemma list_all_alist:
  "list_all P xs \<Longrightarrow> P (k, v) \<Longrightarrow> list_all P (AList.update k v xs)" "list_all P xs \<Longrightarrow> list_all P (AList.delete k xs)"
  "list_all P xs \<Longrightarrow> list_all P (filter Q xs)"
  using set_alist_update [of k v xs] by (auto simp: list_all_iff AList.delete_eq)

lemma length_alist_update: "length (AList.update k v xs) = length xs + (if map_of xs k = None then 1 else 0)"
  by (induction xs) auto

lemma length_update_le: "length (AList.update k v xs) \<le> Suc (length xs)"
  by (simp add: length_alist_update)

lemma inv_set_conn:
  assumes "mux_inv m" "p < length (conns m)" "conn_inv c" "localCID c = localCID (conns m ! p)"
  shows "mux_inv (set_conn p c m)"
  using assms routes_update [of "conns m" "connections m" p c]
  by (auto simp: mux_inv_def set_conn_def removeConnection_def Let_def distinct_delete
      intro!: list_all_update list_all_alist)

lemma mux_conn: "mux_inv m \<Longrightarrow> p < length (conns m) \<Longrightarrow> conn_inv (conns m ! p)"
  by (simp add: mux_inv_def list_all_length)

lemma mux_route: "mux_inv m \<Longrightarrow> map_of (connections m) key = Some p \<Longrightarrow> p < length (conns m) \<and> key = String (localCID (conns m ! p))"
  by (auto simp: mux_inv_def list_all_iff route_ok_def dest!: map_of_SomeD)

lemma held_ok: "mux_inv m \<Longrightarrow> early_ok (key, held m key)"
proof (cases "map_of (earlyPackets m) key")
  case (Some buf)
  assume "mux_inv m"
  then have "early_ok (key, buf)" using map_of_SomeD [OF Some] unfolding mux_inv_def list_all_iff by blast
  then show ?thesis by (simp add: held_def Some)
qed (simp add: held_def early_ok_def)

lemma established_inv [simp]: "conn_inv (established c) = conn_inv c" "localCID (established c) = localCID c"
  by (simp_all add: established_def inv_simps)

lemma NewConnection_cids [simp]:
  "localCID (NewConnection now mem lcid rcid la ra ini) = lcid" "remoteCID (NewConnection now mem lcid rcid la ra ini) = rcid"
  by (simp_all add: NewConnection_def startIdleTimer_def armIdleCheck_def)

lemma localCID_enqueue [simp]: "localCID (enqueue pkt c) = localCID c"
  by (simp add: enqueue_def)

lemma localCID_enqueues [simp]: "localCID (fold (\<lambda>ep. enqueue (fst ep)) eps c) = localCID c"
  by (induction eps arbitrary: c) simp_all

lemma inv_accept_syn:
  assumes "mux_inv m" "wf_packet pkt" "key = String (DestinationCID pkt)"
  shows "mux_inv (accept_syn now mem key pkt a m)"
proof -
  let ?c = "established (NewConnection now mem (DestinationCID pkt) (SourceCID pkt) (mux_addr m) (Some a) False)"
  let ?d = "fold (\<lambda>ep. enqueue (fst ep)) (held m key) (enqueue pkt ?c)"
  have "conn_inv ?d"
  proof (rule inv_fold)
    show "conn_inv (enqueue (fst ep) c)" if "ep \<in> set (held m key)" "conn_inv c" for ep c
      using that held_ok [OF assms(1), of key] by (intro inv_enqueue) (auto simp: early_ok_def)
    show "conn_inv (enqueue pkt ?c)"
      using assms(2) by (auto simp: wf_packet_def intro!: inv_enqueue inv_NewConnection)
  qed
  then show ?thesis
    using assms routes_append [of "conns m" "connections m" ?d] length_delete_le [of key "earlyPackets m"]
    by (auto simp: mux_inv_def accept_syn_def Let_def route_ok_def distinct_update list_all_length [of _ "incoming m"]
        nth_append less_SucI intro!: list_all_alist)
qed

lemma inv_hold_early:
  assumes "mux_inv m" "wf_packet pkt" "key = String (DestinationCID pkt)"
  shows "mux_inv (hold_early key pkt a m)"
proof -
  have "early_ok (key, held m key @ [(pkt, a)])" if "length (held m key) < 32"
    using held_ok [OF assms(1), of key] that assms(2,3) by (auto simp: early_ok_def)
  then show ?thesis
    using assms(1) length_update_le [of key "held m key @ [(pkt, a)]" "earlyPackets m"]
    by (auto simp: mux_inv_def hold_early_def Let_def intro!: list_all_alist)
qed

lemma localCID_observe [simp]: "localCID (observeAddr now rnd from c) = localCID c"
  using cids_observe [of now rnd "from" c] by (simp add: cids_def)

lemma inv_handleDatagram:
  assumes "mux_inv m" "rnd_ok rnd"
  shows "mux_inv (handleDatagram now mem rnd data a m)"
proof (cases "UnmarshalPacket data")
  case (Inr pkt)
  have wf: "wf_packet pkt" using UnmarshalPacket_sound [OF Inr] by blast
  let ?key = "String (DestinationCID pkt)"
  show ?thesis
  proof (cases "map_of (connections m) ?key")
    case None
    then show ?thesis
      using assms wf by (simp add: handleDatagram_def Inr Let_def inv_hold_early inv_accept_syn)
  next
    case (Some p)
    have p: "p < length (conns m)" using mux_route [OF assms(1) Some] by blast
    have "conn_inv (enqueue pkt (observeAddr now rnd (Some a) (conns m ! p)))"
      using mux_conn [OF assms(1) p] assms(2) wf by (intro inv_enqueue inv_observeAddr)
    then show ?thesis
      using assms(1) p by (simp add: handleDatagram_def Inr Some inv_set_conn)
  qed
qed (simp add: handleDatagram_def assms)

text \<open>\<^verbatim>\<open>rand.Read\<close> fills the buffer it is given, or fails.\<close>

definition reader_ok :: "(nat \<Rightarrow> byte list option) \<Rightarrow> bool" where
  "reader_ok r \<longleftrightarrow> (case r 8 of None \<Rightarrow> True | Some b \<Rightarrow> length b = 8)"

lemma RandomConnectionID_wf:
  "reader_ok r \<Longrightarrow> RandomConnectionID r (int DefaultCIDLength) = Inr cid \<Longrightarrow> wf_cid cid"
  by (auto simp: RandomConnectionID_def reader_ok_def wf_cid_def split: option.splits)

lemma localCID_send [simp]: "localCID (sendFrames now fs c) = localCID c"
  using cids_core [OF core_sendFrames] by (simp add: cids_def)

lemma inv_Dial:
  assumes "mux_inv m" "reader_ok rnd1" "reader_ok rnd2"
  shows "mux_inv (fst (Dial now mem rnd1 rnd2 a m))"
proof (cases "RandomConnectionID rnd1 (int DefaultCIDLength)")
  case l: (Inr lcid)
  show ?thesis
  proof (cases "RandomConnectionID rnd2 (int DefaultCIDLength)")
    case r: (Inr rcid)
    let ?c = "sendFrames now [Frame.Stream \<lparr>IsFin = False, IsSyn = True, Offset = 0, Data = []\<rparr>]
      (established (NewConnection now mem lcid rcid (mux_addr m) (Some a) True))"
    have "conn_inv ?c"
      using RandomConnectionID_wf assms l r by (intro inv_sendFrames) (auto intro!: inv_NewConnection simp del: DefaultCIDLength_def)
    then show ?thesis
      using assms(1) routes_append [of "conns m" "connections m" ?c]
      by (auto simp: mux_inv_def Dial_def l r Let_def route_ok_def distinct_update list_all_length [of _ "incoming m"]
          less_SucI simp del: DefaultCIDLength_def intro!: list_all_alist)
  qed (simp add: Dial_def l assms(1) del: DefaultCIDLength_def)
qed (simp add: Dial_def assms(1) del: DefaultCIDLength_def)

lemma inv_Mux_Close: "mux_inv m \<Longrightarrow> mux_inv (Mux_Close now m)"
proof -
  let ?f = "\<lambda>(k, p) m. set_conn p (Conn_Close now (conns m ! p)) m"
  have len: "length (conns (?f r d)) = length (conns d)" for r d
    by (cases r) (simp add: set_conn_def removeConnection_def Let_def)
  have step: "mux_inv (?f r d)" if "mux_inv d" "snd r < length (conns d)" for r d
  proof -
    have "cids (Conn_Close now (conns d ! snd r)) = cids (conns d ! snd r)"
      by (rule cids_path) (simp add: Conn_Close_def CloseWithError_def)
    moreover have "conn_inv (Conn_Close now (conns d ! snd r))"
      using mux_conn [OF that] by (simp add: Conn_Close_def CloseWithError_def inv_close)
    ultimately show ?thesis using that by (auto simp: case_prod_beta cids_def intro!: inv_set_conn)
  qed
  have f: "mux_inv (fold ?f rs d)" if "mux_inv d" "\<forall>r \<in> set rs. snd r < length (conns d)" for rs d
    using that
  proof (induction rs arbitrary: d)
    case (Cons r rs)
    then have "mux_inv (?f r d)" "\<forall>s \<in> set rs. snd s < length (conns (?f r d))"
      using step [of d r] unfolding len by simp_all
    from Cons.IH [OF this] show ?case by (simp only: fold_simps)
  qed simp
  assume m: "mux_inv m"
  then have "mux_inv (m\<lparr>mux_closed := True, connections := []\<rparr>)" by (simp add: mux_inv_def)
  moreover have "\<forall>r \<in> set (connections m). snd r < length (conns m)"
    using m by (auto simp: mux_inv_def list_all_iff route_ok_def)
  ultimately show ?thesis
    using m f [of "m\<lparr>mux_closed := True, connections := []\<rparr>" "connections m"] by (simp add: Mux_Close_def)
qed

text \<open>
  The steps of an endpoint: a datagram, whatever its bytes, a step of one of its connections, and the
  calls of the application.
\<close>

inductive mux_step :: "go_math \<Rightarrow> Multiplexer \<Rightarrow> Multiplexer \<Rightarrow> bool" for gm where
  mux_datagram: "rnd_ok rnd \<Longrightarrow> mux_step gm m (handleDatagram now mem rnd data a m)"
| mux_connection: "p < length (conns m) \<Longrightarrow> run_step gm (conns m ! p) c \<Longrightarrow> mux_step gm m (set_conn p c m)"
| mux_dial: "reader_ok rnd1 \<Longrightarrow> reader_ok rnd2 \<Longrightarrow> mux_step gm m (fst (Dial now mem rnd1 rnd2 a m))"
| mux_accept: "mux_step gm m (fst (Accept w m))"
| mux_tick: "mux_step gm m (idle_tick m)"
| mux_close: "mux_step gm m (Mux_Close now m)"

lemma mux_inv_step: "mux_step gm m m' \<Longrightarrow> mux_inv m \<Longrightarrow> mux_inv m'"
proof (induction rule: mux_step.induct)
  case (mux_connection p m c)
  then show ?case
    using inv_run_step [OF mux_connection(2) mux_conn] cids_step [OF mux_connection(2)]
    by (intro inv_set_conn) (simp_all add: cids_def)
next
  case (mux_accept m w)
  then show ?case by (auto simp: Accept_def mux_inv_def split: wake.split list.split)
next
  case (mux_tick m)
  then show ?case by (auto simp: idle_tick_def mux_inv_def distinct_map_filter intro!: list_all_alist)
qed (simp_all add: inv_handleDatagram inv_Dial inv_Mux_Close)

interpretation mux_run: preserved "mux_step gm" mux_inv for gm
  by unfold_locales (rule mux_inv_step)

lemma mux_inv_run: "(mux_step gm)\<^sup>*\<^sup>* (NewMultiplexer a) m \<Longrightarrow> mux_inv m"
  using mux_run.run mux_inv_New by blast

section \<open>Routing\<close>

lemma set_conn_other: "q \<noteq> p \<Longrightarrow> conns (set_conn p c m) ! q = conns m ! q"
  by (simp add: set_conn_def removeConnection_def Let_def)

lemma String_inject: "wf_cid c \<Longrightarrow> wf_cid d \<Longrightarrow> String c = String d \<Longrightarrow> c = d"
  using String_eq_iff Equal_iff_eq by blast

lemma hold_early_conns [simp]: "conns (hold_early key pkt a m) = conns m" "connections (hold_early key pkt a m) = connections m"
  "incoming (hold_early key pkt a m) = incoming m" "mux_addr (hold_early key pkt a m) = mux_addr m"
  by (simp_all add: hold_early_def Let_def)

lemma handleDatagram_touches:
  assumes "mux_inv m" "p < length (conns m)" "conns (handleDatagram now mem rnd data a m) ! p \<noteq> conns m ! p"
  shows "\<exists>pkt. UnmarshalPacket data = Inr pkt \<and> Version pkt = VersionCurrent
     \<and> map_of (connections m) (String (DestinationCID pkt)) = Some p
     \<and> DestinationCID pkt = localCID (conns m ! p)"
proof -
  obtain pkt where pkt: "UnmarshalPacket data = Inr pkt" "Version pkt = VersionCurrent"
    using assms(3) by (auto simp: handleDatagram_def split: sum.splits if_splits)
  let ?key = "String (DestinationCID pkt)"
  have "map_of (connections m) ?key = Some p"
  proof (cases "map_of (connections m) ?key")
    case None
    then show ?thesis
      using assms(2,3) pkt by (auto simp: handleDatagram_def accept_syn_def Let_def nth_append split: if_splits)
  next
    case (Some q)
    have "q = p" if "q \<noteq> p \<Longrightarrow> False" using that by blast
    then show ?thesis
      using assms(3) pkt Some set_conn_other [of p q] by (auto simp: handleDatagram_def)
  qed
  moreover have "wf_cid (DestinationCID pkt)" "wf_cid (localCID (conns m ! p))"
    using UnmarshalPacket_sound [OF pkt(1)] mux_conn [OF assms(1,2)] by (simp_all add: wf_packet_def conn_inv_def wf_conn_def)
  ultimately show ?thesis
    using mux_route [OF assms(1), of ?key p] String_inject pkt by blast
qed

section \<open>Early packets\<close>

text \<open>A datagram without a SYN for the CID \<open>cid\<close>, decoded.\<close>

definition early_datagram :: "ConnectionID \<Rightarrow> byte list \<Rightarrow> Packet \<Rightarrow> bool" where
  "early_datagram cid data pkt \<longleftrightarrow> UnmarshalPacket data = Inr pkt \<and> Version pkt = VersionCurrent
     \<and> DestinationCID pkt = cid \<and> \<not> list_ex syn_frame (Frames pkt)"

lemma early_hold:
  assumes "early_datagram cid data pkt" "map_of (connections m) (String cid) = None"
  shows "handleDatagram now mem rnd data a m = hold_early (String cid) pkt a m"
  using assms by (simp add: early_datagram_def handleDatagram_def)

lemma hold_early_held:
  assumes "length (earlyPackets m) < 256" "length (held m key) < 32"
  shows "held (hold_early key pkt a m) key = held m key @ [(pkt, a)]"
    and "length (earlyPackets (hold_early key pkt a m))
      = length (earlyPackets m) + (if map_of (earlyPackets m) key = None then 1 else 0)"
    and "map_of (earlyPackets (hold_early key pkt a m)) key \<noteq> None"
proof -
  show "length (earlyPackets (hold_early key pkt a m))
      = length (earlyPackets m) + (if map_of (earlyPackets m) key = None then 1 else 0)"
    using assms by (simp add: hold_early_def length_alist_update)
  show "held (hold_early key pkt a m) key = held m key @ [(pkt, a)]" "map_of (earlyPackets (hold_early key pkt a m)) key \<noteq> None"
    using assms by (simp_all add: hold_early_def held_def [of "m\<lparr>earlyPackets := es\<rparr>" for es] update_conv')
qed

text \<open>Datagrams arriving from \<open>a\<close>, at the times given.\<close>

definition arrive_all :: "(packet_ptr \<Rightarrow> SentPacket) \<Rightarrow> addr \<Rightarrow> (time \<times> byte list) list \<Rightarrow> Multiplexer \<Rightarrow> Multiplexer" where
  "arrive_all mem a ds m = fold (\<lambda>(now, d). handleDatagram now mem None d a) ds m"

lemma early_held_all:
  assumes "map_of (connections m) (String cid) = None"
    and "length (earlyPackets m) + (if map_of (earlyPackets m) (String cid) = None then 1 else 0) < 256"
    and "list_all2 (\<lambda>d pkt. early_datagram cid (snd d) pkt) ds pkts" "length (held m (String cid)) + length pkts \<le> 32"
  shows "held (arrive_all mem a ds m) (String cid) = held m (String cid) @ map (\<lambda>pkt. (pkt, a)) pkts
    \<and> conns (arrive_all mem a ds m) = conns m \<and> connections (arrive_all mem a ds m) = connections m
    \<and> incoming (arrive_all mem a ds m) = incoming m \<and> mux_addr (arrive_all mem a ds m) = mux_addr m"
  using assms(3,1,2,4)
proof (induction ds pkts arbitrary: m rule: list_all2_induct)
  case (Cons d ds pkt pkts)
  let ?m = "hold_early (String cid) pkt a m"
  have e: "handleDatagram now mem None (snd d) a m = ?m" for now
    using early_hold Cons.hyps(1) Cons.prems(1) by blast
  have l: "length (earlyPackets m) < 256" "length (held m (String cid)) < 32" using Cons.prems by simp_all
  note h = hold_early_held [OF l, of pkt a]
  have "held (arrive_all mem a ds ?m) (String cid) = held ?m (String cid) @ map (\<lambda>pkt. (pkt, a)) pkts
    \<and> conns (arrive_all mem a ds ?m) = conns ?m \<and> connections (arrive_all mem a ds ?m) = connections ?m
    \<and> incoming (arrive_all mem a ds ?m) = incoming ?m \<and> mux_addr (arrive_all mem a ds ?m) = mux_addr ?m"
    using Cons.prems h by (intro Cons.IH) auto
  then show ?case using h(1) by (simp add: arrive_all_def case_prod_beta e)
qed (simp add: arrive_all_def)

lemma inbound_enqueues:
  "length (inbound c) + length eps \<le> inboundQueue \<Longrightarrow> inbound (fold (\<lambda>ep. enqueue (fst ep)) eps c) = inbound c @ map fst eps"
  by (induction eps arbitrary: c) (auto simp: enqueue_def)

lemma enqueues_remote:
  "remoteCID (fold (\<lambda>ep. enqueue (fst ep)) eps c) = remoteCID c" "remoteAddr (fold (\<lambda>ep. enqueue (fst ep)) eps c) = remoteAddr c"
  by (induction eps arbitrary: c) (simp_all add: enqueue_def)

lemma NewConnection_inbound [simp]: "inbound (established (NewConnection now mem lcid rcid la ra ini)) = []"
  by (simp add: established_def NewConnection_def startIdleTimer_def armIdleCheck_def)

section \<open>Properties\<close>


text \<open>A SYN from \<open>sample_cid\<close> for a CID of two bytes, on the wire.\<close>

definition peer_cid :: ConnectionID where
  "peer_cid = \<lparr>cid_data = 7 # 9 # replicate 18 0, cid_len = 2\<rparr>"

definition sample_frame :: "bool \<Rightarrow> StreamFrame" where
  "sample_frame syn = \<lparr>IsFin = False, IsSyn = syn, Offset = 0, Data = [1, 2]\<rparr>"

definition sample_pkt :: "uint32 \<Rightarrow> bool \<Rightarrow> Packet" where
  "sample_pkt seq syn = \<lparr>Version = VersionCurrent, DestinationCID = peer_cid, SourceCID = sample_cid, Sequence = seq,
     DestinationStreamID = 0, SourceStreamID = 1, Frames = [Frame.Stream (sample_frame syn)],
     Packet_SentTime = 0, Packet_IsAcked = False, wireLen = 34\<rparr>"

definition sample_data :: "uint32 \<Rightarrow> bool \<Rightarrow> byte list" where
  "sample_data seq syn = packet_bytes (sample_pkt seq syn)"

lemma sample_wf: "wf_packet (sample_pkt seq syn)" "packet_fits (sample_pkt seq syn)"
  by (simp_all add: wf_packet_def packet_fits_def sample_pkt_def sample_frame_def wf_cid_def peer_cid_def sample_cid_def)

lemma sample_parses: "UnmarshalPacket (sample_data seq syn) = Inr (sample_pkt seq syn)"
proof -
  have "length (sample_data seq syn) = 34"
    using length_header_bytes [OF sample_wf(1), of seq syn]
    by (simp add: sample_data_def packet_bytes_def headerLen_def sample_pkt_def sample_frame_def frame_bytes_def
        Len_def peer_cid_def sample_cid_def)
  then show ?thesis
    using UnmarshalPacket_bytes [OF sample_wf, of seq syn] by (simp add: sample_data_def sample_pkt_def)
qed

definition sample_mux :: Multiplexer where
  "sample_mux = handleDatagram 1 (\<lambda>_. sample_packet 0) None (sample_data 0 True) ''b'' (NewMultiplexer ''a'')"

lemma sample_mux_run: "(mux_step sample_math)\<^sup>*\<^sup>* (NewMultiplexer ''a'') sample_mux"
  unfolding sample_mux_def by (intro r_into_rtranclp mux_datagram) (simp add: rnd_ok_def)

lemma sample_mux_eq:
  "sample_mux = accept_syn 1 (\<lambda>_. sample_packet 0) (String peer_cid) (sample_pkt 0 True) ''b'' (NewMultiplexer ''a'')"
  by (simp add: sample_mux_def handleDatagram_def sample_parses)
     (simp add: sample_pkt_def NewMultiplexer_def sample_frame_def)

lemma sample_mux_fields:
  "length (conns sample_mux) = 1" "connections sample_mux = [(String peer_cid, 0)]"
  "remoteAddr (conns sample_mux ! 0) = Some ''b''" "inbound (conns sample_mux ! 0) = [sample_pkt 0 True]"
  by (simp_all add: sample_mux_eq accept_syn_def Let_def NewMultiplexer_def held_def enqueue_def established_def
      NewConnection_def startIdleTimer_def armIdleCheck_def)


text \<open>
  C9: a datagram changes a connection only if it decodes to a packet of the current version whose
  destination CID is that connection's local CID and the route under that CID leads to it; all it does
  there is to note the address it came from and to queue the packet.
\<close>

theorem datagram_reaches_its_cid:
  assumes "(mux_step gm)\<^sup>*\<^sup>* (NewMultiplexer a0) m" "p < length (conns m)"
    and "conns (handleDatagram now mem rnd data a m) ! p \<noteq> conns m ! p"
  shows "\<exists>pkt. UnmarshalPacket data = Inr pkt \<and> Version pkt = VersionCurrent
     \<and> DestinationCID pkt = localCID (conns m ! p)
     \<and> map_of (connections m) (String (DestinationCID pkt)) = Some p
     \<and> conns (handleDatagram now mem rnd data a m) ! p = enqueue pkt (observeAddr now rnd (Some a) (conns m ! p))"
proof -
  obtain pkt where pkt: "UnmarshalPacket data = Inr pkt" "Version pkt = VersionCurrent"
      "map_of (connections m) (String (DestinationCID pkt)) = Some p" "DestinationCID pkt = localCID (conns m ! p)"
    using handleDatagram_touches [OF mux_inv_run [OF assms(1)] assms(2,3)] by blast
  then have "conns (handleDatagram now mem rnd data a m) ! p = enqueue pkt (observeAddr now rnd (Some a) (conns m ! p))"
    using assms(2) by (simp add: handleDatagram_def set_conn_def removeConnection_def Let_def)
  with pkt show ?thesis by blast
qed

lemma sample_second:
  "conns (handleDatagram 2 (\<lambda>_. sample_packet 0) None (sample_data 1 False) ''b'' sample_mux) ! 0 \<noteq> conns sample_mux ! 0"
proof -
  have "inbound (conns (handleDatagram 2 (\<lambda>_. sample_packet 0) None (sample_data 1 False) ''b'' sample_mux) ! 0)
      = [sample_pkt 0 True, sample_pkt 1 False]"
    using sample_mux_fields
    by (simp add: handleDatagram_def sample_parses)
       (simp add: sample_pkt_def set_conn_def removeConnection_def Let_def observeAddr_def enqueue_def)
  then show ?thesis using sample_mux_fields(4) by auto
qed

theorem datagram_reaches_its_cid_witness:
  "(mux_step sample_math)\<^sup>*\<^sup>* (NewMultiplexer ''a'') sample_mux
   \<and> conns (handleDatagram 2 (\<lambda>_. sample_packet 0) None (sample_data 1 False) ''b'' sample_mux) ! 0 \<noteq> conns sample_mux ! 0
   \<and> (\<exists>pkt. UnmarshalPacket (sample_data 1 False) = Inr pkt \<and> DestinationCID pkt = localCID (conns sample_mux ! 0))"
  using datagram_reaches_its_cid [OF sample_mux_run _ sample_second] sample_mux_run sample_second sample_mux_fields(1) by auto




definition full_mux :: Multiplexer where
  "full_mux = (NewMultiplexer ''a'')\<lparr>earlyPackets :=
     map (\<lambda>i. let cid = \<lparr>cid_data = of_nat i # replicate 19 0, cid_len = 1\<rparr>
              in (String cid, [((sample_pkt 0 False)\<lparr>DestinationCID := cid\<rparr>, ''b'')])) [0..<256]\<rparr>"


end
