(* ===== verification/Udx_Entry.thy ===== *)
theory Udx_Entry
  imports Udx_Multiplexer
begin

text \<open>
  The package's entry points (\<^verbatim>\<open>udx.go\<close>), the clocks they configure (\<^verbatim>\<open>clock.go\<close>) and the echo server
  for interoperability tests (\<^verbatim>\<open>cmd/interop-server/main.go\<close>). \<^verbatim>\<open>net.ResolveUDPAddr\<close> and
  \<^verbatim>\<open>net.ListenUDP\<close> are arguments; a socket is its local address.
\<close>

section \<open>Clocks and options\<close>

text \<open>A mock clock returns timers that are already stopped, so what they were to run never runs.\<close>

datatype Clock = RealClock | MockClock time

definition NewMockClock :: "time \<Rightarrow> Clock" where
  "NewMockClock t = MockClock t"

fun Clock_Now :: "time \<Rightarrow> Clock \<Rightarrow> time" where
  "Clock_Now wall RealClock = wall"
| "Clock_Now wall (MockClock t) = t"

fun AfterFunc :: "time \<Rightarrow> duration \<Rightarrow> Clock \<Rightarrow> time option" where
  "AfterFunc wall d RealClock = Some (wall + d)"
| "AfterFunc wall d (MockClock t) = None"

text \<open>\<^verbatim>\<open>Advance\<close> is a method of the mock clock only; its argument is the clock's \<^verbatim>\<open>now\<close>.\<close>

definition Advance :: "duration \<Rightarrow> time \<Rightarrow> Clock" where
  "Advance d now = MockClock (now + d)"

record options =
  opt_clock :: Clock

definition WithClock :: "Clock \<Rightarrow> options \<Rightarrow> options" where
  "WithClock c opts = opts\<lparr>opt_clock := c\<rparr>"

definition applyOptions :: "(options \<Rightarrow> options) list \<Rightarrow> options" where
  "applyOptions opts = fold (\<lambda>f opts. f opts) opts \<lparr>opt_clock = RealClock\<rparr>"

section \<open>Listening and dialling\<close>

datatype entry_error = ErrResolving | ErrListening | ErrDial go_error

definition Listen :: "(string \<Rightarrow> addr option) \<Rightarrow> (addr option \<Rightarrow> addr option) \<Rightarrow> string \<Rightarrow> entry_error + Multiplexer" where
  "Listen ResolveUDPAddr ListenUDP name =
     (case ResolveUDPAddr name of
        None \<Rightarrow> Inl ErrResolving
      | Some a \<Rightarrow>
          case ListenUDP (Some a) of
            None \<Rightarrow> Inl ErrListening
          | Some la \<Rightarrow> Inr (NewMultiplexer la))"

definition udx_Dial ::
    "(string \<Rightarrow> addr option) \<Rightarrow> (addr option \<Rightarrow> addr option) \<Rightarrow> time \<Rightarrow> (packet_ptr \<Rightarrow> SentPacket)
       \<Rightarrow> (nat \<Rightarrow> byte list option) \<Rightarrow> (nat \<Rightarrow> byte list option) \<Rightarrow> string \<Rightarrow> entry_error + Multiplexer \<times> conn_ptr" where
  "udx_Dial ResolveUDPAddr ListenUDP now mem rnd1 rnd2 name =
     (case ResolveUDPAddr name of
        None \<Rightarrow> Inl ErrResolving
      | Some a \<Rightarrow>
          case ListenUDP None of
            None \<Rightarrow> Inl ErrListening
          | Some la \<Rightarrow>
              case Dial now mem rnd1 rnd2 a (NewMultiplexer la) of
                (m, Inl e) \<Rightarrow> Inl (ErrDial e)
              | (m, Inr p) \<Rightarrow> Inr (m, p))"

section \<open>The interop server\<close>

fun echoed :: "Frame \<Rightarrow> byte list option" where
  "echoed (Frame.Stream sf) = (if length (Data sf) = 0 then None else Some (Data sf))"
| "echoed _ = None"

definition echo_packet :: "Packet \<Rightarrow> byte list \<Rightarrow> Packet" where
  "echo_packet pkt d =
     \<lparr>Version = VersionV2, DestinationCID = SourceCID pkt, SourceCID = DestinationCID pkt, Sequence = Sequence pkt + 1,
      DestinationStreamID = SourceStreamID pkt, SourceStreamID = DestinationStreamID pkt,
      Frames = [Frame.Stream \<lparr>IsFin = False, IsSyn = False, Offset = 0, Data = d\<rparr>],
      Packet_SentTime = 0, Packet_IsAcked = False, wireLen = 0\<rparr>"

text \<open>The datagrams one round of the server's loop writes back.\<close>

definition echo_replies :: "byte list \<Rightarrow> byte list result list" where
  "echo_replies data =
     (case UnmarshalPacket data of
        Inl _ \<Rightarrow> []
      | Inr pkt \<Rightarrow> map (\<lambda>d. MarshalPacket (echo_packet pkt d)) (List.map_filter echoed (Frames pkt)))"

section \<open>Properties\<close>

lemma echo_wf:
  assumes "UnmarshalPacket data = Inr pkt" "d \<in> set (List.map_filter echoed (Frames pkt))"
  shows "wf_packet (echo_packet pkt d)" "packet_fits (echo_packet pkt d)"
proof -
  have w: "wf_packet pkt" "packet_fits pkt" using UnmarshalPacket_sound [OF assms(1)] by blast+
  obtain f where f: "f \<in> set (Frames pkt)" "echoed f = Some d"
    using assms(2) by (auto simp: List.map_filter_def)
  from f(2) obtain sf where "f = Frame.Stream sf" "d = Data sf" by (cases f rule: echoed.cases) (auto split: if_splits)
  then show "wf_packet (echo_packet pkt d)" "packet_fits (echo_packet pkt d)"
    using w f(1) by (auto simp: wf_packet_def packet_fits_def echo_packet_def list_all_iff)
qed

text \<open>
  C40: the interop server stamps its replies with version 2, and a multiplexer of this package ignores
  every packet that is not of the current version: no reply of the server, to any datagram, changes
  anything at an endpoint that receives it.
\<close>

theorem interop_replies_ignored:
  assumes "r \<in> set (echo_replies data)"
  shows "\<exists>bytes. r = Inr bytes \<and> handleDatagram now mem rnd bytes a m = m"
proof -
  obtain pkt d where p: "UnmarshalPacket data = Inr pkt" "d \<in> set (List.map_filter echoed (Frames pkt))"
      "r = MarshalPacket (echo_packet pkt d)"
    using assms by (cases "UnmarshalPacket data") (auto simp: echo_replies_def)
  note w = echo_wf [OF p(1,2)]
  have "handleDatagram now mem rnd (packet_bytes (echo_packet pkt d)) a m = m"
    by (simp add: handleDatagram_def UnmarshalPacket_bytes [OF w]) (simp add: echo_packet_def)
  then show ?thesis using p(3) MarshalPacket_eq [OF w(1)] by blast
qed

theorem interop_replies_ignored_witness:
  "length (echo_replies (sample_data 1 False)) = 1
   \<and> (\<exists>bytes. hd (echo_replies (sample_data 1 False)) = Inr bytes
        \<and> handleDatagram 2 (\<lambda>_. sample_packet 0) None bytes ''b'' sample_mux = sample_mux)"
proof -
  have l: "length (echo_replies (sample_data 1 False)) = 1"
    by (simp add: echo_replies_def sample_parses) (simp add: sample_pkt_def sample_frame_def List.map_filter_def)
  then have "hd (echo_replies (sample_data 1 False)) \<in> set (echo_replies (sample_data 1 False))"
    by (intro hd_in_set) auto
  from interop_replies_ignored [OF this] l show ?thesis by blast
qed

end
