(* ===== verification/Udx_Sending.thy ===== *)
theory Udx_Sending
  imports Udx_Safety
begin

text \<open>
  What a connection says. A property of the frames handed to it, kept when a frame is cut and trivial
  for frames that are not STREAM frames, holds of every frame in its memory and in every datagram it
  gives to the socket, whatever it handles and however often it sends again.
\<close>

section \<open>What is in memory and on the wire\<close>

text \<open>
  A datagram says what it parses to; UDP carries none of 64 KiB or more. A packet has one frame, and an
  ACK frame few enough ranges for its count.
\<close>

definition says :: "(uint32 \<Rightarrow> uint32 \<Rightarrow> Frame \<Rightarrow> bool) \<Rightarrow> byte list \<Rightarrow> bool" where
  "says P d \<longleftrightarrow> (\<forall>pkt. length d < 2 ^ 16 \<and> UnmarshalPacket d = Inr pkt
     \<longrightarrow> (\<forall>f \<in> set (Frames pkt). P (SourceStreamID pkt) (DestinationStreamID pkt) f))"

fun few_ranges :: "Frame \<Rightarrow> bool" where
  "few_ranges (Ack f) \<longleftrightarrow> length (AckRanges f) < 2 ^ 8"
| "few_ranges _ \<longleftrightarrow> True"

definition payload :: "SentPacket \<Rightarrow> uint32 \<times> uint32 \<times> Frame list" where
  "payload pkt = (sp_SourceStreamID pkt, sp_DestinationStreamID pkt, sp_Frames pkt)"

fun holds :: "(uint32 \<Rightarrow> uint32 \<Rightarrow> Frame \<Rightarrow> bool) \<Rightarrow> uint32 \<times> uint32 \<times> Frame list \<Rightarrow> bool" where
  "holds P (src, dst, fs) \<longleftrightarrow> (\<exists>f. fs = [f] \<and> P src dst f \<and> few_ranges f)"

text \<open>\<open>Q\<close> is what holds of the packets that wait to be handled.\<close>

definition said :: "(uint32 \<Rightarrow> uint32 \<Rightarrow> Frame \<Rightarrow> bool) \<Rightarrow> (Packet \<Rightarrow> bool) \<Rightarrow> Connection \<Rightarrow> bool" where
  "said P Q c \<longleftrightarrow> (\<forall>p < nextCell c. holds P (payload (cells (c_pm c) p))) \<and> (\<forall>(d, a) \<in> set (outbox c). says P d)
     \<and> list_all Q (inbound c)"

definition sends :: "(uint32 \<Rightarrow> uint32 \<Rightarrow> Frame \<Rightarrow> bool) \<Rightarrow> (Packet \<Rightarrow> bool) \<Rightarrow> Connection \<Rightarrow> bool" where
  "sends P Q c \<longleftrightarrow> conn_inv c \<and> said P Q c"

lemma sends_mono:
  assumes "sends P Q c" "\<And>src dst f. P src dst f \<Longrightarrow> P' src dst f" "\<And>pkt. Q pkt \<Longrightarrow> Q' pkt"
  shows "sends P' Q' c"
proof -
  have "holds P' (payload k)" if "holds P (payload k)" for k using that assms(2) by (auto simp: payload_def)
  moreover have "says P' d" if "says P d" for d using that assms(2) by (fastforce simp: says_def)
  ultimately show ?thesis using assms(1,3) by (auto simp: sends_def said_def list_all_iff)
qed

lemma sends_inv: "sends P Q c \<Longrightarrow> conn_inv c"
  by (simp add: sends_def)

lemma sends_new: "wf_cid lcid \<Longrightarrow> wf_cid rcid \<Longrightarrow> sends P Q (NewConnection now mem lcid rcid la ra initiator)"
  using inv_NewConnection [of lcid rcid now mem la ra initiator]
  by (simp add: sends_def said_def NewConnection_def startIdleTimer_def armIdleCheck_def)

text \<open>Only the memory and what was sent matter.\<close>

lemma said_cong:
  "nextCell c' = nextCell c \<Longrightarrow> outbox c' = outbox c \<Longrightarrow> inbound c' = inbound c \<Longrightarrow> (\<And>p. payload (cells (c_pm c') p) = payload (cells (c_pm c) p))
     \<Longrightarrow> said P Q c' = said P Q c"
  by (simp add: said_def)

named_theorems said_simps

lemma said_fields [said_simps]:
  "said P Q (c\<lparr>remoteAddr := ra\<rparr>) = said P Q c" "said P Q (c\<lparr>c_state := st\<rparr>) = said P Q c"
  "said P Q (c\<lparr>streams := ss\<rparr>) = said P Q c" "said P Q (c\<lparr>nextStreamID := sid\<rparr>) = said P Q c"
  "said P Q (c\<lparr>maxStreams := n\<rparr>) = said P Q c" "said P Q (c\<lparr>incomingStreams := ks\<rparr>) = said P Q c"
  "said P Q (c\<lparr>c_cc := cc\<rparr>) = said P Q c" "said P Q (c\<lparr>c_fc := fc\<rparr>) = said P Q c" "said P Q (c\<lparr>c_mtu := mtu\<rparr>) = said P Q c"
  "said P Q (c\<lparr>ackedLarge := b\<rparr>) = said P Q c" "said P Q (c\<lparr>pathChallenge := d\<rparr>) = said P Q c"
  "said P Q (c\<lparr>pathChallengeResp := r\<rparr>) = said P Q c" "said P Q (c\<lparr>pendingAddr := ra\<rparr>) = said P Q c"
  "said P Q (c\<lparr>pendingChallenge := d\<rparr>) = said P Q c" "said P Q (c\<lparr>pendingSentAt := t\<rparr>) = said P Q c"
  "said P Q (c\<lparr>recvd := tr\<rparr>) = said P Q c" "said P Q (c\<lparr>ackPending := n\<rparr>) = said P Q c"
  "said P Q (c\<lparr>ackTimer := tm\<rparr>) = said P Q c" "said P Q (c\<lparr>largestArrival := t\<rparr>) = said P Q c"
  "said P Q (c\<lparr>bytesSent := n\<rparr>) = said P Q c" "said P Q (c\<lparr>bytesReceived := n\<rparr>) = said P Q c"
  "said P Q (c\<lparr>addrValidated := b\<rparr>) = said P Q c" "said P Q (c\<lparr>lostTimer := ot\<rparr>) = said P Q c"
  "said P Q (c\<lparr>lostQueue := q\<rparr>) = said P Q c" "said P Q (c\<lparr>panicked := b\<rparr>) = said P Q c"
  "said P Q (c\<lparr>lastActivity := t\<rparr>) = said P Q c" "said P Q (c\<lparr>idleTimer := ot\<rparr>) = said P Q c"
  "said P Q (c\<lparr>closeCh := b\<rparr>) = said P Q c" "said P Q (c\<lparr>onCloseCalled := b\<rparr>) = said P Q c"
  "said P Q (c\<lparr>inboundDropped := n\<rparr>) = said P Q c"
  by (simp_all add: said_def)

lemma said_helpers [said_simps]:
  "said P Q (upd_cc f c) = said P Q c" "said P Q (upd_pacer g c) = said P Q c" "said P Q (upd_mtu m c) = said P Q c"
  "said P Q (upd_stream k h c) = said P Q c" "said P Q (snd (new_stream rid st c)) = said P Q c" "said P Q (snd (encode pkt c)) = said P Q c"
  by (simp_all add: upd_cc_def upd_pacer_def upd_mtu_def upd_stream_def new_stream_def encode_def Let_def said_simps split: sum.split)

lemma said_wire: "said P Q (put_wire d a c) \<longleftrightarrow> said P Q c \<and> says P d"
  by (auto simp: said_def put_wire_def)

section \<open>The packet manager keeps what packets say\<close>

definition same_payload :: "PacketManager \<Rightarrow> PacketManager \<Rightarrow> bool" where
  "same_payload pm pm' \<longleftrightarrow> (\<forall>p. payload (cells pm' p) = payload (cells pm p))"

lemma said_pm: "same_payload (c_pm c) pm' \<Longrightarrow> said P Q (c\<lparr>c_pm := pm'\<rparr>) = said P Q c"
  by (rule said_cong) (simp_all add: same_payload_def)

lemma payload_ops [simp]:
  "same_payload pm (snd (NextSequence pm))" "same_payload pm (untrack p pm)" "same_payload pm (Drop p pm)"
  "same_payload pm (PM_Destroy pm)" "same_payload pm (SendPacket now p pm)" "same_payload pm (fst (Resend now p pm))"
  "same_payload pm (pm\<lparr>nextSeq := n\<rparr>)"
  by (auto simp: same_payload_def NextSequence_def untrack_def Drop_def PM_Destroy_def SendPacket_def Resend_def Let_def payload_def)

lemma payload_detect [simp]:
  "same_payload pm (fst (detectLostLocked now cc pm))" "same_payload pm (fst (DetectLostPackets now cc pm))"
  "same_payload pm (fst (onLossTimer now cc pm))"
  by (auto simp: same_payload_def DetectLostPackets_def onLossTimer_def detectLostLocked_def Let_def case_prod_beta)

lemma payload_take_seq: "payload (cells (fst (take_seq seq s)) p) = payload (cells (fst s) p)"
  by (auto simp: take_seq_def payload_def case_prod_beta split: option.split)

lemma payload_take_fold: "payload (cells (fst (fold take_seq qs s)) p) = payload (cells (fst s) p)"
  by (induction qs arbitrary: s) (simp_all add: payload_take_seq)

lemma payload_ack [simp]: "same_payload pm (fst (HandleAckFrame now f pm))"
  using payload_take_fold [of _ "(pm, [])"]
  by (simp add: same_payload_def HandleAckFrame_fold Let_def case_prod_beta)

section \<open>Frames in packets\<close>

lemma piece_frames_no_fin: "f \<in> set (piece_frames k off d syn False) \<Longrightarrow> \<not> IsFin f"
proof (induction k off d syn False rule: piece_frames.induct)
  case (1 k off d syn)
  then show ?case by (subst (asm) (2) piece_frames.simps) (auto split: if_splits)
qed

lemma few_ranges_frame [simp]: "few_ranges (Ack (frame r d))"
proof -
  have "length (ranges_loop r acc cursor steps) \<le> max 5 (length acc)" for r acc cursor steps
  proof (induction r acc cursor steps rule: ranges_loop.induct)
    case (1 r acc cursor steps)
    show ?case
    proof (cases "length acc < 5 \<and> steps < of_nat ackHistory")
      case True
      obtain g cur' steps' where g: "gap_loop r 0 cursor steps = (g, cur', steps')" by (cases "gap_loop r 0 cursor steps")
      obtain n cur2 steps2 where n: "run_loop r 0 cur' steps' = (n, cur2, steps2)" by (cases "run_loop r 0 cur' steps'")
      show ?thesis
        using 1 [OF True g [symmetric] refl refl _ n [symmetric] refl refl] True
        by (subst ranges_loop.simps) (auto simp: g n Let_def)
    qed (subst ranges_loop.simps, auto)
  qed
  from this [of r "[]"] have "length (ranges_loop r [] cursor steps) < 2 ^ 8" for cursor steps
    by (rule le_less_trans) simp
  then show ?thesis by (simp add: frame_def case_prod_beta)
qed

lemma fits_single:
  assumes "wf_packet pkt" "Frames pkt = [f]" "few_ranges f" "length (packet_bytes pkt) < 2 ^ 16" "\<not> is_MTUProbeFrame f"
  shows "packet_fits pkt"
proof -
  have "length (frame_bytes f) < 2 ^ 16" using assms(2,4) by (simp add: packet_bytes_def)
  moreover have "wf_frame f" using assms(1,2) by (simp add: wf_packet_def)
  ultimately have "Frame_Len f < 2 ^ 16" by (simp add: length_frame_bytes)
  then have "fits_wire f" using assms(3,5) by (cases f) simp_all
  then show ?thesis using assms(2) by (simp add: packet_fits_def)
qed

section \<open>What a connection does by itself\<close>

text \<open>Everything but what packets, the opening of streams and calls on streams make a connection do.\<close>

inductive local_step :: "go_math \<Rightarrow> Connection \<Rightarrow> Connection \<Rightarrow> bool" for gm where
  local_observe: "rnd_ok rnd \<Longrightarrow> local_step gm c (observeAddr now rnd from c)"
| local_accept: "local_step gm c (fst (AcceptStream w c))"
| local_ping: "local_step gm c (Ping now c)"
| local_migrate: "rnd_ok rnd \<Longrightarrow> local_step gm c (fst (startMigration now rnd c))"
| local_migrated: "local_step gm c (fst (finishMigration w challenge a c))"
| local_close: "local_step gm c (CloseWithError now code reason c)"
| local_ack_timer: "local_step gm c (ackTimerFired now src dst c)"
| local_pto_timer: "local_step gm c (ptoTimerFired now c)"
| local_loss_timer: "local_step gm c (lossTimerFired gm now c)"
| local_lost_timer: "local_step gm c (flushLost gm now c)"
| local_idle_timer: "local_step gm c (onIdleCheck now c)"

lemma local_run: "local_step gm c c' \<Longrightarrow> run_step gm c c'"
  by (cases rule: local_step.cases) (auto intro: run_step.intros)

text \<open>The calls of a stream that hand over frames with a property.\<close>

fun call_says :: "(uint32 \<Rightarrow> uint32 \<Rightarrow> Frame \<Rightarrow> bool) \<Rightarrow> conn_call \<Rightarrow> bool" where
  "call_says P (sendStreamFrame sid rid off data fin syn)
     \<longleftrightarrow> P sid rid (Frame.Stream \<lparr>IsFin = fin, IsSyn = syn, Offset = off, Data = data\<rparr>)"
| "call_says P (sendStreamFrames sid rid off data k syn)
     \<longleftrightarrow> 0 < k \<and> (\<forall>f \<in> set (piece_frames (nat k) off data syn False). P sid rid (Frame.Stream f))"
| "call_says P _ \<longleftrightarrow> True"

lemma quiet_calls [simp]:
  "list_all (call_says P) (snd (Stream_Reset code s))" "list_all (call_says P) (snd (DeliverData off d s))"
  "list_all (call_says P) (fst (snd (Read now n s)))" "list_all (call_says P) (snd (refresh_stream s))"
  "list_all (call_says P) (fst (write_claim now m d s))"
proof -
  show r: "list_all (call_says P) (snd (Stream_Reset code s))" for code s by (simp add: Stream_Reset_def Let_def)
  show "list_all (call_says P) (snd (DeliverData off d s))" using r by (auto simp: DeliverData_def Let_def split: prod.split)
  show "list_all (call_says P) (fst (snd (Read now n s)))" by (auto simp: Read_def Let_def case_prod_beta split: option.split)
  show "list_all (call_says P) (snd (refresh_stream s))" by (auto simp: refresh_stream_def Let_def case_prod_beta split: option.split)
  show "list_all (call_says P) (fst (write_claim now m d s))" by (auto simp: write_claim_def Let_def split: option.split)
qed

section \<open>A policy on frames\<close>

locale frame_policy =
  fixes P :: "uint32 \<Rightarrow> uint32 \<Rightarrow> Frame \<Rightarrow> bool" and Q :: "Packet \<Rightarrow> bool"
  assumes other: "\<forall>sf. f \<noteq> Frame.Stream sf \<Longrightarrow> P src dst f"
    and cut: "P src dst (Frame.Stream h) \<Longrightarrow> g \<in> set (piece_frames n (Offset h) (Data h) syn (IsFin h)) \<Longrightarrow> P src dst (Frame.Stream g)"
begin

lemma says_packet:
  assumes "wf_packet pkt" "Frames pkt = [f]" "P (SourceStreamID pkt) (DestinationStreamID pkt) f" "few_ranges f"
  shows "says P (packet_bytes pkt)"
proof (cases "is_MTUProbeFrame f")
  case True
  then obtain n where f: "f = MTUProbeFrame n" by (cases f) auto
  let ?q = "pkt\<lparr>Frames := [MTUProbeFrame (max 1 n)]\<rparr>"
  have q: "packet_bytes pkt = packet_bytes ?q" "wf_packet ?q" "packet_fits ?q"
    using assms(1,2) by (simp_all add: f packet_bytes_def header_bytes_def frame_bytes_def wf_packet_def packet_fits_def nat_diff_distrib' max_def)
  show ?thesis by (auto simp: says_def q(1) UnmarshalPacket_bytes [OF q(2,3)] intro: other)
next
  case False
  show ?thesis
    using UnmarshalPacket_bytes [OF assms(1)] fits_single [OF assms(1,2,4) _ False] assms(2,3) by (auto simp: says_def)
qed

lemma said_cell: "said P Q c \<Longrightarrow> holds P (payload k) \<Longrightarrow> said P Q (with_cells [k] c)"
  by (auto simp: said_def with_cells_def put_cells_one less_Suc_eq)

lemma says_conn:
  "conn_inv c \<Longrightarrow> wf_frame f \<Longrightarrow> P src dst f \<Longrightarrow> few_ranges f \<Longrightarrow> says P (packet_bytes (conn_packet c seq dst src [f]))"
  by (rule says_packet [where f = f]) (auto simp: conn_inv_def wf_conn_def wf_packet_def conn_packet_def)

lemma sends_sendPacket:
  assumes "sends P Q c" "wf_frame f" "P src dst f" "few_ranges f"
  shows "sends P Q (sendPacket now dst src [f] c)"
proof -
  have inv: "conn_inv c" and s: "said P Q c" using assms(1) by (simp_all add: sends_def)
  note i = inv_next [OF inv, of "nextSeq (c_pm c) + 1"]
  have t: "said P Q (c\<lparr>c_pm := (c_pm c)\<lparr>nextSeq := nextSeq (c_pm c) + 1\<rparr>\<rparr>)" using s by (simp add: said_pm)
  note k = said_cell [OF t, of "sent_packet (nextSeq (c_pm c)) n [f] dst src" for n]
  have "said P Q (sendPacket now dst src [f] c)"
    using s k assms says_conn [OF i] says_conn [OF inv]
    by (simp add: sendPacket_def NextSequence_def Let_def encode_conn [OF i] encode_conn [OF inv] new_packet_eq
        said_simps said_wire upd_pm_def said_pm payload_def sent_packet_def)
  then show ?thesis using inv_sendPacket [OF inv, of "[f]"] assms(2) by (simp add: sends_def)
qed

lemma sends_sendFrames: "sends P Q c \<Longrightarrow> wf_frame f \<Longrightarrow> P 0 0 f \<Longrightarrow> few_ranges f \<Longrightarrow> sends P Q (sendFrames now [f] c)"
  unfolding sendFrames_def by (rule sends_sendPacket)

lemma sends_retransmit:
  assumes "sends P Q c" "p < nextCell c"
  shows "sends P Q (retransmitPacket p seq c)"
proof -
  have inv: "conn_inv c" and s: "said P Q c" using assms(1) by (simp_all add: sends_def)
  have "list_all wf_frame (sp_Frames (cells (c_pm c) p))" using inv assms(2) by (simp add: conn_inv_def mem_ok_def)
  moreover obtain f where "sp_Frames (cells (c_pm c) p) = [f]" "few_ranges f"
      "P (sp_SourceStreamID (cells (c_pm c) p)) (sp_DestinationStreamID (cells (c_pm c) p)) f"
    using s assms(2) by (auto simp: said_def payload_def)
  ultimately have "said P Q (retransmitPacket p seq c)"
    using s says_conn [OF inv] by (simp add: retransmitPacket_def Let_def encode_conn [OF inv] said_simps said_wire)
  then show ?thesis using inv_retransmit [OF inv assms(2)] by (simp add: sends_def)
qed

lemma sends_prepare:
  assumes "sends P Q c" "P src dst (Frame.Stream f)"
  shows "sends P Q (fst (prepareDataPacket now dst src [Frame.Stream f] c))"
    "snd (prepareDataPacket now dst src [Frame.Stream f] c) = Some d \<Longrightarrow> says P d"
proof -
  have inv: "conn_inv c" and s: "said P Q c" using assms(1) by (simp_all add: sends_def)
  note i = inv_next [OF inv, of "nextSeq (c_pm c) + 1"]
  have t: "said P Q (c\<lparr>c_pm := (c_pm c)\<lparr>nextSeq := nextSeq (c_pm c) + 1\<rparr>\<rparr>)" using s by (simp add: said_pm)
  note k = said_cell [OF t, of "sent_packet (nextSeq (c_pm c)) n [Frame.Stream f] dst src" for n]
  have "said P Q (fst (prepareDataPacket now dst src [Frame.Stream f] c))"
    using k assms(2)
    by (simp add: prepareDataPacket_def NextSequence_def Let_def encode_conn [OF i] new_packet_eq
        said_simps upd_pm_def said_pm payload_def sent_packet_def)
  then show "sends P Q (fst (prepareDataPacket now dst src [Frame.Stream f] c))"
    using inv_prepare [OF inv, of "[Frame.Stream f]"] by (simp add: sends_def)
  show "says P d" if "snd (prepareDataPacket now dst src [Frame.Stream f] c) = Some d"
    using that says_conn [OF i, of "Frame.Stream f"] assms(2)
    by (auto simp: prepareDataPacket_def NextSequence_def Let_def encode_conn [OF i] new_packet_eq split: if_splits)
qed

lemma sends_writeDatagrams: "sends P Q c \<Longrightarrow> \<forall>d \<in> set bufs. says P d \<Longrightarrow> sends P Q (writeDatagrams bufs c)"
proof -
  have "said P Q (fold (\<lambda>b c. put_wire b (remoteAddr c) c) bufs c)" if "said P Q c" "\<forall>d \<in> set bufs. says P d" for c
    using that by (induction bufs arbitrary: c) (simp_all add: said_wire)
  then show "sends P Q c \<Longrightarrow> \<forall>d \<in> set bufs. says P d \<Longrightarrow> sends P Q (writeDatagrams bufs c)"
    by (simp add: sends_def writeDatagrams_def inv_writeDatagrams [unfolded writeDatagrams_def])
qed

lemma sends_sendStreamFrames:
  assumes "sends P Q c" "0 < k" "\<forall>f \<in> set (piece_frames (nat k) off data syn False). P sid rid (Frame.Stream f)"
  shows "sends P Q (sendStreamFrames_conn now sid rid off data k syn c)"
proof -
  let ?f = "\<lambda>f (c, bufs). case prepareDataPacket now rid sid [Frame.Stream f] c of
                   (c, Some buf) \<Rightarrow> (c, bufs @ [buf]) | (c, None) \<Rightarrow> (c, bufs)"
  let ?ok = "\<lambda>s. sends P Q (fst s) \<and> (\<forall>d \<in> set (snd s). says P d)"
  have f: "?ok (?f x s)" if "P sid rid (Frame.Stream x)" "?ok s" for x s
    using sends_prepare [OF _ that(1), of "fst s" now] that(2)
    by (auto simp: case_prod_beta split: option.splits)
  have "?ok (fold ?f fs s)" if "\<forall>x \<in> set fs. P sid rid (Frame.Stream x)" "?ok s" for fs s
    using fold_invariant [of fs "\<lambda>x. P sid rid (Frame.Stream x)" ?ok s ?f] f that by blast
  from this [OF assms(3), of "(c, [])"] show ?thesis
    using assms(1,2) by (simp add: sendStreamFrames_conn_def case_prod_beta sends_writeDatagrams)
qed

lemma sends_run_call: "sends P Q c \<Longrightarrow> call_says P call \<Longrightarrow> sends P Q (run_call now call c)"
  by (cases call) (auto intro!: sends_sendPacket sends_sendStreamFrames other)

lemma sends_run_calls: "sends P Q c \<Longrightarrow> list_all (call_says P) calls \<Longrightarrow> sends P Q (run_calls now calls c)"
  unfolding run_calls_def by (induction calls arbitrary: c) (simp_all add: sends_run_call)

lemma said_cells:
  assumes "said P Q c" "\<forall>k \<in> set ks. holds P (payload k)"
  shows "said P Q (with_cells ks c)"
proof -
  have "holds P (payload (put_cells (nextCell c) ks (cells (c_pm c)) p))" if "p < nextCell c + length ks" for p
    using assms that by (cases "nextCell c \<le> p") (auto simp: said_def put_cells_def)
  then show ?thesis using assms(1) by (simp add: said_def with_cells_def)
qed

lemma piece_holds:
  assumes "holds P (payload (cells (c_pm c) p))" "sp_Frames (cells (c_pm c) p) = [Frame.Stream sf]"
    and "g \<in> set (piece_frames n (Offset sf) (Data sf) (IsSyn sf) (IsFin sf))"
  shows "holds P (payload (piece_cell c p g))"
  using cut [OF _ assms(3)] assms(1,2) by (simp add: payload_def piece_cell_def sent_packet_def Let_def)

lemma sends_fitToPath:
  assumes "sends P Q c" "p < nextCell c"
  shows "sends P Q (snd (fitToPath p c))"
proof -
  have inv: "conn_inv c" and s: "said P Q c" using assms(1) by (simp_all add: sends_def)
  have w: "wf_conn c" using inv by (simp add: conn_inv_def)
  have h: "holds P (payload (cells (c_pm c) p))" using s assms(2) by (simp add: said_def)
  have d: "said P Q (upd_pm (Drop p) c)" using s by (simp add: upd_pm_def said_pm)
  consider "fitToPath p c = ([p], c)" | sf n where "sp_Frames (cells (c_pm c) p) = [Frame.Stream sf]"
      "snd (fitToPath p c) = with_cells (map (piece_cell c p) (piece_frames n (Offset sf) (Data sf) (IsSyn sf) (IsFin sf))) (upd_pm (Drop p) c)"
    using fitToPath_cases [OF w assms(2)] by (fastforce simp: Let_def)
  then have "said P Q (snd (fitToPath p c))"
  proof cases
    case 1
    then show ?thesis using s by simp
  next
    case (2 sf n)
    show ?thesis unfolding 2(2) using piece_holds [OF h 2(1), of _ n] by (intro said_cells [OF d]) auto
  qed
  then show ?thesis using inv_fitToPath [OF inv assms(2)] by (simp add: sends_def)
qed

lemma sends_resend: "sends P Q c \<Longrightarrow> p < nextCell c \<Longrightarrow> sends P Q (c\<lparr>c_pm := fst (Resend now p (c_pm c))\<rparr>)"
  by (simp add: sends_def inv_resend said_pm)

lemma sends_simps:
  "sends P Q (upd_cc f c) = sends P Q c" "sends P Q (upd_pacer g c) = sends P Q c" "sends P Q (upd_stream k h c) = sends P Q c"
  "sends P Q (c\<lparr>c_cc := cc\<rparr>) = sends P Q c" "sends P Q (c\<lparr>lostTimer := t\<rparr>) = sends P Q c"
  by (simp_all add: sends_def inv_simps said_simps)

lemma sends_probe_piece: "sends P Q c \<Longrightarrow> q < nextCell c \<Longrightarrow> sends P Q (probe_piece now q c)"
  using sends_resend [of c q now]
  by (auto simp: probe_piece_def Let_def sends_simps sends_retransmit split: prod.splits option.splits)

lemma sends_probes:
  "sends P Q c \<Longrightarrow> \<forall>q \<in> set qs. q < nextCell c \<Longrightarrow> sends P Q (fold (probe_piece now) qs c)"
  by (induction qs arbitrary: c) (simp_all add: sends_probe_piece)

lemma sends_onPTO:
  assumes "sends P Q c"
  shows "sends P Q (onPTO now c)"
proof -
  let ?g = "\<lambda>p c. let (pieces, c) = fitToPath p c in fold (probe_piece now) pieces c"
  have g: "sends P Q (?g p d) \<and> nextCell d \<le> nextCell (?g p d)" if "sends P Q d" "p < nextCell d" for p d
    using inv_fitToPath [OF sends_inv [OF that(1)] that(2)] sends_fitToPath [OF that]
      inv_probes [of "snd (fitToPath p d)" "fst (fitToPath p d)" now] sends_probes [of "snd (fitToPath p d)" "fst (fitToPath p d)" now]
    by (simp add: case_prod_beta)
  have f: "sends P Q (fold ?g ps d)" if "sends P Q d" "\<forall>p \<in> set ps. p < nextCell d" for ps d
    using that
  proof (induction ps arbitrary: d)
    case (Cons p ps)
    then show ?case using g [of d p] by (simp only: fold_simps) (meson less_le_trans list.set_intros)
  qed simp
  define d where "d = (if ptoCount (c_cc c) \<ge> BlackholePTOs then upd_mtu (Blackhole now) c else c)"
  have "conn_inv d"
    unfolding d_def using sends_inv [OF assms] by (auto intro!: inv_mtu_op mtu_floor simp del: SafeDatagramSize_def)
  then have d: "sends P Q d" using assms by (simp add: d_def sends_def said_simps)
  then have "\<forall>p \<in> set (OldestUnacked ptoProbes (c_pm d)). p < nextCell d"
    using oldest_tracked by (fastforce simp: sends_def conn_inv_def mem_ok_def)
  then show ?thesis using f [OF d] by (simp add: onPTO_def d_def Let_def)
qed

lemma sends_pto: "sends P Q c \<Longrightarrow> sends P Q (ptoTimerFired now c)"
  by (simp add: ptoTimerFired_def Let_def sends_simps sends_onPTO)

lemma sends_resend_lost: "sends P Q c \<Longrightarrow> p < nextCell c \<Longrightarrow> sends P Q (resend_lost now p c)"
  using sends_resend [of c p now]
  by (auto simp: resend_lost_def Let_def sends_simps upd_cc_def upd_pacer_def intro!: sends_retransmit
      split: prod.splits option.splits)

lemma sends_queue: "sends P Q c \<Longrightarrow> \<forall>p \<in> set ps. p < nextCell c \<Longrightarrow> sends P Q (c\<lparr>lostQueue := ps\<rparr>)"
  by (simp add: sends_def inv_queue said_simps)

lemma sends_flush_round:
  assumes "sends P Q c" "lostQueue c = p # rest"
  shows "sends P Q (fst (flush_round gm now p rest c))"
proof -
  have p: "p < nextCell c" "\<forall>q \<in> set rest. q < nextCell c" using assms by (auto simp: sends_def conn_inv_def mem_ok_def)
  define s where "s = (if sp_Size (cells (c_pm c) p) > Current (c_mtu c) then fitToPath p c else ([p], c))"
  have s: "sends P Q (snd s)" "nextCell c \<le> nextCell (snd s)"
    using sends_fitToPath [OF assms(1) p(1)] inv_fitToPath [OF sends_inv [OF assms(1)] p(1)] assms(1) by (simp_all add: s_def)
  then have q: "\<forall>q \<in> set rest. q < nextCell (snd s)" "p < nextCell (snd s)" using p by fastforce+
  have r: "said P Q (resend_lost now p ((snd s)\<lparr>lostQueue := rest\<rparr>))"
    using s q sends_resend_lost [of "(snd s)\<lparr>lostQueue := rest\<rparr>" p now] by (simp add: sends_queue sends_def [of P Q "resend_lost now p _"])
  have "said P Q (fst (flush_round gm now p rest c))"
    using assms(1) s(1) r unfolding flush_round_def s_def [symmetric] sends_def
    by (auto simp: Let_def case_prod_beta said_simps)
  then show ?thesis using inv_flush_round [OF sends_inv [OF assms(1)] assms(2)] by (simp add: sends_def)
qed

lemma sends_flush_loop: "sends P Q c \<Longrightarrow> sends P Q (flush_loop n gm now c)"
proof (induction n arbitrary: c)
  case (Suc n)
  show ?case
  proof (cases "lostQueue c")
    case (Cons p rest)
    with sends_flush_round [OF Suc(2)] have "sends P Q (fst (flush_round gm now p rest c))" by blast
    then show ?thesis using Suc by (simp add: Cons Let_def case_prod_beta)
  qed (simp add: Suc)
qed simp

lemma sends_flushLost: "sends P Q c \<Longrightarrow> sends P Q (flushLost gm now c)"
  by (simp add: flushLost_def Let_def sends_flush_loop sends_simps)

lemma sends_onPacketsLost:
  assumes "sends P Q c" "\<forall>p \<in> set lost. p < nextCell c"
  shows "sends P Q (onPacketsLost gm now lost c)"
proof -
  define d where "d = upd_mtu (fold (\<lambda>p. note_lost now (\<not> ackedLarge c) (cells (c_pm c) p)) lost) c"
  have "conn_inv d"
    unfolding d_def using sends_inv [OF assms(1)] by (auto intro!: inv_mtu_fold mtu_floor_lost simp del: SafeDatagramSize_def)
  then have d: "sends P Q d" "nextCell d = nextCell c" "lostQueue d = lostQueue c"
    using assms(1) by (simp_all add: d_def sends_def said_simps) (simp_all add: upd_mtu_def)
  let ?l = "filter (\<lambda>p. \<not> Probe (cells (c_pm c) p)) lost"
  have q: "sends P Q (e\<lparr>lostQueue := lostQueue e @ ?l\<rparr>)"
    if "sends P Q e" "nextCell e = nextCell c" "lostQueue e = lostQueue c" for e
    using that assms by (intro sends_queue) (auto simp: sends_def conn_inv_def mem_ok_def)
  show ?thesis
    unfolding onPacketsLost_def Let_def d_def [symmetric] using d
    by (auto simp: sends_simps intro!: sends_flushLost q) (simp_all add: upd_cc_def)
qed

lemma sends_pm: "sends P Q c \<Longrightarrow> pm_keeps (c_pm c) pm' \<Longrightarrow> same_payload (c_pm c) pm' \<Longrightarrow> sends P Q (c\<lparr>c_pm := pm'\<rparr>)"
  by (simp add: sends_def inv_pm said_pm)

lemma sends_lost:
  assumes "sends P Q c" "pm_keeps (c_pm c) pm'" "same_payload (c_pm c) pm'" "set lost \<subseteq> tracked_ptrs (c_pm c)"
  shows "sends P Q (onPacketsLost gm now lost (c\<lparr>c_pm := pm'\<rparr>))"
proof (rule sends_onPacketsLost)
  show "sends P Q (c\<lparr>c_pm := pm'\<rparr>)" by (rule sends_pm [OF assms(1-3)])
  show "\<forall>p \<in> set lost. p < nextCell (c\<lparr>c_pm := pm'\<rparr>)"
    using assms(1,4) by (auto simp: sends_def conn_inv_def mem_ok_def)
qed

lemma sends_detect: "sends P Q c \<Longrightarrow> sends P Q (detect_conn gm now c)"
  using keeps_detect [OF inv_pm_inv [OF sends_inv [of P Q c]], of now "c_cc c"] payload_detect(1) [of "c_pm c" now "c_cc c"]
  by (auto simp: detect_conn_def DetectLostPackets_def Let_def sends_lost sends_pm simp del: payload_detect split: prod.split)

lemma sends_lossTimer: "sends P Q c \<Longrightarrow> sends P Q (lossTimerFired gm now c)"
  using keeps_timer [OF inv_pm_inv [OF sends_inv [of P Q c]], of now "c_cc c"] payload_detect(3) [of "c_pm c" now "c_cc c"]
  by (auto simp: lossTimerFired_def Let_def sends_lost sends_pm simp del: payload_detect split: prod.split)

lemma sends_probeMTU:
  assumes "sends P Q c"
  shows "sends P Q (probeMTU now c)"
proof -
  have inv: "conn_inv c" and s: "said P Q c" using assms by (simp_all add: sends_def)
  obtain m sz where m: "NextProbe now (c_mtu c) = (m, sz)" by fastforce
  have "SafeDatagramSize \<le> current m"
    using mtu_floor(6) [of "c_mtu c" now] inv by (simp add: m conn_inv_def Current_def)
  then have i: "conn_inv (c\<lparr>c_mtu := m\<rparr>)" by (rule inv_mtu [OF inv])
  note j = inv_next [OF i, of "nextSeq (c_pm c) + 1", simplified]
  let ?d = "c\<lparr>c_mtu := m, c_pm := (c_pm c)\<lparr>nextSeq := nextSeq (c_pm c) + 1\<rparr>\<rparr>"
  have t: "said P Q ?d"
    using s by (subst said_pm [of "c\<lparr>c_mtu := m\<rparr>", simplified]) (simp_all add: said_simps)
  note k = said_cell [OF t, of "(sent_packet (nextSeq (c_pm c)) n [MTUProbeFrame z] 0 0)\<lparr>Probe := True\<rparr>" for n z]
  have "said P Q (probeMTU now c)"
    using s k says_conn [OF j] other [of "MTUProbeFrame _"]
    by (simp add: probeMTU_def m NextSequence_def Let_def encode_conn [OF j] new_packet_eq said_simps said_wire upd_pm_def said_pm
        payload_def sent_packet_def)
  then show ?thesis using inv_probeMTU [OF inv] by (simp add: sends_def)
qed

lemma sends_handleAckFrame:
  assumes "sends P Q c"
  shows "sends P Q (handleAckFrame gm now f c)"
proof -
  obtain pm acked where r: "HandleAckFrame now f (c_pm c) = (pm, acked)" by fastforce
  have i: "sends P Q (c\<lparr>c_pm := pm\<rparr>)"
    using sends_pm [OF assms keeps_ack(1) [OF inv_pm_inv [OF sends_inv [OF assms]] r]] payload_ack [of "c_pm c" now f] by (simp add: r)
  have "conn_inv (upd_mtu (fold note_acked pkts) (c\<lparr>c_pm := pm\<rparr>))" for pkts
    using sends_inv [OF i] mtu_floor_acked by (rule inv_mtu_fold)
  then have "sends P Q (upd_mtu (fold note_acked pkts) (c\<lparr>c_pm := pm\<rparr>))" for pkts
    using i by (simp add: sends_def said_simps)
  moreover have "sends P Q (d\<lparr>ackedLarge := b\<rparr>) = sends P Q d" for d b by (simp add: sends_def inv_simps said_simps)
  ultimately show ?thesis
    using i by (auto simp: handleAckFrame_def r Let_def sends_simps intro!: sends_probeMTU sends_flushLost sends_detect)
qed

lemma sends_takeAck: "sends P Q (snd (takeAckLocked now c)) = sends P Q c"
  by (simp add: sends_def inv_takeAck) (simp add: takeAckLocked_def Let_def said_simps)

lemma few_ranges_take [simp]: "few_ranges (Ack (fst (takeAckLocked now c)))"
  by (simp add: takeAckLocked_def Let_def del: few_ranges.simps)

lemma sends_receipt:
  "sends P Q (c\<lparr>recvd := r\<rparr>) = sends P Q c" "sends P Q (c\<lparr>largestArrival := t\<rparr>) = sends P Q c" "sends P Q (c\<lparr>ackPending := n\<rparr>) = sends P Q c"
  "sends P Q (c\<lparr>ackTimer := tm\<rparr>) = sends P Q c" "sends P Q (c\<lparr>bytesReceived := n\<rparr>) = sends P Q c" "sends P Q (c\<lparr>lastActivity := t\<rparr>) = sends P Q c"
  by (simp_all add: sends_def inv_simps said_simps)

lemma sends_noteReceived: "sends P Q c \<Longrightarrow> sends P Q (noteReceived now pkt c)"
  by (auto simp: noteReceived_def Let_def case_prod_beta sends_receipt sends_takeAck
      intro!: sends_sendPacket other simp del: few_ranges.simps)

lemma sends_ackTimer: "sends P Q c \<Longrightarrow> sends P Q (ackTimerFired now src dst c)"
  by (auto simp: ackTimerFired_def Let_def case_prod_beta sends_receipt sends_takeAck
      intro!: sends_sendPacket other simp del: few_ranges.simps)

lemma sends_sendControlTo:
  assumes "sends P Q c" "wf_frame f" "\<forall>sf. f \<noteq> Frame.Stream sf" "few_ranges f"
  shows "sends P Q (sendControlTo [f] a c)"
proof -
  have inv: "conn_inv c" and s: "said P Q c" using assms(1) by (simp_all add: sends_def)
  have "said P Q (sendControlTo [f] a c)"
    using s says_conn [OF inv assms(2) other [OF assms(3)] assms(4)] assms(2)
    by (simp add: sendControlTo_def Let_def encode_conn [OF inv] said_simps said_wire)
  then show ?thesis using inv_sendControlTo [OF inv, of "[f]"] assms(2) by (simp add: sends_def)
qed

lemma sends_observeAddr: "sends P Q c \<Longrightarrow> rnd_ok rnd \<Longrightarrow> sends P Q (observeAddr now rnd from c)"
  by (auto simp: observeAddr_def rnd_ok_def sends_def inv_simps said_simps
      intro!: sends_sendControlTo [unfolded sends_def, THEN conjunct1] sends_sendControlTo [unfolded sends_def, THEN conjunct2]
      split: option.splits)

lemma sends_startMigration: "sends P Q c \<Longrightarrow> rnd_ok rnd \<Longrightarrow> sends P Q (fst (startMigration now rnd c))"
proof -
  assume a: "sends P Q c" "rnd_ok rnd"
  then have "sends P Q (c\<lparr>pathChallenge := d\<rparr>)" for d by (simp add: sends_def inv_simps said_simps)
  then show ?thesis using a by (auto simp: startMigration_def rnd_ok_def intro!: sends_sendFrames other split: option.splits)
qed

lemma sends_finishMigration: "sends P Q c \<Longrightarrow> sends P Q (fst (finishMigration w d a c))"
  using inv_finishMigration [of c w d a]
  by (auto simp: sends_def finishMigration_def Let_def said_simps split: wake.splits option.splits)

lemma sends_close:
  assumes "sends P Q c"
  shows "sends P Q (closeInternal now code reason announce c)"
proof -
  define d where "d = c\<lparr>c_state := ConnStateClosing, idleTimer := None, ackTimer := None, ackPending := 0\<rparr>"
  have d: "sends P Q d" using assms by (simp add: d_def sends_def inv_simps said_simps)
  define e where "e = (if announce
      then sendFrames now [ConnectionClose \<lparr>ErrorCode = code, FrameTypeVal = 0, ReasonPhrase = reason\<rparr>] d else d)"
  have "said P Q e" using d by (auto simp: e_def sends_def [symmetric] intro!: sends_sendFrames [unfolded sends_def, THEN conjunct2] other) (simp_all add: sends_def)
  then have "said P Q (e\<lparr>c_pm := PM_Destroy (c_pm e)\<rparr>)" by (simp add: said_pm)
  then have "said P Q (closeInternal now code reason announce c)"
    using assms by (simp add: closeInternal_def Let_def d_def [symmetric] e_def [symmetric] sends_def) (simp add: said_def)
  then show ?thesis using inv_close [OF sends_inv [OF assms]] by (simp add: sends_def)
qed

lemma sends_on_stream:
  "sends P Q c \<Longrightarrow> (\<And>s. map_of (streams c) k = Some s \<Longrightarrow> list_all (call_says P) (snd (f s))) \<Longrightarrow> sends P Q (on_stream now k f c)"
  by (auto simp: on_stream_def sends_simps intro!: sends_run_calls split: option.split)

lemma sends_handleStreamFrame: "sends P Q c \<Longrightarrow> sends P Q (handleStreamFrame now pkt f c)"
proof -
  have "sends P Q (snd (new_stream rid st d)) = sends P Q d" "sends P Q (d\<lparr>incomingStreams := ks\<rparr>) = sends P Q d" for rid st d ks
    by (simp_all add: sends_def inv_new_stream said_simps inv_simps)
  then show "sends P Q c \<Longrightarrow> sends P Q (handleStreamFrame now pkt f c)"
    by (auto simp: handleStreamFrame_def Let_def case_prod_beta sends_simps intro!: sends_on_stream split: option.splits)
qed

lemma sends_at_stream: "sends P Q c \<Longrightarrow> (\<And>k. sends P Q (g k c)) \<Longrightarrow> sends P Q (at_stream pkt g c)"
  by (simp add: at_stream_def split: option.split)

lemma sends_handleFrame:
  assumes "sends P Q c" "wf_frame f"
  shows "sends P Q (handleFrame gm now pkt f c)"
proof -
  have f: "sends P Q (c\<lparr>c_fc := x\<rparr>)" "sends P Q (c\<lparr>maxStreams := n\<rparr>)" "sends P Q (fst (completeMigration d c))" for x n d
    using assms(1) by (simp_all add: sends_def inv_simps said_simps completeMigration_def)
  have r: "sends P Q (d\<lparr>pathChallengeResp := r\<rparr>) = sends P Q d" for d r by (simp add: sends_def inv_simps said_simps)
  show ?thesis
    using assms f
    by (cases f) (auto simp: handleWindowUpdate_def handleResetStream_def Conn_Close_def CloseWithError_def sends_simps r
        Let_def case_prod_beta sends_handleStreamFrame sends_handleAckFrame sends_close
        intro!: sends_at_stream sends_on_stream sends_sendFrames other)
qed

lemma sends_HandlePacket:
  assumes "sends P Q c" "wf_packet pkt"
  shows "sends P Q (HandlePacket gm now pkt c)"
proof -
  have "sends P Q (fold (handleFrame gm now pkt) fs d)" if "sends P Q d" "list_all wf_frame fs" for fs d
    using that by (induction fs arbitrary: d) (simp_all add: sends_handleFrame)
  then show ?thesis
    using assms by (auto simp: HandlePacket_def Let_def encode_wf sends_receipt wf_packet_def intro!: sends_noteReceived)
qed

lemma sends_inbound: "sends P Q c \<Longrightarrow> sends P Q (inbound_step gm now c)"
proof (cases "inbound c")
  case (Cons pkt rest)
  assume c: "sends P Q c"
  then have "sends P Q (c\<lparr>inbound := rest\<rparr>)" "wf_packet pkt"
    by (auto simp: sends_def said_def conn_inv_def mem_ok_def wf_conn_def Cons)
  then show ?thesis by (simp add: inbound_step_def Cons sends_HandlePacket)
qed (simp add: inbound_step_def)

lemma sends_enqueue: "sends P Q c \<Longrightarrow> wf_packet pkt \<Longrightarrow> Q pkt \<Longrightarrow> sends P Q (enqueue pkt c)"
  using inv_enqueue [of c pkt] by (simp add: sends_def) (simp add: enqueue_def said_def)

lemma sends_open: "sends P Q c \<Longrightarrow> sends P Q (fst (OpenStream c))"
  by (simp add: OpenStream_def case_prod_beta Let_def sends_def inv_new_stream said_simps)

lemma sends_local: "local_step gm c c' \<Longrightarrow> sends P Q c \<Longrightarrow> sends P Q c'"
proof (induction rule: local_step.induct)
  case (local_accept c w)
  then show ?case by (simp add: AcceptStream_def sends_def inv_simps said_simps split: wake.split list.split)
next
  case (local_idle_timer c now)
  then have "sends P Q (armIdleCheck now c)" by (simp add: armIdleCheck_def sends_def inv_simps said_simps)
  then show ?case using local_idle_timer by (simp add: onIdleCheck_def sends_close)
next
  case (local_ping c now)
  then show ?case unfolding Ping_def by (intro sends_sendFrames other) simp_all
qed (simp_all add: sends_observeAddr sends_startMigration sends_finishMigration CloseWithError_def sends_close
    sends_ackTimer sends_pto sends_lossTimer sends_flushLost)

end

end
