(* ===== verification/Udx_Delivery.thy ===== *)
theory Udx_Delivery
  imports Udx_Safety "HOL-Library.Sublist"
begin

text \<open>
  What a connection promises the reader of one of its streams. The stream's own promise (locale
  \<open>byte_stream\<close>) is carried through everything a connection does: packets for this and other streams,
  frames of every kind, calls on every stream, timers and closing.
\<close>

section \<open>The invariant of one stream in a connection\<close>

text \<open>
  Every stream under the ID \<open>k\<close> has the remote ID \<open>rid\<close> and has received bytes of \<open>B\<close> only, of which
  \<open>got\<close>, a prefix, was read; and \<open>k\<close> was given out already.
\<close>

definition reads :: "byte list \<Rightarrow> uint32 \<Rightarrow> byte list \<Rightarrow> Stream \<Rightarrow> bool" where
  "reads B rid got s \<longleftrightarrow> stream_inv B (s, got) \<and> RemoteID s = rid"

definition conn_reads :: "byte list \<Rightarrow> uint32 \<Rightarrow> uint32 \<Rightarrow> byte list \<Rightarrow> Connection \<Rightarrow> bool" where
  "conn_reads B rid k got c \<longleftrightarrow>
     (\<forall>s. (k, s) \<in> set (streams c) \<longrightarrow> reads B rid got s) \<and> unat k < unat (nextStreamID c)
     \<and> prefix got B"

lemma RemoteID_release [simp]: "RemoteID (release s) = RemoteID s"
  by (induction s rule: release.induct) (subst release.simps, simp split: option.split)

lemma RemoteID_finish [simp]: "RemoteID (finishLocked s) = RemoteID s"
  by (simp add: finishLocked_def Let_def)

lemma RemoteID_place [simp]: "RemoteID (fst (placeLocked off d s)) = RemoteID s"
  by (simp add: placeLocked_def Let_def)

lemma RemoteID_events [simp]:
  "RemoteID (fst (Stream_Reset code s)) = RemoteID s" "RemoteID (fst (DeliverData off d s)) = RemoteID s"
  "RemoteID (DeliverFin final s) = RemoteID s" "RemoteID (DeliverReset code s) = RemoteID s"
  "RemoteID (OnWindowUpdate w s) = RemoteID s" "RemoteID (fst (Close s)) = RemoteID s"
  "RemoteID (fst (Read now n s)) = RemoteID s"
proof -
  show r: "RemoteID (fst (Stream_Reset code s)) = RemoteID s" for code s by (simp add: Stream_Reset_def Let_def)
  show "RemoteID (fst (DeliverData off d s)) = RemoteID s"
    by (simp add: DeliverData_def Let_def case_prod_beta r)
  show "RemoteID (fst (Read now n s)) = RemoteID s" by (simp add: Read_def Let_def case_prod_beta split: option.split)
qed (simp_all add: DeliverFin_def DeliverReset_def OnWindowUpdate_def Close_def Let_def)

lemma reads_event:
  assumes "reads B rid got s"
  shows "segment B off d \<Longrightarrow> reads B rid got (fst (DeliverData off d s))"
    "unat final = length B \<Longrightarrow> reads B rid got (DeliverFin final s)"
    "reads B rid got (DeliverReset code s)" "reads B rid got (OnWindowUpdate w s)" "reads B rid got (fst (Close s))"
    "reads B rid got (fst (Stream_Reset code s))" "reads B rid got (SetReadDeadline t s)" "reads B rid got (SetWriteDeadline t s)"
    "reads B rid (got @ read_bytes (snd (snd (Read now n s)))) (fst (Read now n s))"
  using assms stream_inv_event [of B "(s, got)" "EvData off d"] stream_inv_event [of B "(s, got)" "EvFin final"]
    stream_inv_event [of B "(s, got)" "EvReset code"] stream_inv_event [of B "(s, got)" "EvWindow w"]
    stream_inv_event [of B "(s, got)" EvClose] stream_inv_event [of B "(s, got)" "EvLocalReset code"]
    stream_inv_event [of B "(s, got)" "EvReadDeadline t"] stream_inv_event [of B "(s, got)" "EvWriteDeadline t"]
    stream_inv_event [of B "(s, got)" "EvRead now n"]
  by (simp_all add: reads_def SetReadDeadline_def SetWriteDeadline_def case_prod_beta)

lemma reads_prefix: "reads B rid got s \<Longrightarrow> prefix got B"
proof -
  assume "reads B rid got s"
  then have "got @ recvBuf s = take (unat (recvOffset s)) B" by (simp add: reads_def stream_inv_def recv_inv_def)
  then have "prefix (got @ recvBuf s) B" by (simp add: take_is_prefix)
  then show ?thesis by (rule append_prefixD)
qed

lemma reads_cong:
  assumes "reads B rid got s" "recvBuf s' = recvBuf s" "recvOOO s' = recvOOO s" "recvOffset s' = recvOffset s"
    and "finSeen s' = finSeen s" "finReceived s' = finReceived s" "finalSize s' = finalSize s" "RemoteID s' = RemoteID s"
    and "state s' = state s \<or> state s' = StreamStateOpen"
  shows "reads B rid got s'"
proof -
  have "recv_inv B got s' = recv_inv B got s" by (rule recv_inv_cong) (rule assms)+
  moreover have "fin_inv B s \<Longrightarrow> fin_inv B s'" using assms(5-7,9) by (auto simp: fin_inv_def assms(4))
  ultimately show ?thesis using assms(1,8) by (simp add: reads_def stream_inv_def)
qed

lemma reads_refresh: "reads B rid got s \<Longrightarrow> reads B rid got (fst (refresh_stream s))"
  by (erule reads_cong) (auto simp: refresh_stream_def Let_def case_prod_beta split: option.split)

lemma reads_write_send: "reads B rid got s \<Longrightarrow> reads B rid got (fst (write_send grant syn n d s))"
  by (erule reads_cong) (auto simp: write_send_def Let_def split: option.split)

section \<open>What keeps it\<close>

lemma conn_reads_cong: "streams c' = streams c \<Longrightarrow> nextStreamID c' = nextStreamID c \<Longrightarrow> conn_reads B rid k got c' = conn_reads B rid k got c"
  by (simp add: conn_reads_def)

lemma conn_reads_core: "core c' = core c \<Longrightarrow> conn_reads B rid k got c' = conn_reads B rid k got c"
  by (rule conn_reads_cong) (simp_all add: core_def)

lemma conn_reads_upd:
  assumes "conn_reads B rid k got c" "\<And>s. j = k \<Longrightarrow> reads B rid got s \<Longrightarrow> reads B rid got (f s)"
  shows "conn_reads B rid k got (upd_stream j f c)"
  using assms by (auto simp: conn_reads_def upd_stream_def)

lemma conn_reads_on_stream:
  assumes "conn_reads B rid k got c" "\<And>s. j = k \<Longrightarrow> reads B rid got s \<Longrightarrow> reads B rid got (fst (f s))"
  shows "conn_reads B rid k got (on_stream now j f c)"
proof (cases "map_of (streams c) j")
  case (Some s)
  have "reads B rid got s" if "j = k" using that assms(1) map_of_SomeD [OF Some] by (auto simp: conn_reads_def)
  then have "conn_reads B rid k got (upd_stream j (\<lambda>_. fst (f s)) c)"
    using assms by (intro conn_reads_upd) auto
  then show ?thesis by (simp add: on_stream_def Some conn_reads_core [OF core_run_calls])
qed (simp add: on_stream_def assms(1))

lemma conn_reads_new:
  assumes "conn_reads B rid k got c" "unat (nextStreamID c) + 2 < 2 ^ 32"
  shows "conn_reads B rid k got (snd (new_stream r st c))" "fst (new_stream r st c) \<noteq> k"
    "unat (nextStreamID (snd (new_stream r st c))) = unat (nextStreamID c) + 2"
proof -
  have n: "unat (nextStreamID c + 2) = unat (nextStreamID c) + 2" using assms(2) by (simp add: unat_word_ariths)
  have k: "nextStreamID c \<noteq> k" using assms(1) by (auto simp: conn_reads_def)
  then have "(k, s) \<in> set (streams c)" if "(k, s) \<in> set (AList.update (nextStreamID c) v (streams c))" for s v
    using that set_alist_update [of "nextStreamID c" v "streams c"] by auto
  then show "conn_reads B rid k got (snd (new_stream r st c))"
    using assms(1) n by (auto simp: conn_reads_def new_stream_def Let_def)
  show "fst (new_stream r st c) \<noteq> k" using k by (simp add: new_stream_def Let_def)
  show "unat (nextStreamID (snd (new_stream r st c))) = unat (nextStreamID c) + 2" using n by (simp add: new_stream_def Let_def)
qed

text \<open>The packets that can be for the stream, and that their STREAM frames carry pieces of \<open>B\<close>.\<close>

definition for_stream :: "uint32 \<Rightarrow> uint32 \<Rightarrow> Packet \<Rightarrow> bool" where
  "for_stream k rid pkt \<longleftrightarrow> DestinationStreamID pkt = k \<or> (rid \<noteq> 0 \<and> SourceStreamID pkt = rid)"

fun piece_of :: "byte list \<Rightarrow> Frame \<Rightarrow> bool" where
  "piece_of B (Frame.Stream f) \<longleftrightarrow> segment B (Offset f) (Data f)
     \<and> (IsFin f \<longrightarrow> unat (Offset f + of_nat (length (Data f))) = length B)"
| "piece_of B _ \<longleftrightarrow> True"

lemma findStream_for:
  assumes "conn_reads B rid k got c" "findStream (DestinationStreamID pkt) (SourceStreamID pkt) c = Some k"
  shows "for_stream k rid pkt"
proof (cases "map_of (streams c) (DestinationStreamID pkt) = None")
  case True
  then obtain s where "(k, s) \<in> set (streams c)" "RemoteID s = SourceStreamID pkt" "SourceStreamID pkt \<noteq> 0"
    using assms(2) by (auto simp: findStream_def find_remote_def find_Some_iff split: if_splits) (metis nth_mem)
  then show ?thesis using assms(1) by (auto simp: conn_reads_def reads_def for_stream_def)
next
  case False
  then show ?thesis using assms(2) by (auto simp: findStream_def for_stream_def)
qed

lemma conn_reads_deliver:
  fixes now :: time
  assumes "conn_reads B rid k got c" "j = k \<Longrightarrow> piece_of B (Frame.Stream f)"
  defines "d \<equiv> (if length (Data f) > 0 then on_stream now j (DeliverData (Offset f) (Data f)) c else c)"
  shows "conn_reads B rid k got (if IsFin f then upd_stream j (DeliverFin (Offset f + of_nat (length (Data f)))) d else d)"
proof -
  have d: "conn_reads B rid k got d"
    unfolding d_def using assms(1,2) by (auto intro!: conn_reads_on_stream reads_event(1))
  then show ?thesis using assms(2) by (auto intro!: conn_reads_upd reads_event(2))
qed

lemma next_upd [simp]: "nextStreamID (upd_stream j f c) = nextStreamID c"
  by (simp add: upd_stream_def)

lemma next_core: "core c' = core c \<Longrightarrow> nextStreamID c' = nextStreamID c"
  by (simp add: core_def)

lemma next_on_stream [simp]: "nextStreamID (on_stream now j f c) = nextStreamID c"
  by (simp add: on_stream_def next_core [OF core_run_calls] split: option.split)

lemma conn_reads_handleStreamFrame:
  assumes "conn_reads B rid k got c" "unat (nextStreamID c) + 2 < 2 ^ 32" "for_stream k rid pkt \<Longrightarrow> piece_of B (Frame.Stream f)"
  shows "conn_reads B rid k got (handleStreamFrame now pkt f c)
    \<and> unat (nextStreamID (handleStreamFrame now pkt f c)) \<le> unat (nextStreamID c) + 2"
proof (cases "findStream (DestinationStreamID pkt) (SourceStreamID pkt) c")
  case (Some j)
  have "j = k \<Longrightarrow> piece_of B (Frame.Stream f)" using findStream_for [OF assms(1)] Some assms(3) by blast
  from conn_reads_deliver [OF assms(1), where j = j and f = f and now = now, OF this] show ?thesis
    unfolding handleStreamFrame_def Some by (cases "Data f = []"; cases "IsFin f") (simp_all add: Let_def)
next
  case None
  let ?s = "new_stream (SourceStreamID pkt) StreamStateOpen c"
  define d where "d = (if length (incomingStreams (snd ?s)) < 16
    then (snd ?s)\<lparr>incomingStreams := incomingStreams (snd ?s) @ [fst ?s]\<rparr> else snd ?s)"
  note n = conn_reads_new [OF assms(1,2), of "SourceStreamID pkt" StreamStateOpen]
  have d: "conn_reads B rid k got d" "nextStreamID d = nextStreamID (snd ?s)"
    using n(1) by (simp_all add: d_def conn_reads_def)
  show ?thesis
    using conn_reads_deliver [OF d(1), where j = "fst ?s" and f = f and now = now] n(2,3) d(2) assms(1)
    by (auto simp: handleStreamFrame_def None case_prod_beta d_def [symmetric] Let_def)
qed

lemma conn_reads_at:
  assumes "conn_reads B rid k got c"
  shows "(\<And>s. reads B rid got s \<Longrightarrow> reads B rid got (f s)) \<Longrightarrow> conn_reads B rid k got (at_stream pkt (\<lambda>j. upd_stream j f) c)"
    "(\<And>s. reads B rid got s \<Longrightarrow> reads B rid got (fst (g s))) \<Longrightarrow> conn_reads B rid k got (at_stream pkt (\<lambda>j. on_stream now j g) c)"
    "nextStreamID (at_stream pkt (\<lambda>j. upd_stream j f) c) = nextStreamID c"
    "nextStreamID (at_stream pkt (\<lambda>j. on_stream now j g) c) = nextStreamID c"
  using assms by (auto simp: at_stream_def intro: conn_reads_upd conn_reads_on_stream split: option.split)

lemma conn_reads_close:
  assumes "conn_reads B rid k got c"
  shows "conn_reads B rid k got (closeInternal now code reason announce c)
    \<and> nextStreamID (closeInternal now code reason announce c) = nextStreamID c"
proof -
  define d where "d = c\<lparr>c_state := ConnStateClosing, idleTimer := None, ackTimer := None, ackPending := 0\<rparr>"
  define e where "e = (if announce
      then sendFrames now [ConnectionClose \<lparr>ErrorCode = code, FrameTypeVal = 0, ReasonPhrase = reason\<rparr>] d else d)"
  have "core e = core d" by (simp add: e_def core_sendFrames)
  then have e: "streams e = streams c" "nextStreamID e = nextStreamID c" by (simp_all add: core_def d_def)
  show ?thesis
    using assms by (auto simp: closeInternal_def Let_def d_def [symmetric] e_def [symmetric] conn_reads_def e intro: reads_event(3))
qed

lemma conn_reads_complete:
  "conn_reads B rid k got c \<Longrightarrow> conn_reads B rid k got (fst (completeMigration d c))
     \<and> nextStreamID (fst (completeMigration d c)) = nextStreamID c"
  by (simp add: completeMigration_def conn_reads_def)

lemma conn_reads_handleFrame:
  assumes "conn_reads B rid k got c" "unat (nextStreamID c) + 2 < 2 ^ 32" "for_stream k rid pkt \<Longrightarrow> piece_of B f"
  shows "conn_reads B rid k got (handleFrame gm now pkt f c)
    \<and> unat (nextStreamID (handleFrame gm now pkt f c)) \<le> unat (nextStreamID c) + 2"
proof -
  note same = conn_reads_core [OF core_handleAckFrame] next_core [OF core_handleAckFrame]
    conn_reads_core [OF core_sendFrames] next_core [OF core_sendFrames]
  have fields: "conn_reads B rid k got (c\<lparr>c_fc := x\<rparr>) = conn_reads B rid k got c"
      "conn_reads B rid k got (c\<lparr>maxStreams := y\<rparr>) = conn_reads B rid k got c" for x y
    by (simp_all add: conn_reads_def)
  note at = conn_reads_at [OF assms(1)]
  show ?thesis
  proof (cases f)
    case (Stream sf)
    then show ?thesis using conn_reads_handleStreamFrame assms by simp
  next
    case (PathResponseFrame d)
    then show ?thesis using conn_reads_complete [OF assms(1), of d]
      by (auto simp: Let_def case_prod_beta conn_reads_def)
  next
    case (WindowUpdateFrame w)
    then show ?thesis using at(1) [OF reads_event(4)] by (simp add: handleWindowUpdate_def at(3))
  next
    case (ResetStreamFrame code)
    then show ?thesis using at(1) [OF reads_event(3)] by (simp add: handleResetStream_def at(3))
  next
    case (StopSendingFrame i code)
    then show ?thesis using at(2) [OF reads_event(6)] by (simp add: at(4))
  next
    case (StreamDataBlockedFrame i l)
    then show ?thesis using at(2) [OF reads_refresh] by (simp add: at(4))
  next
    case (ConnectionClose x)
    then show ?thesis using conn_reads_close [OF assms(1)] by (simp add: Conn_Close_def CloseWithError_def)
  qed (simp_all add: assms(1) same fields)
qed

lemma conn_reads_frames:
  "conn_reads B rid k got c \<Longrightarrow> unat (nextStreamID c) + 2 * length fs < 2 ^ 32
     \<Longrightarrow> \<forall>f \<in> set fs. for_stream k rid pkt \<longrightarrow> piece_of B f
     \<Longrightarrow> conn_reads B rid k got (fold (handleFrame gm now pkt) fs c)"
proof (induction fs arbitrary: c)
  case (Cons f fs)
  have "conn_reads B rid k got (handleFrame gm now pkt f c)
    \<and> unat (nextStreamID (handleFrame gm now pkt f c)) \<le> unat (nextStreamID c) + 2"
    using Cons.prems by (intro conn_reads_handleFrame) auto
  then show ?case using Cons by simp
qed simp

lemma conn_reads_HandlePacket:
  assumes "conn_reads B rid k got c" "unat (nextStreamID c) + 2 * length (Frames pkt) < 2 ^ 32"
    and "for_stream k rid pkt \<Longrightarrow> \<forall>f \<in> set (Frames pkt). piece_of B f"
  shows "conn_reads B rid k got (HandlePacket gm now pkt c)"
proof -
  obtain d where d: "core d = core c"
      "core (HandlePacket gm now pkt c) = core (fold (handleFrame gm now pkt) (Frames pkt) d)"
    using HandlePacket_split by blast
  have "conn_reads B rid k got (fold (handleFrame gm now pkt) (Frames pkt) d)"
    using assms by (intro conn_reads_frames) (auto simp: conn_reads_core [OF d(1)] next_core [OF d(1)])
  then show ?thesis by (simp add: conn_reads_core [OF d(2)])
qed

section \<open>Every run\<close>

text \<open>
  A run of a connection seen by the reader of stream \<open>k\<close>, with what it has read. Packets that can be for
  the stream have frames with \<open>P\<close>; all others, and all calls, are arbitrary. Stream IDs are not used up.
\<close>

inductive reader_step :: "go_math \<Rightarrow> (Frame \<Rightarrow> bool) \<Rightarrow> uint32 \<Rightarrow> uint32 \<Rightarrow> Connection \<times> byte list \<Rightarrow> Connection \<times> byte list \<Rightarrow> bool"
  for gm P rid k where
  reader_packet: "unat (nextStreamID c) + 2 * length (Frames pkt) < 2 ^ 32
    \<Longrightarrow> for_stream k rid pkt \<longrightarrow> (\<forall>f \<in> set (Frames pkt). P f)
    \<Longrightarrow> reader_step gm P rid k (c, got) (HandlePacket gm now pkt c, got)"
| reader_read: "map_of (streams c) k = Some s
    \<Longrightarrow> reader_step gm P rid k (c, got) (on_app now k (AppRead t n) c, got @ read_bytes (snd (snd (Read t n s))))"
| reader_app: "j \<noteq> k \<or> (\<forall>t n. a \<noteq> AppRead t n) \<Longrightarrow> reader_step gm P rid k (c, got) (on_app now j a c, got)"
| reader_open: "unat (nextStreamID c) + 2 < 2 ^ 32 \<Longrightarrow> reader_step gm P rid k (c, got) (fst (OpenStream c), got)"
| reader_close: "reader_step gm P rid k (c, got) (closeInternal now code reason announce c, got)"
| reader_other: "core c' = core c \<Longrightarrow> reader_step gm P rid k (c, got) (c', got)"

definition reader_inv :: "byte list \<Rightarrow> uint32 \<Rightarrow> uint32 \<Rightarrow> Connection \<times> byte list \<Rightarrow> bool" where
  "reader_inv B rid k cg \<longleftrightarrow> conn_reads B rid k (snd cg) (fst cg)"

lemma reads_app:
  assumes "reads B rid got s" "\<forall>t n. a \<noteq> AppRead t n"
  shows "reads B rid got (fst (app_stream m a s))"
  using assms(2) reads_event(5-8) [OF assms(1)] reads_write_send [OF assms(1)] assms(1)
  by (cases a) (simp_all add: Let_def)

lemma conn_reads_read:
  assumes "conn_reads B rid k got c" "map_of (streams c) k = Some s"
  shows "conn_reads B rid k (got @ read_bytes (snd (snd (Read t n s)))) (on_app now k (AppRead t n) c)"
proof -
  have "reads B rid got s" using assms map_of_SomeD by (fastforce simp: conn_reads_def)
  then have r: "reads B rid (got @ read_bytes (snd (snd (Read t n s)))) (fst (Read t n s))" by (rule reads_event(9))
  then have "prefix (got @ read_bytes (snd (snd (Read t n s)))) B"
    by (rule reads_prefix)
  then have "conn_reads B rid k (got @ read_bytes (snd (snd (Read t n s)))) (upd_stream k (\<lambda>_. fst (Read t n s)) c)"
    using assms(1) r by (auto simp: conn_reads_def upd_stream_def)
  then show ?thesis by (simp add: on_app_def on_stream_def assms(2) conn_reads_core [OF core_run_calls])
qed

lemma reader_inv_step: "reader_step gm (piece_of B) rid k cg cg' \<Longrightarrow> reader_inv B rid k cg \<Longrightarrow> reader_inv B rid k cg'"
proof (induction rule: reader_step.induct)
  case (reader_packet c pkt got now)
  then show ?case using conn_reads_HandlePacket by (simp add: reader_inv_def)
next
  case (reader_read c s got now t n)
  then show ?case using conn_reads_read by (simp add: reader_inv_def)
next
  case (reader_app j a c got now)
  then show ?case unfolding reader_inv_def on_app_def by (auto intro!: conn_reads_on_stream reads_app)
next
  case (reader_open c got)
  then show ?case using conn_reads_new [of B rid k got c 0 StreamStateIdle]
    by (auto simp: reader_inv_def OpenStream_def Let_def case_prod_beta)
next
  case (reader_close c got now code reason announce)
  then show ?case using conn_reads_close by (simp add: reader_inv_def)
next
  case (reader_other c' c got)
  then show ?case by (simp add: reader_inv_def conn_reads_core [OF reader_other.hyps])
qed

interpretation reader_run: preserved "reader_step gm (piece_of B) rid k" "reader_inv B rid k" for gm B rid k
  by unfold_locales (rule reader_inv_step)

lemma reader_step_mono:
  assumes "(reader_step gm P rid k)\<^sup>*\<^sup>* cg cg'" "\<And>f. P f \<Longrightarrow> Q f"
  shows "(reader_step gm Q rid k)\<^sup>*\<^sup>* cg cg'"
proof -
  have "reader_step gm P rid k \<le> reader_step gm Q rid k"
  proof (intro predicate2I)
    fix x y assume "reader_step gm P rid k x y"
    then show "reader_step gm Q rid k x y"
      using assms(2) by (cases rule: reader_step.cases) (auto intro: reader_step.intros)
  qed
  then show ?thesis using assms(1) rtranclp_mono by blast
qed

section \<open>The reader's promise\<close>

lemma conn_reads_fresh:
  assumes "nextStreamID c \<notin> set (stream_ids c)" "unat (nextStreamID c) + 2 < 2 ^ 32" "length B < 2 ^ 64"
    and "new_stream rid st c = (k, c0)" "st = StreamStateIdle \<or> st = StreamStateOpen"
  shows "conn_reads B rid k [] c0"
proof -
  define s0 where "s0 = (NewStream k rid (Some (NewStreamFlowController InitialMaxStreamData InitialMaxStreamData)))\<lparr>conn := True, state := st\<rparr>"
  have c0: "k = nextStreamID c" "nextStreamID c0 = nextStreamID c + 2" "streams c0 = AList.update k s0 (streams c)"
    using assms(4) by (auto simp: new_stream_def Let_def s0_def)
  have n: "unat (nextStreamID c + 2) = unat (nextStreamID c) + 2" using assms(2) by (simp add: unat_word_ariths)
  have r: "reads B rid [] s0"
    using stream_inv_New [OF assms(3), of k rid "Some (NewStreamFlowController InitialMaxStreamData InitialMaxStreamData)"] assms(5)
    by (auto simp: s0_def reads_def stream_inv_def recv_inv_def fin_inv_def NewStream_def)
  have "(k, s) \<notin> set (streams c)" for s using assms(1) by (force simp: stream_ids_def c0(1))
  then have "s = s0" if "(k, s) \<in> set (streams c0)" for s
    using that set_alist_update [of k s0 "streams c"] by (auto simp: c0(3))
  then show ?thesis using r n c0(1,2) by (auto simp: conn_reads_def)
qed

lemma conn_reads_all:
  "conn_reads B rid k got c \<Longrightarrow> map_of (streams c) k = Some s \<Longrightarrow> at_eof (s, got) \<Longrightarrow> got = B"
  using map_of_SomeD [of "streams c" k s] stream_ended_all [of B "(s, got)"] by (auto simp: conn_reads_def reads_def)

lemma new_stream_reads:
  assumes "nextStreamID c \<notin> set (stream_ids c)" "unat (nextStreamID c) + 2 < 2 ^ 32" "length B < 2 ^ 64"
    and "new_stream rid st c = (k, c0)" "st = StreamStateIdle \<or> st = StreamStateOpen"
    and "(reader_step gm (piece_of B) rid k)\<^sup>*\<^sup>* (c0, []) (c', got)"
  shows "prefix got B" "map_of (streams c') k = Some s \<Longrightarrow> at_eof (s, got) \<Longrightarrow> got = B"
proof -
  have inv: "conn_reads B rid k got c'"
    using reader_run.run [OF assms(6)] conn_reads_fresh [OF assms(1-5)] by (simp add: reader_inv_def)
  show "prefix got B" using inv by (simp add: conn_reads_def)
  show "map_of (streams c') k = Some s \<Longrightarrow> at_eof (s, got) \<Longrightarrow> got = B" by (rule conn_reads_all [OF inv])
qed

section \<open>Properties\<close>

text \<open>
  C3: a connection keeps its streams apart. Whatever packets it handles, with whatever frames and for
  whatever streams, and whatever is done with its other streams, its timers and its own closing in
  between: as long as the packets that can be for a stream carry pieces of the peer's bytes \<open>B\<close> there,
  what has been read from that stream is a prefix of \<open>B\<close>, and all of \<open>B\<close> once its end is reported.
\<close>

theorem connection_delivers_stream:
  assumes "nextStreamID c \<notin> set (stream_ids c)" "unat (nextStreamID c) + 2 < 2 ^ 32" "length B < 2 ^ 64"
    and "new_stream rid st c = (k, c0)" "st = StreamStateIdle \<or> st = StreamStateOpen"
    and "(reader_step gm (piece_of B) rid k)\<^sup>*\<^sup>* (c0, []) (c', got)"
  shows "prefix got B \<and> (\<forall>s. map_of (streams c') k = Some s \<and> at_eof (s, got) \<longrightarrow> got = B)"
  using new_stream_reads [OF assms] by blast

text \<open>A stream opened on a new connection; a packet for it arrives and is read.\<close>

definition sample_reply :: Packet where
  "sample_reply = \<lparr>Version = VersionCurrent, DestinationCID = sample_cid, SourceCID = sample_cid, Sequence = 0,
     DestinationStreamID = 1, SourceStreamID = 2,
     Frames = [Frame.Stream \<lparr>IsFin = True, IsSyn = False, Offset = 0, Data = [8, 9]\<rparr>],
     Packet_SentTime = 0, Packet_IsAcked = False, wireLen = 32\<rparr>"

definition sample_end :: Connection where
  "sample_end = on_app 3 1 (AppRead 3 9) (HandlePacket sample_math 2 sample_reply (snd (new_stream 0 StreamStateIdle sample_conn)))"

lemma sample_end_ends:
  "map_option (\<lambda>s. snd (snd (Read 4 9 s))) (map_of (streams sample_end) 1) = Some (ReadError EOF)"
  by code_simp

theorem connection_delivers_stream_witness:
  "fst (new_stream 0 StreamStateIdle sample_conn) = 1
   \<and> (reader_step sample_math (piece_of [8, 9]) 0 1)\<^sup>*\<^sup>* (snd (new_stream 0 StreamStateIdle sample_conn), [])
       (sample_end, [8, 9])"
proof -
  let ?n = "new_stream 0 StreamStateIdle sample_conn"
  let ?h = "HandlePacket sample_math 2 sample_reply (snd ?n)"
  have c: "nextStreamID sample_conn = 1" "streams sample_conn = []" by (simp_all add: sample_conn_defs)
  have n: "fst ?n = 1" "nextStreamID (snd ?n) = 3" "1 \<in> set (stream_ids (snd ?n))"
    by (simp_all add: new_stream_def Let_def c stream_ids_def)
  have "1 \<in> set (stream_ids ?h)"
    using keeps_HandlePacket [of "snd ?n" sample_math 2 sample_reply] n(3) by (auto simp: keeps_streams_def)
  then obtain s where s: "map_of (streams ?h) 1 = Some s"
    by (auto simp: stream_ids_def) (metis map_of_eq_None_iff not_None_eq fst_conv image_eqI)
  let ?got = "read_bytes (snd (snd (Read 3 9 s)))"
  have "reader_step sample_math (piece_of [8, 9]) 0 1 (snd ?n, []) (?h, [])"
    by (rule reader_packet) (simp_all add: n(2) sample_reply_def segment_def)
  moreover have "reader_step sample_math (piece_of [8, 9]) 0 1 (?h, []) (sample_end, ?got)"
    using reader_read [OF s, of sample_math "piece_of [8, 9]" 0 "[]" 3 3 9] by (simp add: sample_end_def)
  ultimately have run: "(reader_step sample_math (piece_of [8, 9]) 0 1)\<^sup>*\<^sup>* (snd ?n, []) (sample_end, ?got)" by auto
  have e: "?n = (1, snd ?n)" using n(1) by (metis prod.collapse)
  have d: "prefix ?got [8, 9] \<and> (\<forall>s2. map_of (streams sample_end) 1 = Some s2 \<and> at_eof (s2, ?got) \<longrightarrow> ?got = [8, 9])"
    using connection_delivers_stream [OF _ _ _ e _ run] by (simp add: c stream_ids_def)
  obtain s2 where "map_of (streams sample_end) 1 = Some s2" "at_eof (s2, ?got)"
    using sample_end_ends by (auto simp: at_eof_def)
  then have "?got = [8, 9]" using d by blast
  then show ?thesis using n(1) run by simp
qed

end
