(* ===== verification/Udx_Session.thy ===== *)
theory Udx_Session
  imports Udx_Sending Udx_Delivery Udx_Multiplexer
begin

text \<open>
  Two connections and the network between them. Each handles, in any order and any number of times,
  datagrams that the other has given to its socket, and packets without STREAM frames from anywhere;
  the applications and the timers act at any time. A stream opened by one side then carries the bytes
  written at each end to the other.
\<close>

section \<open>The streams of a connection and their IDs\<close>

text \<open>What identifies a stream, which only \<^verbatim>\<open>Write\<close> changes (the number of bytes written).\<close>

definition ident :: "Stream \<Rightarrow> (uint32 \<times> uint32 \<times> bool) \<times> int" where
  "ident s = ((ID s, RemoteID s, conn s), BytesWritten s)"

definition idents :: "Connection \<Rightarrow> (uint32 \<times> (uint32 \<times> uint32 \<times> bool) \<times> int) list" where
  "idents c = map (\<lambda>(j, s). (j, ident s)) (streams c)"

definition tags :: "Connection \<Rightarrow> (uint32 \<times> uint32 \<times> uint32 \<times> bool) list" where
  "tags c = map (\<lambda>(j, s). (j, fst (ident s))) (streams c)"

text \<open>The remote ID of each stream.\<close>

definition remote :: "Connection \<Rightarrow> uint32 \<rightharpoonup> uint32" where
  "remote c = map_of (map (\<lambda>(j, i, r, b). (j, r)) (tags c))"

text \<open>The bytes written to each stream.\<close>

definition count :: "Connection \<Rightarrow> uint32 \<rightharpoonup> int" where
  "count c = map_of (map (\<lambda>(j, i). (j, snd i)) (idents c))"

definition ids_ok :: "Connection \<Rightarrow> bool" where
  "ids_ok c \<longleftrightarrow> distinct (stream_ids c) \<and> 0 < unat (nextStreamID c)
     \<and> (\<forall>(j, i, r, b) \<in> set (tags c). i = j \<and> b \<and> 0 < unat j \<and> unat j < unat (nextStreamID c))"

lemma tags_idents: "tags c = map (\<lambda>(j, i). (j, fst i)) (idents c)"
  by (simp add: tags_def idents_def comp_def case_prod_beta)

lemma ids_tags: "stream_ids c = map fst (tags c)"
  by (simp add: stream_ids_def tags_def comp_def case_prod_beta)

lemma remote_eq: "remote c j = map_option RemoteID (map_of (streams c) j)"
proof -
  have "map_of (map (\<lambda>(j, i, r, b). (j, r)) (map (\<lambda>(j, s). (j, fst (ident s))) ss)) j = map_option RemoteID (map_of ss j)" for ss
    by (induction ss) (auto simp: ident_def)
  then show ?thesis by (simp add: remote_def tags_def)
qed

lemma count_eq: "count c j = map_option BytesWritten (map_of (streams c) j)"
proof -
  have "map_of (map (\<lambda>(j, i). (j, snd i)) (map (\<lambda>(j, s). (j, ident s)) ss)) j = map_option BytesWritten (map_of ss j)" for ss
    by (induction ss) (auto simp: ident_def)
  then show ?thesis by (simp add: count_def idents_def)
qed

lemma ident_release [simp]: "ident (release s) = ident s"
  by (induction s rule: release.induct) (subst release.simps, simp add: ident_def split: option.split)

lemma ident_events [simp]:
  "ident (finishLocked s) = ident s" "ident (fst (placeLocked off d s)) = ident s"
  "ident (fst (Stream_Reset code s)) = ident s" "ident (DeliverFin final s) = ident s"
  "ident (DeliverReset code s) = ident s" "ident (OnWindowUpdate w s) = ident s" "ident (fst (Close s)) = ident s"
  "ident (SetReadDeadline t s) = ident s" "ident (SetWriteDeadline t s) = ident s" "ident (fst (refresh_stream s)) = ident s"
proof -
  have f: "ident (s\<lparr>recvBuf := b, recvOffset := o1\<rparr>) = ident s" for b o1 by (simp add: ident_def)
  show "ident (fst (placeLocked off d s)) = ident s"
    by (simp add: placeLocked_def Let_def f) (simp add: ident_def)
qed (simp_all add: ident_def finishLocked_def Stream_Reset_def DeliverFin_def DeliverReset_def OnWindowUpdate_def Close_def
    SetReadDeadline_def SetWriteDeadline_def refresh_stream_def Let_def case_prod_beta split: option.split)

lemma ident_read [simp]: "ident (fst (Read now n s)) = ident s"
  by (auto simp: Read_def Let_def case_prod_beta ident_def split: option.split)

lemma ident_deliver [simp]: "ident (fst (DeliverData off d s)) = ident s"
proof -
  have "ident (s\<lparr>streamFC := f\<rparr>) = ident s" for s f by (simp add: ident_def)
  then show ?thesis
    using ident_events(2) [of off d s] by (simp add: DeliverData_def Let_def case_prod_beta)
qed

fun is_write :: "app_call \<Rightarrow> bool" where
  "is_write (WriteSend grant syn n d) \<longleftrightarrow> True"
| "is_write _ \<longleftrightarrow> False"

lemma ident_app: "\<not> is_write a \<Longrightarrow> ident (fst (app_stream m a s)) = ident s"
  by (cases a) simp_all

lemma ident_write: "fst (ident (fst (app_stream m a s))) = fst (ident s)"
proof (cases "is_write a")
  case True
  then show ?thesis by (cases a) (auto simp: write_send_def Let_def ident_def split: option.splits)
qed (simp add: ident_app)

section \<open>How the IDs change\<close>

definition steady :: "Connection \<Rightarrow> Connection \<Rightarrow> bool" where
  "steady c c' \<longleftrightarrow> idents c' = idents c \<and> nextStreamID c' = nextStreamID c"

definition grown :: "uint32 \<Rightarrow> Connection \<Rightarrow> Connection \<Rightarrow> bool" where
  "grown rid c c' \<longleftrightarrow> idents c' = idents c @ [(nextStreamID c, (nextStreamID c, rid, True), 0)]
     \<and> nextStreamID c' = nextStreamID c + 2"

lemma steady_trans: "steady a b \<Longrightarrow> steady b c \<Longrightarrow> steady a c"
  by (simp add: steady_def)

lemma steady_core: "core c' = core c \<Longrightarrow> steady c c'"
  by (simp add: core_eq_iff steady_def idents_def)

lemma steady_upd: "(\<And>s. ident (f s) = ident s) \<Longrightarrow> steady c (upd_stream k f c)"
  by (auto simp: steady_def idents_def upd_stream_def)

lemma steady_on_stream:
  assumes "ids_ok c" "\<And>s. ident (fst (f s)) = ident s"
  shows "steady c (on_stream now k f c)"
proof (cases "map_of (streams c) k")
  case (Some s)
  have "s' = s" if "(k, s') \<in> set (streams c)" for s'
    using that assms(1) map_of_is_SomeI [of "streams c" k s'] Some by (simp add: ids_ok_def stream_ids_def)
  then have "steady c (upd_stream k (\<lambda>_. fst (f s)) c)"
    using assms(2) by (auto simp: steady_def idents_def upd_stream_def)
  then show ?thesis
    using steady_trans [OF _ steady_core [OF core_run_calls]] by (simp add: on_stream_def Some)
qed (simp add: on_stream_def steady_def)

lemma steady_close: "steady c (closeInternal now code reason announce c)"
proof -
  define d where "d = c\<lparr>c_state := ConnStateClosing, idleTimer := None, ackTimer := None, ackPending := 0\<rparr>"
  define e where "e = (if announce
      then sendFrames now [ConnectionClose \<lparr>ErrorCode = code, FrameTypeVal = 0, ReasonPhrase = reason\<rparr>] d else d)"
  have "core e = core d" by (simp add: e_def core_sendFrames)
  then have e: "streams e = streams c" "nextStreamID e = nextStreamID c" by (simp_all add: core_def d_def)
  show ?thesis
    by (auto simp: closeInternal_def Let_def d_def [symmetric] e_def [symmetric] steady_def idents_def e)
qed

lemma steady_ids: "steady c c' \<Longrightarrow> ids_ok c' = ids_ok c \<and> remote c' = remote c \<and> count c' = count c"
  by (simp add: steady_def ids_ok_def ids_tags tags_idents remote_def count_def)

lemma alist_update_fresh: "k \<notin> fst ` set xs \<Longrightarrow> AList.update k v xs = xs @ [(k, v)]"
  by (induction xs) auto

lemma grown_new:
  assumes "nextStreamID c \<notin> set (stream_ids c)"
  shows "grown rid c (snd (new_stream rid st c))"
  using assms by (simp add: grown_def new_stream_def Let_def idents_def stream_ids_def ident_def NewStream_def alist_update_fresh)

lemma ids_ok_fresh: "ids_ok c \<Longrightarrow> nextStreamID c \<notin> set (stream_ids c)"
  by (auto simp: ids_ok_def ids_tags)

lemma map_of_snoc: "map_of xs k = None \<Longrightarrow> map_of (xs @ [(k, v)]) = (map_of xs)(k \<mapsto> v)"
  by (auto simp: map_add_def fun_eq_iff split: option.split)

lemma grown_ids:
  assumes "grown rid c c'" "ids_ok c" "unat (nextStreamID c) + 2 < 2 ^ 32"
  shows "ids_ok c'" "remote c' = (remote c)(nextStreamID c \<mapsto> rid)" "remote c (nextStreamID c) = None"
    "count c' = (count c)(nextStreamID c \<mapsto> 0)"
proof -
  have n: "unat (nextStreamID c + 2) = unat (nextStreamID c) + 2" using assms(3) by (simp add: unat_word_ariths)
  have t: "tags c' = tags c @ [(nextStreamID c, nextStreamID c, rid, True)]"
    using assms(1) by (simp add: grown_def tags_idents)
  have none: "map_of (streams c) (nextStreamID c) = None"
    using ids_ok_fresh [OF assms(2)] by (simp add: map_of_eq_None_iff stream_ids_def)
  then show r: "remote c (nextStreamID c) = None" by (simp add: remote_eq)
  show "ids_ok c'"
    using assms(1,2) n ids_ok_fresh [OF assms(2)] by (fastforce simp: ids_ok_def ids_tags t grown_def)
  show "remote c' = (remote c)(nextStreamID c \<mapsto> rid)"
    using map_of_snoc [OF r [unfolded remote_def]] by (simp add: remote_def t)
  have "count c (nextStreamID c) = None" using none by (simp add: count_eq)
  then show "count c' = (count c)(nextStreamID c \<mapsto> 0)"
    using assms(1) map_of_snoc [of "map (\<lambda>(j, i). (j, snd i)) (idents c)"] by (simp add: count_def grown_def)
qed

lemma steady_deliver:
  fixes now :: time and j :: uint32 and f :: StreamFrame and c :: Connection
  assumes "ids_ok c"
  defines "d \<equiv> (if length (Data f) > 0 then on_stream now j (DeliverData (Offset f) (Data f)) c else c)"
  shows "steady c (if IsFin f then upd_stream j (DeliverFin (Offset f + of_nat (length (Data f)))) d else d)"
proof -
  have "steady c d" using assms by (simp add: d_def steady_on_stream) (simp add: steady_def)
  then show ?thesis using steady_trans [OF _ steady_upd] by simp
qed

text \<open>A STREAM frame for a stream that is not there opens it; nothing else gives out an ID.\<close>

definition opens :: "Packet \<Rightarrow> Connection \<Rightarrow> bool" where
  "opens pkt c \<longleftrightarrow> findStream (DestinationStreamID pkt) (SourceStreamID pkt) c = None \<and> SourceStreamID pkt \<noteq> 0"

lemma handleStreamFrame_ids:
  assumes "ids_ok c" "unat (nextStreamID c) + 2 < 2 ^ 32"
  shows "steady c (handleStreamFrame now pkt f c)
    \<or> opens pkt c \<and> grown (SourceStreamID pkt) c (handleStreamFrame now pkt f c)"
proof (cases "opens pkt c \<and> (IsSyn f \<or> length (Data f) > 0)")
  case True
  let ?s = "new_stream (SourceStreamID pkt) StreamStateOpen c"
  define d where "d = (if length (incomingStreams (snd ?s)) < 16
    then (snd ?s)\<lparr>incomingStreams := incomingStreams (snd ?s) @ [fst ?s]\<rparr> else snd ?s)"
  have g: "grown (SourceStreamID pkt) c d"
    using grown_new [OF ids_ok_fresh [OF assms(1)], of "SourceStreamID pkt" StreamStateOpen]
    by (simp add: d_def grown_def idents_def)
  have "steady d (handleStreamFrame now pkt f c)"
    using True steady_deliver [OF grown_ids(1) [OF g assms], where f = f and now = now and j = "fst ?s"]
    by (auto simp: handleStreamFrame_def opens_def Let_def case_prod_beta d_def)
  then show ?thesis using g True by (simp add: grown_def steady_def)
next
  case False
  have "steady c (handleStreamFrame now pkt f c)"
  proof (cases "findStream (DestinationStreamID pkt) (SourceStreamID pkt) c")
    case None
    then show ?thesis using False by (auto simp: handleStreamFrame_def opens_def Let_def steady_def)
  next
    case (Some j)
    then show ?thesis
      using steady_deliver [OF assms(1), where f = f and now = now and j = j]
      by (cases "Data f = []"; cases "IsFin f") (simp_all add: handleStreamFrame_def Let_def)
  qed
  then show ?thesis ..
qed

lemma steady_at:
  assumes "ids_ok c"
  shows "(\<And>s. ident (f s) = ident s) \<Longrightarrow> steady c (at_stream pkt (\<lambda>j. upd_stream j f) c)"
    "(\<And>s. ident (fst (g s)) = ident s) \<Longrightarrow> steady c (at_stream pkt (\<lambda>j. on_stream now j g) c)"
  using assms by (auto simp: at_stream_def steady_upd steady_on_stream split: option.split) (simp_all add: steady_def)

lemma handleFrame_ids:
  assumes "ids_ok c" "unat (nextStreamID c) + 2 < 2 ^ 32" "\<forall>sf. f \<noteq> Frame.Stream sf"
  shows "steady c (handleFrame gm now pkt f c)"
proof -
  have fields: "steady c (c\<lparr>c_fc := x\<rparr>)" "steady c (c\<lparr>maxStreams := n\<rparr>)" "steady c c" for x n
    by (simp_all add: steady_def idents_def)
  have "steady c (fst (completeMigration d c))" for d by (simp add: completeMigration_def steady_def idents_def)
  then have m: "steady c (fst (completeMigration d c))" "steady c ((fst (completeMigration d c))\<lparr>pathChallengeResp := r\<rparr>)" for d r
    by (simp_all add: steady_def idents_def)
  show ?thesis
    using assms(1,3)
    by (cases f) (auto simp: handleWindowUpdate_def handleResetStream_def Conn_Close_def CloseWithError_def Let_def
        case_prod_beta fields m steady_close steady_at steady_core [OF core_handleAckFrame] steady_core [OF core_sendFrames])
qed

section \<open>The two ends of a stream\<close>

text \<open>
  The stream with the ID \<open>k\<close> at the side that opened it, which never learns the other's ID. At the
  other side it is the stream whose remote ID is \<open>k\<close>.
\<close>

datatype role = Opener | Acceptor

fun opposite :: "role \<Rightarrow> role" where
  "opposite Opener = Acceptor"
| "opposite Acceptor = Opener"

fun far :: "role \<Rightarrow> uint32 \<Rightarrow> uint32" where
  "far Opener k = 0"
| "far Acceptor k = k"

fun mine :: "role \<Rightarrow> uint32 \<Rightarrow> (uint32 \<rightharpoonup> uint32) \<Rightarrow> uint32 \<Rightarrow> bool" where
  "mine Opener k L j \<longleftrightarrow> j = k \<and> L k = Some 0"
| "mine Acceptor k L j \<longleftrightarrow> L j = Some k"

text \<open>
  The STREAM frames a side with the remote IDs \<open>L\<close> says: they are labelled with a stream's two IDs, and
  those of the stream in question carry pieces of \<open>W\<close>. The SYN of \<^verbatim>\<open>Dial\<close> has no stream.
\<close>

definition own :: "role \<Rightarrow> uint32 \<Rightarrow> byte list \<Rightarrow> (uint32 \<rightharpoonup> uint32) \<Rightarrow> uint32 \<Rightarrow> uint32 \<Rightarrow> Frame \<Rightarrow> bool" where
  "own r k W L src dst f \<longleftrightarrow> (\<forall>sf. f = Frame.Stream sf \<longrightarrow>
     (src = 0 \<and> dst = 0) \<or> (L src = Some dst \<and> (mine r k L src \<and> length W < 2 ^ 64 \<longrightarrow> piece_of W f)))"

lemma piece_frames_end:
  "g \<in> set (piece_frames n off data syn fin) \<Longrightarrow> IsFin g \<Longrightarrow> fin \<and> Offset g + of_nat (length (Data g)) = off + of_nat (length data)"
proof (induction n off data syn fin rule: piece_frames.induct)
  case (1 n off data syn fin)
  show ?case
  proof (cases "data = [] \<or> n = 0")
    case True
    then show ?thesis using 1(2) by (auto simp: piece_frames.simps [of n off data])
  next
    case False
    consider "g = \<lparr>IsFin = fin \<and> length data \<le> n, IsSyn = syn, Offset = off, Data = take n data\<rparr>"
      | "g \<in> set (piece_frames n (off + of_nat (min n (length data))) (drop n data) False fin)"
      using 1(2) False by (auto simp: piece_frames.simps [of n off data])
    then show ?thesis
    proof cases
      case 1
      then show ?thesis using \<open>IsFin g\<close> by (simp add: min_def)
    next
      case 2
      have "(of_nat (min n (length data)) :: uint64) + of_nat (length data - n) = of_nat (length data)"
        by (simp add: min_def flip: of_nat_add)
      then show ?thesis using 1(1) [OF False 2 1(3)] by (simp add: add.assoc)
    qed
  qed
qed

lemma piece_of_cut:
  assumes "piece_of W (Frame.Stream h)" "length W < 2 ^ 64" "g \<in> set (piece_frames n (Offset h) (Data h) syn (IsFin h))"
  shows "piece_of W (Frame.Stream g)"
  using assms(1) piece_frames_segment [OF _ assms(2,3)] piece_frames_end [OF assms(3)] by auto

interpretation own: frame_policy "own r k W L" Q for r k W L Q
proof
  show "own r k W L src dst f" if "\<forall>sf. f \<noteq> Frame.Stream sf" for src dst f
    using that by (simp add: own_def)
  show "own r k W L src dst (Frame.Stream g)"
    if "own r k W L src dst (Frame.Stream h)" "g \<in> set (piece_frames n (Offset h) (Data h) syn (IsFin h))" for src dst g h n syn
    using that piece_of_cut [OF _ _ that(2), of W] by (auto simp: own_def)
qed

lemma own_mono: "own r k W L src dst f \<Longrightarrow> L \<subseteq>\<^sub>m M \<Longrightarrow> own r k W M src dst f"
  by (cases r) (auto simp: own_def map_le_def dom_def)

text \<open>A stream with a remote ID was opened by the other side; no two have the same.\<close>

definition linked :: "(uint32 \<rightharpoonup> uint32) \<Rightarrow> (uint32 \<rightharpoonup> uint32) \<Rightarrow> bool" where
  "linked L M \<longleftrightarrow> (\<forall>j rid. L j = Some rid \<and> rid \<noteq> 0 \<longrightarrow> M rid = Some 0)"

definition uniq :: "(uint32 \<rightharpoonup> uint32) \<Rightarrow> bool" where
  "uniq L \<longleftrightarrow> (\<forall>i j rid. L i = Some rid \<and> L j = Some rid \<and> rid \<noteq> 0 \<longrightarrow> i = j)"

lemma linked_mono: "linked L M \<Longrightarrow> M \<subseteq>\<^sub>m M' \<Longrightarrow> linked L M'"
  by (auto simp: linked_def map_le_def dom_def)

text \<open>What can be for this end of the stream comes from the other end of it.\<close>

lemma routed:
  assumes "k \<noteq> 0" "mine r k L j" "j \<noteq> 0" "linked L M" "linked M L" "for_stream j (far r k) pkt" "length W < 2 ^ 64"
    and "own (opposite r) k W M (SourceStreamID pkt) (DestinationStreamID pkt) f"
  shows "piece_of W f"
proof (cases f)
  case (Stream sf)
  have "SourceStreamID pkt \<noteq> 0 \<or> DestinationStreamID pkt \<noteq> 0" using assms(3,6) by (auto simp: for_stream_def)
  then have M: "M (SourceStreamID pkt) = Some (DestinationStreamID pkt)"
    and p: "mine (opposite r) k M (SourceStreamID pkt) \<Longrightarrow> piece_of W f"
    using assms(7,8) by (auto simp: own_def Stream)
  have "mine (opposite r) k M (SourceStreamID pkt)"
  proof (cases r)
    case Opener
    then show ?thesis using assms(2,6) M by (simp add: for_stream_def)
  next
    case Acceptor
    then have L: "L j = Some k" using assms(2) by simp
    then have "DestinationStreamID pkt \<noteq> j" using assms(1,3,5) M by (auto simp: linked_def)
    then have "SourceStreamID pkt = k" using assms(6) by (simp add: for_stream_def Acceptor)
    then show ?thesis using L assms(1,4) by (auto simp: linked_def Acceptor)
  qed
  then show ?thesis by (rule p)
qed simp_all

section \<open>The accounts of the two ends\<close>

text \<open>What the application at one end has put in, whether it has closed the stream, and what it has taken out.\<close>

record ledger =
  put_in :: "byte list"
  closed_in :: bool
  taken_out :: "byte list"

definition blank :: ledger where
  "blank = \<lparr>put_in = [], closed_in = False, taken_out = []\<rparr>"

text \<open>
  The streams of a side with the ledger \<open>g\<close>, whose peer has the remote IDs \<open>M\<close> and will have put in
  \<open>W\<close>: the counter of written bytes agrees with the ledger, and what was received is of \<open>W\<close>.
\<close>

definition account :: "role \<Rightarrow> uint32 \<Rightarrow> byte list \<Rightarrow> ledger \<Rightarrow> Connection \<Rightarrow> bool" where
  "account r k W g c \<longleftrightarrow>
     (\<forall>j. mine r k (remote c) j \<longrightarrow> count c j = Some (int (length (put_in g))) \<and> conn_reads W (far r k) j (taken_out g) c)
     \<and> ((\<forall>j. \<not> mine r k (remote c) j) \<longrightarrow> put_in g = [] \<and> taken_out g = [])"

definition book :: "role \<Rightarrow> uint32 \<Rightarrow> byte list \<Rightarrow> (uint32 \<rightharpoonup> uint32) \<Rightarrow> ledger \<Rightarrow> Connection \<Rightarrow> bool" where
  "book r k W M g c \<longleftrightarrow> ids_ok c \<and> uniq (remote c) \<and> linked (remote c) M \<and> account r k W g c"

lemma book_steady:
  assumes "book r k W M g c" "steady c c'" "\<And>j. mine r k (remote c) j \<Longrightarrow> conn_reads W (far r k) j (taken_out g) c'"
  shows "book r k W M g c'"
  using assms steady_ids [OF assms(2)] by (auto simp: book_def account_def steady_def)

lemma book_core: "core c' = core c \<Longrightarrow> book r k W M g c \<Longrightarrow> book r k W M g c'"
proof -
  assume h: "core c' = core c" "book r k W M g c"
  have "conn_reads W (far r k) j (taken_out g) c'" if "mine r k (remote c) j" for j
    using h(2) that by (simp add: conn_reads_core [OF h(1)] book_def account_def)
  from book_steady [OF h(2) steady_core [OF h(1)] this] show "book r k W M g c'" .
qed

lemma mine_pos: "ids_ok c \<Longrightarrow> mine r k (remote c) j \<Longrightarrow> j \<noteq> 0"
proof -
  assume a: "ids_ok c" "mine r k (remote c) j"
  have "j \<in> set (stream_ids c)"
    using a(2) by (cases r) (auto simp: remote_eq stream_ids_def dest!: map_of_SomeD intro: rev_image_eqI)
  then show "j \<noteq> 0" using a(1) by (auto simp: ids_ok_def ids_tags)
qed

lemma conn_reads_first:
  assumes "opens pkt c" "ids_ok c" "unat (nextStreamID c) + 2 < 2 ^ 32" "length W < 2 ^ 64" "piece_of W (Frame.Stream f)"
    and "IsSyn f \<or> length (Data f) > 0"
  shows "conn_reads W (SourceStreamID pkt) (nextStreamID c) [] (handleStreamFrame now pkt f c)"
proof -
  let ?s = "new_stream (SourceStreamID pkt) StreamStateOpen c"
  define d where "d = (if length (incomingStreams (snd ?s)) < 16
    then (snd ?s)\<lparr>incomingStreams := incomingStreams (snd ?s) @ [fst ?s]\<rparr> else snd ?s)"
  have k: "fst ?s = nextStreamID c" by (simp add: new_stream_def Let_def)
  have "conn_reads W (SourceStreamID pkt) (fst ?s) [] (snd ?s)"
    using conn_reads_fresh [OF ids_ok_fresh [OF assms(2)] assms(3,4), of "SourceStreamID pkt" StreamStateOpen "fst ?s" "snd ?s"] by simp
  then have "conn_reads W (SourceStreamID pkt) (fst ?s) [] d" by (simp add: d_def conn_reads_def)
  from conn_reads_deliver [OF this, where j = "fst ?s" and f = f and now = now] show ?thesis
    using assms(1,5,6) by (auto simp: handleStreamFrame_def opens_def case_prod_beta d_def [symmetric] Let_def k)
qed

lemma handleStreamFrame_quiet:
  "opens pkt c \<Longrightarrow> \<not> IsSyn f \<Longrightarrow> Data f = [] \<Longrightarrow> handleStreamFrame now pkt f c = c"
  by (simp add: handleStreamFrame_def opens_def Let_def)

lemma opens_remote:
  assumes "opens pkt c"
  shows "remote c (DestinationStreamID pkt) = None" "SourceStreamID pkt \<noteq> 0" "remote c j \<noteq> Some (SourceStreamID pkt)"
proof -
  show n: "remote c (DestinationStreamID pkt) = None" "SourceStreamID pkt \<noteq> 0"
    using assms by (auto simp: opens_def findStream_def remote_eq split: if_splits)
  then have "find (\<lambda>(k, s). RemoteID s = SourceStreamID pkt) (streams c) = None"
    using assms by (auto simp: opens_def findStream_def find_remote_def remote_eq split: if_splits)
  then have "RemoteID s \<noteq> SourceStreamID pkt" if "(j, s) \<in> set (streams c)" for s
    using that by (auto simp: find_None_iff)
  then show "remote c j \<noteq> Some (SourceStreamID pkt)" by (auto simp: remote_eq dest: map_of_SomeD)
qed

lemma account_grown:
  assumes "account r k W g c" "grown rid c c'" "ids_ok c" "unat (nextStreamID c) + 2 < 2 ^ 32"
    and "\<And>j. mine r k (remote c) j \<Longrightarrow> conn_reads W (far r k) j (taken_out g) c'"
    and "mine r k (remote c') (nextStreamID c)
      \<Longrightarrow> (\<forall>j. \<not> mine r k (remote c) j) \<and> conn_reads W (far r k) (nextStreamID c) [] c'"
  shows "account r k W g c'"
proof -
  note n = grown_ids [OF assms(2-4)]
  have old: "j \<noteq> nextStreamID c" if "mine r k (remote c) j" for j using that n(3) by (cases r) auto
  have m: "mine r k (remote c') j = mine r k (remote c) j" if "j \<noteq> nextStreamID c" for j
    using that by (cases r) (auto simp: n(2))
  show ?thesis
    unfolding account_def
  proof (intro conjI allI impI)
    fix j assume j: "mine r k (remote c') j"
    have "count c' j = Some (int (length (put_in g))) \<and> conn_reads W (far r k) j (taken_out g) c'"
    proof (cases "j = nextStreamID c")
      case True
      then show ?thesis using j assms(6) assms(1) by (auto simp: account_def n(4))
    next
      case False
      then show ?thesis using j m assms(1,5) by (simp add: account_def n(4))
    qed
    then show "count c' j = Some (int (length (put_in g)))" "conn_reads W (far r k) j (taken_out g) c'" by simp_all
  next
    assume h: "\<forall>j. \<not> mine r k (remote c') j"
    have "\<not> mine r k (remote c) j" for j using h m old by blast
    then show "put_in g = []" "taken_out g = []" using assms(1) by (simp_all add: account_def)
  qed
qed

lemma book_frame:
  assumes "book r k W M g c" "k \<noteq> 0" "linked M (remote c)" "unat (nextStreamID c) + 2 < 2 ^ 32" "length W < 2 ^ 64"
    and "own (opposite r) k W M (SourceStreamID pkt) (DestinationStreamID pkt) f"
  shows "book r k W M g (handleFrame gm now pkt f c)
    \<and> remote c \<subseteq>\<^sub>m remote (handleFrame gm now pkt f c)
    \<and> unat (nextStreamID (handleFrame gm now pkt f c)) \<le> unat (nextStreamID c) + 2"
proof -
  have i: "ids_ok c" and u: "uniq (remote c)" and l: "linked (remote c) M" and a: "account r k W g c"
    using assms(1) by (simp_all add: book_def)
  let ?c = "handleFrame gm now pkt f c"
  have reads: "conn_reads W (far r k) j (taken_out g) ?c \<and> unat (nextStreamID ?c) \<le> unat (nextStreamID c) + 2"
    if "mine r k (remote c) j" for j
    using that a routed [OF assms(2) that mine_pos [OF i that] l assms(3) _ assms(5,6)]
    by (intro conn_reads_handleFrame assms(4)) (auto simp: account_def)
  have s: ?thesis if "steady c ?c"
    using book_steady [OF assms(1) that] reads steady_ids [OF that] that by (simp add: steady_def)
  show ?thesis
  proof (cases "steady c ?c")
    case True
    then show ?thesis by (rule s)
  next
    case False
    then obtain sf where f: "f = Frame.Stream sf" using handleFrame_ids [OF i assms(4)] by blast
    have o: "opens pkt c" and gr: "grown (SourceStreamID pkt) c ?c"
      using handleStreamFrame_ids [OF i assms(4), of now pkt sf] False by (auto simp: f)
    note n = grown_ids [OF gr i assms(4)]
    note nr = opens_remote [OF o]
    have M: "M (SourceStreamID pkt) = Some (DestinationStreamID pkt)" using assms(6) nr(2) by (simp add: own_def f)
    have M0: "M (SourceStreamID pkt) = Some 0" using assms(3) M nr(1) by (cases "DestinationStreamID pkt = 0") (simp_all add: linked_def)
    then have "linked (remote ?c) M" using l by (auto simp: n(2) linked_def)
    moreover have "uniq (remote ?c)" using u nr(3) by (auto simp: n(2) uniq_def)
    moreover have "account r k W g ?c"
    proof (rule account_grown [OF a gr i assms(4)])
      show "conn_reads W (far r k) j (taken_out g) ?c" if "mine r k (remote c) j" for j using reads that by blast
      assume "mine r k (remote ?c) (nextStreamID c)"
      then have h: "r = Acceptor" "SourceStreamID pkt = k" using nr(2) by (cases r; auto simp: n(2))+
      have "piece_of W f" using assms(2,5,6) M0 h by (simp add: own_def f)
      moreover have "IsSyn sf \<or> length (Data sf) > 0"
        using False handleStreamFrame_quiet [OF o, of sf now] by (auto simp: f steady_def)
      ultimately have "conn_reads W k (nextStreamID c) [] ?c"
        using conn_reads_first [OF o i assms(4,5), of sf now] h(2) by (simp add: f)
      then show "(\<forall>j. \<not> mine r k (remote c) j) \<and> conn_reads W (far r k) (nextStreamID c) [] ?c" using nr(3) h by auto
    qed
    moreover have "unat (nextStreamID ?c) = unat (nextStreamID c) + 2"
      using gr assms(4) by (simp add: grown_def unat_word_ariths)
    ultimately show ?thesis using n by (auto simp: book_def map_le_def)
  qed
qed

lemma book_frames:
  assumes "book r k W M g c" "k \<noteq> 0" "linked M (remote c)" "unat (nextStreamID c) + 2 * length fs < 2 ^ 32" "length W < 2 ^ 64"
    and "\<forall>f \<in> set fs. own (opposite r) k W M (SourceStreamID pkt) (DestinationStreamID pkt) f"
  shows "book r k W M g (fold (handleFrame gm now pkt) fs c) \<and> remote c \<subseteq>\<^sub>m remote (fold (handleFrame gm now pkt) fs c)"
  using assms
proof (induction fs arbitrary: c)
  case (Cons f fs)
  let ?d = "handleFrame gm now pkt f c"
  have d: "book r k W M g ?d \<and> remote c \<subseteq>\<^sub>m remote ?d \<and> unat (nextStreamID ?d) \<le> unat (nextStreamID c) + 2"
    using Cons.prems by (intro book_frame) auto
  have "book r k W M g (fold (handleFrame gm now pkt) fs ?d) \<and> remote ?d \<subseteq>\<^sub>m remote (fold (handleFrame gm now pkt) fs ?d)"
    using Cons.prems d linked_mono [OF Cons.prems(3)] by (intro Cons.IH) auto
  then show ?case using d map_le_trans by auto
qed simp

lemma remote_core: "core c' = core c \<Longrightarrow> remote c' = remote c"
  using steady_ids [OF steady_core] by blast

lemma book_HandlePacket:
  assumes "book r k W M g c" "k \<noteq> 0" "linked M (remote c)" "unat (nextStreamID c) + 2 * length (Frames pkt) < 2 ^ 32" "length W < 2 ^ 64"
    and "\<forall>f \<in> set (Frames pkt). own (opposite r) k W M (SourceStreamID pkt) (DestinationStreamID pkt) f"
  shows "book r k W M g (HandlePacket gm now pkt c) \<and> remote c \<subseteq>\<^sub>m remote (HandlePacket gm now pkt c)"
proof -
  obtain d where d: "core d = core c"
      "core (HandlePacket gm now pkt c) = core (fold (handleFrame gm now pkt) (Frames pkt) d)"
    using HandlePacket_split by blast
  have bd: "book r k W M g d" by (rule book_core [OF d(1) assms(1)])
  have ld: "linked M (remote d)" "unat (nextStreamID d) + 2 * length (Frames pkt) < 2 ^ 32"
    using assms(3,4) by (simp_all add: remote_core [OF d(1)] next_core [OF d(1)])
  note b = book_frames [OF bd assms(2) ld assms(5,6), of gm now]
  have "book r k W M g (HandlePacket gm now pkt c)" using book_core [OF d(2)] b by blast
  then show ?thesis using b by (simp add: remote_core [OF d(1)] remote_core [OF d(2)])
qed

section \<open>The application at one end\<close>

text \<open>\<^verbatim>\<open>awaitSendCreditUpTo\<close> grants something and no more than was asked.\<close>

fun write_ok :: "app_call \<Rightarrow> bool" where
  "write_ok (WriteSend (Some n) syn m d) \<longleftrightarrow> 0 < n \<and> n \<le> int (length d)"
| "write_ok _ \<longleftrightarrow> True"

fun note_app :: "Stream \<Rightarrow> app_call \<Rightarrow> ledger \<Rightarrow> ledger" where
  "note_app s (AppRead t n) g = g\<lparr>taken_out := taken_out g @ read_bytes (snd (snd (Read t n s)))\<rparr>"
| "note_app s (WriteSend grant syn n d) g =
     g\<lparr>put_in := put_in g @ concat (map snd (sent_frames (fst (snd (write_send grant syn (chunkSizeLocked n s) d s)))))\<rparr>"
| "note_app s AppClose g = g\<lparr>closed_in := True\<rparr>"
| "note_app s _ g = g"

lemma write_send_calls:
  assumes "0 < chunk" "conn s" "\<forall>n. grant = Some n \<longrightarrow> 0 < n \<and> n \<le> int (length d)" "write_send grant syn chunk d s = (s', cs, out)"
  obtains (none) "cs = []" "BytesWritten s' = BytesWritten s"
    | (some) d' y where "cs = [sendStreamFrames (ID s) (RemoteID s) (word_of_int (BytesWritten s)) d' chunk y]"
        "BytesWritten s' = BytesWritten s + int (length d')"
proof (cases "cs = []")
  case True
  then show thesis using assms none by (auto simp: write_send_def Let_def split: option.splits if_splits)
next
  case False
  then obtain n where n: "grant = Some n" "0 < n" "n \<le> int (length d)"
    using assms(3,4) by (auto simp: write_send_def Let_def split: option.splits)
  define h where "h = (case streamFC s of Some fc \<Rightarrow> if SendWindowAvailable fc < n then SendWindowAvailable fc else n | None \<Rightarrow> n)"
  obtain t where t: "h mod chunk = t" "0 \<le> t" "t < chunk" using assms(1) by simp
  define q where "q = (if h < int (length d) \<and> h > chunk then h - t else h)"
  have h: "0 \<le> h" "h \<le> n" using n by (auto simp: h_def SendWindowAvailable_def Let_def split: option.splits)
  have q: "0 \<le> q" "q \<le> int (length d)"
    using h n t(2,3) by (auto simp: q_def)
  have "\<exists>y. cs = [sendStreamFrames (ID s) (RemoteID s) (word_of_int (BytesWritten s)) (take (nat q) d) chunk y]
      \<and> BytesWritten s' = BytesWritten s + q"
    using assms(2,4) False unfolding n(1) write_send_def option.case h_def [symmetric] Let_def t(1) q_def [symmetric]
    by (auto split: if_splits)
  then obtain y where y: "cs = [sendStreamFrames (ID s) (RemoteID s) (word_of_int (BytesWritten s)) (take (nat q) d) chunk y]"
      "BytesWritten s' = BytesWritten s + q" by blast
  have "q = int (length (take (nat q) d))" using q by simp
  then show thesis using some [OF y(1)] y(2) by simp
qed

lemma on_app_idents:
  assumes "ids_ok c" "map_of (streams c) j = Some s"
  shows "idents (on_app now j a c)
      = map (\<lambda>(i, x). (i, if i = j then ident (fst (app_stream (Current (c_mtu c)) a s)) else x)) (idents c)"
    "nextStreamID (on_app now j a c) = nextStreamID c"
proof -
  show "nextStreamID (on_app now j a c) = nextStreamID c" by (simp add: on_app_def)
  have "idents (run_calls now cs d) = idents d" for cs d
    using steady_core [OF core_run_calls] by (simp add: steady_def)
  then show "idents (on_app now j a c)
      = map (\<lambda>(i, x). (i, if i = j then ident (fst (app_stream (Current (c_mtu c)) a s)) else x)) (idents c)"
    by (simp add: on_app_def on_stream_def assms(2)) (simp add: upd_stream_def idents_def comp_def case_prod_beta)
qed

lemma on_app_ids:
  assumes "ids_ok c"
  shows "ids_ok (on_app now j a c)" "remote (on_app now j a c) = remote c"
proof -
  have "tags (on_app now j a c) = tags c \<and> nextStreamID (on_app now j a c) = nextStreamID c"
  proof (cases "map_of (streams c) j")
    case (Some s)
    have "x = ident s" if x: "(j, x) \<in> set (idents c)" for x
    proof -
      obtain s' where "(j, s') \<in> set (streams c)" "x = ident s'" using x by (auto simp: idents_def)
      then show ?thesis
        using assms map_of_is_SomeI [of "streams c" j s'] Some by (simp add: ids_ok_def stream_ids_def)
    qed
    then have e: "fst (if i = j then ident (fst (app_stream (Current (c_mtu c)) a s)) else x) = fst x"
      if "(i, x) \<in> set (idents c)" for i x
    proof (cases "i = j")
      case True
      then have "x = ident s" using that by (intro \<open>\<And>x. (j, x) \<in> set (idents c) \<Longrightarrow> x = ident s\<close>) simp
      then show ?thesis using ident_write [of "Current (c_mtu c)" a s] True by simp
    qed simp
    have "tags (on_app now j a c) = tags c"
      unfolding tags_idents on_app_idents(1) [OF assms Some] map_map
    proof (rule map_cong [OF refl])
      fix y assume "y \<in> set (idents c)"
      then show "((\<lambda>(j, i). (j, fst i)) \<circ> (\<lambda>(i, x). (i, if i = j then ident (fst (app_stream (Current (c_mtu c)) a s)) else x))) y
          = (\<lambda>(j, i). (j, fst i)) y"
        using e [of "fst y" "snd y"] by (simp add: case_prod_beta)
    qed
    then show ?thesis using on_app_idents(2) [OF assms Some] by simp
  qed (simp add: on_app_def on_stream_def)
  then show "ids_ok (on_app now j a c)" "remote (on_app now j a c) = remote c"
    using assms by (simp_all add: ids_ok_def ids_tags remote_def)
qed

lemma on_app_count:
  "i \<noteq> j \<Longrightarrow> count (on_app now j a c) i = count c i"
  "map_of (streams c) j = Some s \<Longrightarrow> count (on_app now j a c) j = Some (BytesWritten (fst (app_stream (Current (c_mtu c)) a s)))"
proof -
  have m: "map_of (map (\<lambda>(l, s). (l, if l = j then v else s)) ss) i = (if i = j then map_option (\<lambda>_. v) (map_of ss i) else map_of ss i)"
    for i ss and v :: Stream
    by (induction ss) auto
  have s: "streams (on_app now j a c) = (case map_of (streams c) j of None \<Rightarrow> streams c
      | Some s \<Rightarrow> map (\<lambda>(l, x). (l, if l = j then fst (app_stream (Current (c_mtu c)) a s) else x)) (streams c))"
    using core_run_calls by (simp add: on_app_def on_stream_def core_eq_iff upd_stream_def split: option.split)
  show "i \<noteq> j \<Longrightarrow> count (on_app now j a c) i = count c i" by (simp add: count_eq s m split: option.split)
  show "map_of (streams c) j = Some s \<Longrightarrow> count (on_app now j a c) j = Some (BytesWritten (fst (app_stream (Current (c_mtu c)) a s)))"
    by (simp add: count_eq s m)
qed

lemma book_app_other:
  assumes "book r k W M g c" "\<not> mine r k (remote c) j"
  shows "book r k W M g (on_app now j a c)"
proof (cases "map_of (streams c) j")
  case (Some s)
  have i: "ids_ok c" using assms(1) by (simp add: book_def)
  have "account r k W g (on_app now j a c)"
    unfolding account_def on_app_ids(2) [OF i]
  proof (intro conjI allI impI)
    fix i assume m: "mine r k (remote c) i"
    then have ij: "i \<noteq> j" using assms(2) by auto
    show "count (on_app now j a c) i = Some (int (length (put_in g)))"
      using m ij assms(1) on_app_count(1) [OF ij, of now a c] by (simp add: book_def account_def)
    show "conn_reads W (far r k) i (taken_out g) (on_app now j a c)"
      unfolding on_app_def using assms(1) m ij by (intro conn_reads_on_stream) (auto simp: book_def account_def)
  qed (use assms(1) in \<open>auto simp: book_def account_def\<close>)
  then show ?thesis using assms(1) on_app_ids [OF i, of now j a] by (simp add: book_def)
qed (use assms(1) in \<open>simp add: on_app_def on_stream_def\<close>)

lemma app_counts:
  assumes "conn s" "app_ok a" "write_ok a" "BytesWritten s = int (length (put_in g))"
  shows "BytesWritten (fst (app_stream m a s)) = int (length (put_in (note_app s a g)))"
proof (cases "is_write a")
  case True
  then obtain grant syn n d where a: "a = WriteSend grant syn n d" by (cases a) auto
  obtain s' cs out where w: "write_send grant syn (chunkSizeLocked n s) d s = (s', cs, out)" by (cases "write_send grant syn (chunkSizeLocked n s) d s")
  have "0 < chunkSizeLocked n s" using assms(2) by (simp add: a chunk_pos del: SafeDatagramSize_def)
  moreover have "\<forall>n. grant = Some n \<longrightarrow> 0 < n \<and> n \<le> int (length d)" using assms(3) by (auto simp: a)
  ultimately show ?thesis
    by (cases rule: write_send_calls [OF _ assms(1) _ w]) (use assms(4) in \<open>simp_all add: a w sent_frames_def\<close>)
next
  case False
  then have "put_in (note_app s a g) = put_in g" by (cases a) simp_all
  then show ?thesis using ident_app [OF False, of m s] assms(4) by (simp add: ident_def)
qed

lemma book_app_mine:
  assumes "book r k W M g c" "k \<noteq> 0" "mine r k (remote c) j" "map_of (streams c) j = Some s" "app_ok a" "write_ok a"
  shows "book r k W M (note_app s a g) (on_app now j a c)"
proof -
  have i: "ids_ok c" and ac: "account r k W g c" and u: "uniq (remote c)" using assms(1) by (simp_all add: book_def)
  have only: "i = j" if "mine r k (remote c) i" for i
    using that assms(2,3) u by (cases r) (auto simp: uniq_def)
  have "(j, fst (ident s)) \<in> set (tags c)" using map_of_SomeD [OF assms(4)] by (auto simp: tags_def)
  then have s: "conn s" "BytesWritten s = int (length (put_in g))"
    using i ac assms(3,4) by (auto simp: ids_ok_def ident_def account_def count_eq)
  have r: "conn_reads W (far r k) j (taken_out g) c" using ac assms(3) by (simp add: account_def)
  have "conn_reads W (far r k) j (taken_out (note_app s a g)) (on_app now j a c)"
  proof (cases "\<exists>t n. a = AppRead t n")
    case True
    then show ?thesis using conn_reads_read [OF r assms(4)] by auto
  next
    case False
    then have "taken_out (note_app s a g) = taken_out g" by (cases a) auto
    then show ?thesis using False r by (auto simp: on_app_def intro!: conn_reads_on_stream reads_app)
  qed
  moreover have "count (on_app now j a c) j = Some (int (length (put_in (note_app s a g))))"
    using app_counts [OF s(1) assms(5,6) s(2)] on_app_count(2) [OF assms(4)] by simp
  ultimately have "account r k W (note_app s a g) (on_app now j a c)"
    unfolding account_def on_app_ids(2) [OF i] using only assms(3) by blast
  then show ?thesis using assms(1) on_app_ids [OF i, of now j a] by (simp add: book_def)
qed

text \<open>What will have been put in, as far as the ledger tells: more only while the stream is not closed.\<close>

definition future :: "ledger \<Rightarrow> byte list \<Rightarrow> bool" where
  "future g W \<longleftrightarrow> prefix (put_in g) W \<and> (closed_in g \<longrightarrow> W = put_in g)"

lemma unat_written: "n < 2 ^ 64 \<Longrightarrow> unat (word_of_nat n :: uint64) = n"
  by (simp add: unsigned_of_nat take_bit_nat_eq_self)

lemma segment_written:
  assumes "prefix (B @ d) W" "length W < 2 ^ 64"
  shows "segment W (word_of_int (int (length B))) d"
  using assms by (auto simp: segment_def unat_written prefix_def)

lemma own_written:
  assumes "L j = Some rid" "mine r k L j \<Longrightarrow> prefix (B @ d) W" "mine r k L j \<Longrightarrow> n = int (length B)"
    and "f \<in> set (piece_frames m (word_of_int n) d syn False)"
  shows "own r k W L j rid (Frame.Stream f)"
proof -
  have "segment W (Offset f) (Data f)" if "mine r k L j" "length W < 2 ^ 64"
    using piece_frames_segment [OF segment_written [OF assms(2) [OF that(1)] that(2)] that(2)] assms(3) [OF that(1)] assms(4) by blast
  then show ?thesis using assms(1) piece_frames_no_fin [OF assms(4)] by (auto simp: own_def)
qed

lemma sends_app:
  assumes "sends (own r k W (remote c)) Q c" "ids_ok c" "map_of (streams c) j = Some s" "app_ok a" "write_ok a"
    and "mine r k (remote c) j \<Longrightarrow> BytesWritten s = int (length (put_in g)) \<and> future (note_app s a g) W"
  shows "sends (own r k W (remote c)) Q (on_app now j a c)"
proof -
  let ?P = "own r k W (remote c)"
  have "(j, fst (ident s)) \<in> set (tags c)" using map_of_SomeD [OF assms(3)] by (auto simp: tags_def)
  then have s: "ID s = j" "conn s" using assms(2) by (auto simp: ids_ok_def ident_def)
  have L: "remote c j = Some (RemoteID s)" by (simp add: remote_eq assms(3))
  have "list_all (call_says ?P) (snd (app_stream m a s))" for m
  proof (cases a)
    case AppClose
    have "?P j (RemoteID s) (Frame.Stream \<lparr>IsFin = True, IsSyn = False, Offset = word_of_int (BytesWritten s), Data = []\<rparr>)"
      using assms(6) L by (auto simp: own_def AppClose future_def segment_def unat_written)
    then show ?thesis by (simp add: AppClose Close_def Let_def s(1))
  next
    case (WriteSend grant syn n d)
    obtain s' cs out where w: "write_send grant syn (chunkSizeLocked n s) d s = (s', cs, out)"
      by (cases "write_send grant syn (chunkSizeLocked n s) d s")
    have c: "0 < chunkSizeLocked n s" using assms(4) by (simp add: WriteSend chunk_pos del: SafeDatagramSize_def)
    have g: "\<forall>n. grant = Some n \<longrightarrow> 0 < n \<and> n \<le> int (length d)" using assms(5) by (auto simp: WriteSend)
    show ?thesis
    proof (cases rule: write_send_calls [OF c s(2) g w])
      case (2 d' y)
      have "prefix (put_in g @ d') W" "BytesWritten s = int (length (put_in g))" if "mine r k (remote c) j"
        using assms(6) [OF that] 2(1) by (simp_all add: future_def WriteSend w sent_frames_def)
      then have "own r k W (remote c) j (RemoteID s) (Frame.Stream f)"
        if "f \<in> set (piece_frames (nat (chunkSizeLocked n s)) (word_of_int (BytesWritten s)) d' y False)" for f
        using own_written [where L = "remote c" and j = j, OF L _ _ that] by blast
      then show ?thesis using c by (simp add: WriteSend w 2(1) s(1))
    qed (simp_all add: WriteSend w)
  qed simp_all
  then show ?thesis unfolding on_app_def by (intro own.sends_on_stream assms(1)) (auto simp: assms(3))
qed

section \<open>The two sides and the network\<close>

text \<open>
  A step of one side, given what the other has sent. The network delivers any of it at any time; a
  packet without STREAM frames can come from anywhere. The application does not write to the stream
  after closing it, and stream IDs are not used up.
\<close>

inductive side_step :: "go_math \<Rightarrow> role \<Rightarrow> uint32 \<Rightarrow> (byte list \<times> addr option) list
    \<Rightarrow> Connection \<times> ledger \<Rightarrow> Connection \<times> ledger \<Rightarrow> bool" for gm r k wire where
  side_receive: "(d, a) \<in> set wire \<Longrightarrow> length d < 2 ^ 16 \<Longrightarrow> UnmarshalPacket d = Inr pkt
    \<Longrightarrow> side_step gm r k wire (c, g) (enqueue pkt c, g)"
| side_forged: "wf_packet pkt \<Longrightarrow> \<forall>sf. Frame.Stream sf \<notin> set (Frames pkt) \<Longrightarrow> side_step gm r k wire (c, g) (enqueue pkt c, g)"
| side_inbound: "unat (nextStreamID c) + 2 * length (concat (map Frames (take 1 (inbound c)))) < 2 ^ 32
    \<Longrightarrow> side_step gm r k wire (c, g) (inbound_step gm now c, g)"
| side_open: "unat (nextStreamID c) + 2 < 2 ^ 32 \<Longrightarrow> side_step gm r k wire (c, g) (fst (OpenStream c), g)"
| side_other_stream: "app_ok a \<Longrightarrow> write_ok a \<Longrightarrow> \<not> mine r k (remote c) j
    \<Longrightarrow> side_step gm r k wire (c, g) (on_app now j a c, g)"
| side_stream: "app_ok a \<Longrightarrow> write_ok a \<Longrightarrow> mine r k (remote c) j \<Longrightarrow> map_of (streams c) j = Some s
    \<Longrightarrow> is_write a \<longrightarrow> \<not> closed_in g \<Longrightarrow> side_step gm r k wire (c, g) (on_app now j a c, note_app s a g)"
| side_local: "local_step gm c c' \<Longrightarrow> side_step gm r k wire (c, g) (c', g)"

text \<open>The invariant of a side: \<open>W\<close> is what it will have put in, \<open>V\<close> what its peer with the remote IDs \<open>M\<close> will.\<close>

definition heard :: "role \<Rightarrow> uint32 \<Rightarrow> byte list \<Rightarrow> (uint32 \<rightharpoonup> uint32) \<Rightarrow> Packet \<Rightarrow> bool" where
  "heard r k V M pkt \<longleftrightarrow> (\<forall>f \<in> set (Frames pkt). own (opposite r) k V M (SourceStreamID pkt) (DestinationStreamID pkt) f)"

definition side_inv :: "role \<Rightarrow> uint32 \<Rightarrow> byte list \<Rightarrow> byte list \<Rightarrow> (uint32 \<rightharpoonup> uint32) \<Rightarrow> Connection \<times> ledger \<Rightarrow> bool" where
  "side_inv r k W V M x \<longleftrightarrow> (case x of (c, g) \<Rightarrow> sends (own r k W (remote c)) (heard r k V M) c \<and> book r k V M g c)"

lemma heard_mono: "heard r k V M pkt \<Longrightarrow> M \<subseteq>\<^sub>m M' \<Longrightarrow> heard r k V M' pkt"
  using own_mono by (fastforce simp: heard_def)

lemma side_inv_mono: "side_inv r k W V M x \<Longrightarrow> M \<subseteq>\<^sub>m M' \<Longrightarrow> side_inv r k W V M' x"
  using heard_mono [of r k V M _ M'] linked_mono [of _ M M']
  by (auto simp: side_inv_def book_def elim!: sends_mono)

lemma note_future: "future (note_app s a g) W \<Longrightarrow> is_write a \<longrightarrow> \<not> closed_in g \<Longrightarrow> future g W"
  by (cases a) (auto simp: future_def dest: append_prefixD)

lemma side_future: "side_step gm r k wire x x' \<Longrightarrow> future (snd x') W \<Longrightarrow> future (snd x) W"
  by (induction rule: side_step.induct) (auto dest: note_future)

lemma sends_grown: "sends (own r k W L) Q c \<Longrightarrow> L \<subseteq>\<^sub>m M \<Longrightarrow> sends (own r k W M) Q c"
  by (erule sends_mono) (auto intro: own_mono)

lemma book_open:
  assumes "book r k V M g c" "k \<noteq> 0" "unat (nextStreamID c) + 2 < 2 ^ 32" "length V < 2 ^ 64"
  shows "book r k V M g (fst (OpenStream c)) \<and> remote c \<subseteq>\<^sub>m remote (fst (OpenStream c))"
proof (cases "fst (OpenStream c) = c")
  case False
  let ?s = "new_stream 0 StreamStateIdle c"
  have e: "fst (OpenStream c) = snd ?s" using False by (auto simp: OpenStream_def Let_def case_prod_beta split: if_splits)
  have i: "ids_ok c" and u: "uniq (remote c)" and l: "linked (remote c) M" and a: "account r k V g c"
    using assms(1) by (simp_all add: book_def)
  note gr = grown_new [OF ids_ok_fresh [OF i], of 0 StreamStateIdle]
  note n = grown_ids [OF gr i assms(3)]
  have "account r k V g (snd ?s)"
  proof (rule account_grown [OF a gr i assms(3)])
    show "conn_reads V (far r k) j (taken_out g) (snd ?s)" if "mine r k (remote c) j" for j
      using conn_reads_new(1) [OF _ assms(3)] a that by (simp add: account_def)
    assume "mine r k (remote (snd ?s)) (nextStreamID c)"
    then have h: "r = Opener" "nextStreamID c = k" using assms(2) by (cases r; auto simp: n(2))+
    have "conn_reads V 0 (nextStreamID c) [] (snd ?s)"
      using conn_reads_fresh [OF ids_ok_fresh [OF i] assms(3,4), of 0 StreamStateIdle "fst ?s" "snd ?s"]
      by (simp add: new_stream_def Let_def)
    then show "(\<forall>j. \<not> mine r k (remote c) j) \<and> conn_reads V (far r k) (nextStreamID c) [] (snd ?s)"
      using h n(3) by simp
  qed
  moreover have "uniq (remote (snd ?s))" "linked (remote (snd ?s)) M" using u l by (auto simp: n(2) uniq_def linked_def)
  ultimately show ?thesis using n by (auto simp: e book_def map_le_def)
qed (use assms(1) in simp)

lemma book_same:
  assumes "book r k V M g c" "streams c' = streams c" "nextStreamID c' = nextStreamID c"
  shows "book r k V M g c' \<and> remote c' = remote c"
proof -
  have s: "steady c c'" using assms(2,3) by (simp add: steady_def idents_def)
  have "conn_reads V (far r k) j (taken_out g) c'" if "mine r k (remote c) j" for j
    using assms(1) that by (simp add: conn_reads_cong [OF assms(2,3)] book_def account_def)
  from book_steady [OF assms(1) s this] show ?thesis using steady_ids [OF s] by simp
qed

lemma book_close:
  assumes "book r k V M g c"
  shows "book r k V M g (closeInternal now code reason announce c) \<and> remote (closeInternal now code reason announce c) = remote c"
  using book_steady [OF assms steady_close] steady_ids [OF steady_close] conn_reads_close assms by (auto simp: book_def account_def)

lemma book_quiet: "core c' = core c \<Longrightarrow> book r k V M g c \<Longrightarrow> book r k V M g c' \<and> remote c' = remote c"
  using book_core [of c' c] remote_core [of c' c] by blast

lemma book_local:
  assumes "local_step gm c c'" "book r k V M g c"
  shows "book r k V M g c' \<and> remote c' = remote c"
  using assms
proof (induction rule: local_step.induct)
  case (local_close c now code reason)
  then show ?case unfolding CloseWithError_def by (rule book_close)
next
  case (local_idle_timer c now)
  have "book r k V M g (armIdleCheck now c) \<and> remote (armIdleCheck now c) = remote c"
    using local_idle_timer by (rule book_same) (simp_all add: armIdleCheck_def)
  then show ?case using book_close [OF local_idle_timer] by (simp add: onIdleCheck_def)
next
  case (local_observe rnd c now ra)
  show ?case
    using local_observe(2)
    by (rule book_same) (simp_all add: observeAddr_def sendControlTo_def put_wire_def encode_def Let_def case_prod_beta split: option.split sum.split)
next
  case (local_migrate rnd c now)
  have "core (sendFrames now fs (c\<lparr>pathChallenge := d\<rparr>)) = core c" for fs d
    using core_sendFrames [of now fs "c\<lparr>pathChallenge := d\<rparr>"] by (simp only: core_def) simp
  then have "core (fst (startMigration now rnd c)) = core c" by (simp add: startMigration_def split: option.split)
  then show ?case using local_migrate(2) by (rule book_quiet)
next
  case (local_migrated c w challenge a)
  then show ?case by (rule book_same) (simp_all add: finishMigration_def Let_def split: wake.split option.split)
next
  case (local_accept c w)
  then show ?case by (rule book_same) (simp_all add: AcceptStream_def split: wake.split list.split)
next
  case (local_ping c now)
  show ?case unfolding Ping_def by (rule book_quiet [OF core_sendFrames local_ping])
qed (rule book_quiet, rule core_timers core_detect core_flushLost, assumption)+

text \<open>What a side has sent, the other hears.\<close>

lemma sent_heard:
  assumes "sends (own r k W L) Q c" "(d, a) \<in> set (outbox c)" "length d < 2 ^ 16" "UnmarshalPacket d = Inr pkt"
  shows "wf_packet pkt \<and> heard (opposite r) k W L pkt"
proof -
  have "says (own r k W L) d" using assms(1,2) by (auto simp: sends_def said_def)
  then have "heard (opposite r) k W L pkt" using assms(3,4) by (cases r) (auto simp: says_def heard_def)
  then show ?thesis using UnmarshalPacket_sound [OF assms(4)] by blast
qed

lemma side_inv_step:
  assumes "side_step gm r k wire x x'" "side_inv r k W V M x" "k \<noteq> 0" "linked M (remote (fst x))" "length V < 2 ^ 64"
    and "future (snd x') W"
    and "\<And>d a pkt. (d, a) \<in> set wire \<Longrightarrow> length d < 2 ^ 16 \<Longrightarrow> UnmarshalPacket d = Inr pkt \<Longrightarrow> wf_packet pkt \<and> heard r k V M pkt"
  shows "side_inv r k W V M x' \<and> remote (fst x) \<subseteq>\<^sub>m remote (fst x')"
  using assms
proof (induction rule: side_step.induct)
  case (side_receive d a pkt c g)
  have "wf_packet pkt \<and> heard r k V M pkt" by (rule side_receive(9) [OF side_receive(1-3)])
  then have "sends (own r k W (remote c)) (heard r k V M) (enqueue pkt c)"
    using side_receive(4) own.sends_enqueue by (simp add: side_inv_def)
  then show ?case
    using side_receive(4) book_same [of r k V M g c "enqueue pkt c"] by (auto simp: side_inv_def enqueue_def)
next
  case (side_forged pkt c g)
  have "heard r k V M pkt" using side_forged(2) by (auto simp: heard_def own_def)
  then have "sends (own r k W (remote c)) (heard r k V M) (enqueue pkt c)"
    using side_forged(1,3) own.sends_enqueue by (simp add: side_inv_def)
  then show ?case
    using side_forged(3) book_same [of r k V M g c "enqueue pkt c"] by (auto simp: side_inv_def enqueue_def)
next
  case (side_inbound c g now)
  have s: "sends (own r k W (remote c)) (heard r k V M) c" and b: "book r k V M g c"
    using side_inbound(2) by (simp_all add: side_inv_def)
  show ?case
  proof (cases "inbound c")
    case Nil
    then show ?thesis using side_inbound(2) by (simp add: inbound_step_def)
  next
    case (Cons pkt rest)
    let ?d = "c\<lparr>inbound := rest\<rparr>"
    have h: "heard r k V M pkt" using s by (simp add: sends_def said_def Cons)
    have d: "book r k V M g ?d \<and> remote ?d = remote c" by (rule book_same [OF b]) simp_all
    have "book r k V M g (HandlePacket gm now pkt ?d) \<and> remote ?d \<subseteq>\<^sub>m remote (HandlePacket gm now pkt ?d)"
      using d h side_inbound(1,3,4,5) by (intro book_HandlePacket) (auto simp: Cons heard_def)
    then have e: "book r k V M g (inbound_step gm now c)" "remote c \<subseteq>\<^sub>m remote (inbound_step gm now c)"
      using d by (simp_all add: inbound_step_def Cons)
    then show ?thesis using sends_grown [OF own.sends_inbound [OF s]] by (simp add: side_inv_def)
  qed
next
  case (side_open c g)
  have s: "sends (own r k W (remote c)) (heard r k V M) c" and b: "book r k V M g c"
    using side_open(2) by (simp_all add: side_inv_def)
  show ?case
    using book_open [OF b side_open(3,1,5)] sends_grown [OF own.sends_open [OF s]] by (simp add: side_inv_def)
next
  case (side_other_stream a c j g now)
  have s: "sends (own r k W (remote c)) (heard r k V M) c" and b: "book r k V M g c" and i: "ids_ok c"
    using side_other_stream(4) by (simp_all add: side_inv_def book_def)
  have "sends (own r k W (remote c)) (heard r k V M) (on_app now j a c)"
  proof (cases "map_of (streams c) j")
    case None
    then show ?thesis using s by (simp add: on_app_def on_stream_def)
  next
    case (Some t)
    then show ?thesis using sends_app [OF s i Some side_other_stream(1,2)] side_other_stream(3) by blast
  qed
  then show ?case using book_app_other [OF b side_other_stream(3)] on_app_ids(2) [OF i] by (simp add: side_inv_def)
next
  case (side_stream a c j t g now)
  have s: "sends (own r k W (remote c)) (heard r k V M) c" and b: "book r k V M g c" and i: "ids_ok c"
    using side_stream(6) by (simp_all add: side_inv_def book_def)
  have "BytesWritten t = int (length (put_in g))"
    using b side_stream(3,4) by (auto simp: book_def account_def count_eq)
  then have "sends (own r k W (remote c)) (heard r k V M) (on_app now j a c)"
    using sends_app [OF s i side_stream(4,1,2), of g] side_stream(10) by simp
  then show ?case
    using book_app_mine [OF b side_stream(7,3,4,1,2)] on_app_ids(2) [OF i] by (simp add: side_inv_def)
next
  case (side_local c c' g)
  have s: "sends (own r k W (remote c)) (heard r k V M) c" and b: "book r k V M g c"
    using side_local(2) by (simp_all add: side_inv_def)
  show ?case
    using book_local [OF side_local(1) b] own.sends_local [OF side_local(1) s] by (simp add: side_inv_def)
qed

inductive session_step :: "go_math \<Rightarrow> uint32 \<Rightarrow> (Connection \<times> ledger) \<times> (Connection \<times> ledger)
    \<Rightarrow> (Connection \<times> ledger) \<times> (Connection \<times> ledger) \<Rightarrow> bool" for gm k where
  session_opener: "side_step gm Opener k (outbox (fst y)) x x' \<Longrightarrow> session_step gm k (x, y) (x', y)"
| session_acceptor: "side_step gm Acceptor k (outbox (fst x)) y y' \<Longrightarrow> session_step gm k (x, y) (x, y')"

definition session_inv :: "uint32 \<Rightarrow> (Connection \<times> ledger) \<times> (Connection \<times> ledger) \<Rightarrow> bool" where
  "session_inv k s \<longleftrightarrow> (case s of (x, y) \<Rightarrow> \<forall>W V. future (snd x) W \<and> future (snd y) V \<and> length W < 2 ^ 64 \<and> length V < 2 ^ 64
     \<longrightarrow> side_inv Opener k W V (remote (fst y)) x \<and> side_inv Acceptor k V W (remote (fst x)) y)"

lemma side_linked: "side_inv r k W V M x \<Longrightarrow> linked (remote (fst x)) M"
  by (auto simp: side_inv_def book_def)

lemma session_inv_step:
  assumes "session_step gm k s s'" "k \<noteq> 0" "session_inv k s"
  shows "session_inv k s'"
  using assms
proof (induction rule: session_step.induct)
  case (session_opener y x x')
  have "side_inv Opener k W V (remote (fst y)) x' \<and> side_inv Acceptor k V W (remote (fst x')) y"
    if f: "future (snd x') W" "future (snd y) V" "length W < 2 ^ 64" "length V < 2 ^ 64" for W V
  proof -
    have i: "side_inv Opener k W V (remote (fst y)) x" "side_inv Acceptor k V W (remote (fst x)) y"
      using session_opener(3) side_future [OF session_opener(1) f(1)] f(2-4) by (auto simp: session_inv_def)
    obtain c g where y: "y = (c, g)" by (cases y)
    have "sends (own Acceptor k V (remote c)) (heard Acceptor k W (remote (fst x))) c" using i(2) by (simp add: side_inv_def y)
    from sent_heard [OF this]
    have "side_inv Opener k W V (remote (fst y)) x' \<and> remote (fst x) \<subseteq>\<^sub>m remote (fst x')"
      by (intro side_inv_step [OF session_opener(1) i(1) assms(2) side_linked [OF i(2)] f(4,1)]) (simp add: y)
    then show ?thesis using side_inv_mono [OF i(2)] by blast
  qed
  then show ?case by (auto simp: session_inv_def)
next
  case (session_acceptor x y y')
  have "side_inv Opener k W V (remote (fst y')) x \<and> side_inv Acceptor k V W (remote (fst x)) y'"
    if f: "future (snd x) W" "future (snd y') V" "length W < 2 ^ 64" "length V < 2 ^ 64" for W V
  proof -
    have i: "side_inv Opener k W V (remote (fst y)) x" "side_inv Acceptor k V W (remote (fst x)) y"
      using session_acceptor(3) side_future [OF session_acceptor(1) f(2)] f(1,3,4) by (auto simp: session_inv_def)
    obtain c g where x: "x = (c, g)" by (cases x)
    have "sends (own Opener k W (remote c)) (heard Opener k V (remote (fst y))) c" using i(1) by (simp add: side_inv_def x)
    from sent_heard [OF this]
    have "side_inv Acceptor k V W (remote (fst x)) y' \<and> remote (fst y) \<subseteq>\<^sub>m remote (fst y')"
      by (intro side_inv_step [OF session_acceptor(1) i(2) assms(2) side_linked [OF i(1)] f(3,2)]) (simp add: x)
    then show ?thesis using side_inv_mono [OF i(1)] by blast
  qed
  then show ?case by (auto simp: session_inv_def)
qed

interpretation session_run: preserved "session_step gm k" "\<lambda>s. k \<noteq> 0 \<longrightarrow> session_inv k s" for gm k
  by unfold_locales (blast intro: session_inv_step)

lemma side_inv_start:
  assumes "streams c = []" "0 < unat (nextStreamID c)" "sends (own r k W Map.empty) (heard r k V M) c"
  shows "side_inv r k W V M (c, blank)"
proof -
  have e: "remote c = Map.empty" "ids_ok c" using assms(1,2) by (simp_all add: remote_def tags_def ids_ok_def stream_ids_def)
  have "\<not> mine r k Map.empty j" for j by (cases r) simp_all
  then have "book r k V M blank c" by (simp add: book_def e uniq_def linked_def account_def blank_def)
  then show ?thesis using assms(3) by (simp add: side_inv_def e(1))
qed

section \<open>What a session promises\<close>

lemma side_reads:
  assumes "side_inv r k W V M (c, g)"
  shows "prefix (taken_out g) V"
    "mine r k (remote c) j \<Longrightarrow> map_of (streams c) j = Some s \<Longrightarrow> at_eof (s, taken_out g) \<Longrightarrow> taken_out g = V"
proof -
  have a: "account r k V g c" using assms by (simp add: side_inv_def book_def)
  show "prefix (taken_out g) V"
  proof (cases "\<exists>j. mine r k (remote c) j")
    case True
    then show ?thesis using a by (auto simp: account_def conn_reads_def)
  qed (use a in \<open>simp add: account_def\<close>)
  show "taken_out g = V" if "mine r k (remote c) j" "map_of (streams c) j = Some s" "at_eof (s, taken_out g)"
    using conn_reads_all [OF _ that(2,3)] a that(1) by (auto simp: account_def)
qed

lemma session_reads:
  assumes "session_inv k ((cA, gA), (cB, gB))" "length (put_in gA) + 1 < 2 ^ 64" "length (put_in gB) + 1 < 2 ^ 64"
  shows "prefix (taken_out gB) (put_in gA)" "prefix (taken_out gA) (put_in gB)"
    "remote cB j = Some k \<Longrightarrow> map_of (streams cB) j = Some s \<Longrightarrow> at_eof (s, taken_out gB) \<Longrightarrow> taken_out gB = put_in gA \<and> closed_in gA"
    "remote cA k = Some 0 \<Longrightarrow> map_of (streams cA) k = Some s \<Longrightarrow> at_eof (s, taken_out gA) \<Longrightarrow> taken_out gA = put_in gB \<and> closed_in gB"
proof -
  have f: "future g (put_in g)" "\<not> closed_in g \<Longrightarrow> future g (put_in g @ [0])" for g by (simp_all add: future_def)
  have i: "side_inv Opener k W V (remote cB) (cA, gA) \<and> side_inv Acceptor k V W (remote cA) (cB, gB)"
    if "future gA W" "future gB V" "length W < 2 ^ 64" "length V < 2 ^ 64" for W V
    using assms(1) that by (simp add: session_inv_def)
  have l: "length (put_in gA) < 2 ^ 64" "length (put_in gB) < 2 ^ 64" using assms(2,3) by simp_all
  note n = i [OF f(1) f(1) l]
  show "prefix (taken_out gB) (put_in gA)" "prefix (taken_out gA) (put_in gB)" using n side_reads(1) by blast+
  show "taken_out gB = put_in gA \<and> closed_in gA"
    if h: "remote cB j = Some k" "map_of (streams cB) j = Some s" "at_eof (s, taken_out gB)"
  proof -
    have all: "taken_out gB = W" if "future gA W" "length W < 2 ^ 64" for W
      using side_reads(2) [OF conjunct2 [OF i [OF that(1) f(1) that(2) l(2)]] _ h(2,3)] h(1) by simp
    show ?thesis using all [OF f(1) l(1)] all [OF f(2)] assms(2) by (cases "closed_in gA") auto
  qed
  show "taken_out gA = put_in gB \<and> closed_in gB"
    if h: "remote cA k = Some 0" "map_of (streams cA) k = Some s" "at_eof (s, taken_out gA)"
  proof -
    have all: "taken_out gA = V" if "future gB V" "length V < 2 ^ 64" for V
      using side_reads(2) [OF conjunct1 [OF i [OF f(1) that(1) l(1) that(2)]] _ h(2,3)] h(1) by simp
    show ?thesis using all [OF f(1) l(2)] all [OF f(2)] assms(3) by (cases "closed_in gB") auto
  qed
qed

end
