(* ===== verification/Spec2Isabelle.thy ===== *)
theory Spec2Isabelle
  imports Udx_Version Udx_Datagram_Io Udx_Entry Udx_Session
begin

text \<open>
  go-udx is a reliable, multiplexed transport over UDP. This library models its Go sources as
  executable functions on explicit states and proves what makes them correct.

  \<^bold>\<open>The program.\<close> A \<^verbatim>\<open>Multiplexer\<close> owns a socket and routes datagrams to connections by destination CID.
  A \<^verbatim>\<open>Connection\<close> queues the packets it is handed, dispatches their frames to its streams and
  components, and sends. It owns a \<^verbatim>\<open>PacketManager\<close> (numbers, tracks, declares lost and re-sends
  packets), a \<^verbatim>\<open>CongestionController\<close> with a \<^verbatim>\<open>PacingController\<close> (window, round-trip time, probe
  timeout, pacing), a \<^verbatim>\<open>FlowController\<close>, an \<^verbatim>\<open>MTUDiscovery\<close>, the \<^verbatim>\<open>recvTracker\<close> that writes ACK frames, and
  the \<^verbatim>\<open>Stream\<close>s, which cut writes into frames and put what arrives back in order. Packets and
  frames have a fixed wire format with CIDs and a version.

  \<^bold>\<open>The theories\<close>, with the file under \<^verbatim>\<open>src/\<close> each one models:
  \<^item> \<open>Udx_Prelude\<close>: machine words, Go's panics, buffer writes and slices, big-endian integers, time,
    truncating division, and the locale \<open>preserved\<close> (an invariant kept by steps is kept by runs),
    interpreted by every component with a step relation; \<open>Udx_Constants\<close>: \<^verbatim>\<open>constants.go\<close>;
  \<^item> \<open>Udx_Cid\<close>: \<^verbatim>\<open>cid.go\<close>; \<open>Udx_Frame\<close>: \<^verbatim>\<open>frame.go\<close>; \<open>Udx_Packet\<close>: \<^verbatim>\<open>packet.go\<close>; \<open>Udx_Version\<close>:
    \<^verbatim>\<open>version.go\<close>. Encoders are the writes they make into a buffer, a write out of range being a panic;
    the locales \<open>frame_codec\<close> and \<open>frame_loop\<close> are what the packet codec needs of the frame codec;
  \<^item> \<open>Udx_Ack_Tracker\<close>: \<^verbatim>\<open>ack_tracker.go\<close>, a bitmap that refines the set of recently received numbers
    (locale \<open>recent_set\<close>);
  \<^item> \<open>Udx_Flow_Control\<close>: \<^verbatim>\<open>flow_control.go\<close> (locale \<open>credit\<close> for both levels), \<open>Udx_Pmtud\<close>: \<^verbatim>\<open>pmtud.go\<close>;
  \<^item> \<open>Udx_Stream\<close>: \<^verbatim>\<open>stream.go\<close> (locale \<open>byte_stream\<close>: what a reader is promised). The calls on the
    connection are returned as a list of \<open>conn_call\<close>s;
  \<^item> \<open>Udx_Float\<close>: IEEE doubles as rationals rounded to 53 bits; \<open>Udx_Pacing\<close>: \<^verbatim>\<open>pacing.go\<close>;
    \<open>Udx_Congestion\<close>: \<^verbatim>\<open>congestion.go\<close>, with the 64-bit wrap-around where the cubic term needs it;
  \<^item> \<open>Udx_Packet_Manager\<close>: \<^verbatim>\<open>packet_manager.go\<close>. Packets are addresses into a memory, since the code
    shares and compares pointers;
  \<^item> \<open>Udx_Connection\<close>: \<^verbatim>\<open>connection.go\<close>, one function per handler, timer and call; \<open>Udx_Safety\<close>: the
    invariant of a connection over all of them; \<open>Udx_Delivery\<close>: what a connection promises the reader of
    one of its streams, lifted from the stream through dispatch and reassembly;
  \<^item> \<open>Udx_Multiplexer\<close>: \<^verbatim>\<open>multiplexer.go\<close>; \<open>Udx_Datagram_Io\<close>: \<^verbatim>\<open>batchconn.go\<close>; \<open>Udx_Entry\<close>: \<^verbatim>\<open>udx.go\<close>,
    \<^verbatim>\<open>clock.go\<close> and \<^verbatim>\<open>cmd/interop-server/main.go\<close>.

  \<^bold>\<open>Conventions.\<close> A Go struct is a record, with a prefix on a field or method name only where two
  types share it; a Go map is an association list; wire integers are words, Go's \<^verbatim>\<open>int\<close> is \<open>int\<close>. The
  clock is an argument, a timer is the instant it fires at (\<open>None\<close>: stopped), and what
  \<^verbatim>\<open>crypto/rand\<close>, the network and the socket return are arguments. A call that waits is cut at its waits:
  a round of it returns that it still waits, and whatever happens meanwhile is another step. A
  panic is a value: \<open>Inl Panic\<close>, or the flag \<open>panicked\<close> of a connection.

  \<^bold>\<open>What the lemmas show.\<close>
  \<^item> End to end (this theory): what one application has read is a prefix of what the other wrote, and
    all of it at the end of the stream, whatever packets the reader's connection handles and whatever
    else it does; a dialled connection and the one its SYN makes find each other;
    only packets that arrived are taken as acknowledged.
  \<^item> Endpoint: no bytes from the network, in any order with the application's calls and the timers,
    make it panic or break the invariant of a connection; a datagram reaches only the connection of its
    CID; packets that overtake their SYN are replayed after it; batched writes send every datagram once.
  \<^item> Wire format: packets and frames parse back from their encoding, the buffer writes of the encoders
    leave exactly the reference encoding, no input makes the parsers panic.
  \<^item> Streams and flow control: reassembly is complete and in order whatever arrives, writes tile the
    data, the receiver's buffer stays within the advertised window, a blocked sender recovers.
  \<^item> Recovery: an ACK frame says exactly what arrived, losses are declared exactly by the two thresholds,
    the loss timer makes progress, every packet is tracked under one number, a lost packet is cut to
    fit the path, the resend loop ends, acknowledgements are sent within the maximum delay.
  \<^item> Congestion: the window has a floor, a burst of losses contracts it once, acknowledgements never
    shrink it, round-trip estimates stay within the samples, a probe timer runs while bytes are in
    flight and backs off, pacing waits long enough. Path MTU discovery finds the size of the path.
  \<^item> Migration needs the answer to the challenge sent to the new address.
  \<^item> Where the code does not do what it means to, a lemma shows it: a stale window update misread, an
    overlapped chunk stranded, a reset undone by a FIN, stream slots and held packets never freed,
    the replies of the interop server ignored.

  \<^bold>\<open>Bounds and fuel.\<close> Loops are structural or have a termination proof, except the resend loop
  \<open>flush_loop\<close>, which takes \<open>flush_rounds\<close> rounds: each round takes the head off the queue or cuts it into
  two or more pieces with at least a byte each, so twice the bytes of each packet and one are enough
  (\<open>flush_rounds_enough\<close>, \<open>flush_loop_stops\<close>). \<open>write_loop\<close> runs for as many rounds as it is given
  environments, and says when it has not returned. Stream lengths are below \<open>2 ^ 64\<close>. Of \<^verbatim>\<open>math.Cbrt\<close>
  the properties of the congestion window assume \<open>cbrt_ok\<close>, the cube of the result being at most twice
  the argument, which \<open>sample_math\<close> meets; and its runs have windows of up to \<open>2 ^ 40\<close> bytes and acknowledgements
  at most an hour after the last loss (\<open>epoch_ok\<close>), since the product in the cubic term wraps after
  some six hours and a double is exact only so far.

  \<^bold>\<open>Not modelled.\<close> Interleavings inside a handler: a handler runs as one step, where the code holds
  several mutexes one after the other, and the goroutines are the steps of \<open>run_step\<close> and \<open>mux_step\<close> in any
  order. Sockets, \<^verbatim>\<open>golang.org/x/net/ipv4\<close>, \<^verbatim>\<open>crypto/rand\<close> and \<^verbatim>\<open>math.Cbrt\<close>, which are not part of the sources,
  are arguments. Accessors that return one field under its mutex, the texts of errors and log
  messages, the interface \<^verbatim>\<open>MetricsObserver\<close>, the struct \<^verbatim>\<open>ConnectionCIDs\<close>, \<^verbatim>\<open>NewTimer\<close>, and constants nothing
  in the package reads have no definition. Go's \<^verbatim>\<open>int\<close> is unbounded except in the cubic term: byte
  counts and durations of a connection stay far below \<open>2 ^ 63\<close>.
\<close>

section \<open>Bytes written are bytes read\<close>

text \<open>
  The frames a run of \<^verbatim>\<open>Write\<close> can put on the wire: the connection cuts what it is handed to the
  chunk size, and cuts a lost frame again when the path has shrunk.
\<close>

inductive carried :: "conn_call list \<Rightarrow> StreamFrame \<Rightarrow> bool" for cs where
  carried_cut: "(off, d) \<in> set (sent_frames cs) \<Longrightarrow> f \<in> set (piece_frames k off d syn False) \<Longrightarrow> carried cs f"
| carried_again: "carried cs g \<Longrightarrow> f \<in> set (piece_frames k (Offset g) (Data g) syn (IsFin g)) \<Longrightarrow> carried cs f"

text \<open>
  The frames of the writer's packets: pieces of that run, the FIN that \<^verbatim>\<open>Close\<close> sends after \<open>n\<close> bytes,
  and frames of other types.
\<close>

fun sent_by :: "conn_call list \<Rightarrow> int \<Rightarrow> Frame \<Rightarrow> bool" where
  "sent_by cs n (Frame.Stream f) \<longleftrightarrow> carried cs f \<or> (IsFin f \<and> Data f = [] \<and> Offset f = word_of_int n)"
| "sent_by cs n _ \<longleftrightarrow> True"

lemma consecutive_segments:
  assumes "consecutive (int k) fs" "concat (map snd fs) = drop k B" "k \<le> length B" "length B < 2 ^ 64" "(off, d) \<in> set fs"
  shows "segment B off d"
  using assms
proof (induction fs arbitrary: k)
  case (Cons f fs)
  obtain o1 d1 where f: "f = (o1, d1)" by (cases f)
  have o1: "unat o1 = k" using Cons.prems by (simp add: f unsigned_of_nat take_bit_nat_eq_self)
  have d1: "drop k B = d1 @ concat (map snd fs)" using Cons.prems(2) by (simp add: f)
  then have l: "k + length d1 \<le> length B" using Cons.prems(3) by (metis add_le_cancel_left le_add_diff_inverse length_append length_drop le_add1)
  show ?case
  proof (cases "(off, d) = f")
    case True
    then show ?thesis using o1 d1 l by (simp add: f segment_def)
  next
    case False
    have "concat (map snd fs) = drop (k + length d1) B" using d1 by (metis add.commute append_eq_conv_conj drop_drop)
    then show ?thesis using Cons.IH [of "k + length d1"] Cons.prems False l by (auto simp: f)
  qed
qed simp

lemma same_length_prefix: "prefix xs ys \<Longrightarrow> length xs = length ys \<Longrightarrow> xs = ys"
  by (auto simp: prefix_def)

lemma carried_segment:
  assumes "carried cs f" "\<And>off d. (off, d) \<in> set (sent_frames cs) \<Longrightarrow> segment B off d" "length B < 2 ^ 64"
  shows "segment B (Offset f) (Data f) \<and> \<not> IsFin f"
  using assms(1)
proof induction
  case (carried_cut off d f k syn)
  then show ?case using piece_frames_segment [OF assms(2,3)] piece_frames_no_fin by blast
next
  case (carried_again g f k syn)
  then have "f \<in> set (piece_frames k (Offset g) (Data g) syn False)" by simp
  then show ?case using piece_frames_segment [OF _ assms(3)] piece_frames_no_fin carried_again.IH by blast
qed

lemma sent_by_piece:
  assumes "\<And>off d. (off, d) \<in> set (sent_frames cs) \<Longrightarrow> segment B off d" "length B < 2 ^ 64" "sent_by cs (int (length B)) f"
  shows "piece_of B f"
proof (cases f)
  case (Stream g)
  have "unat (word_of_int (int (length B)) :: uint64) = length B"
    using assms(2) by (simp add: unsigned_of_nat take_bit_nat_eq_self)
  then show ?thesis
    using assms(3) carried_segment [OF _ assms(1,2), of cs g] by (auto simp: Stream segment_def)
qed simp_all

lemma Write_segments:
  assumes "\<forall>e \<in> set envs. env_ok e" "conn s" "within_credit s" "BytesWritten s = 0" "length p < 2 ^ 64"
    and "Write envs p s = (s', cs, r)"
  obtains n where "n \<le> length p" "BytesWritten s' = int n" "\<forall>t err. r = Some (t, err) \<longrightarrow> t = int n"
    "\<And>off d. (off, d) \<in> set (sent_frames cs) \<Longrightarrow> segment (take n p) off d"
proof -
  have "\<exists>n. wrote p 0 s (Write envs p s) n"
  proof (cases "write_entry s")
    case None
    then show ?thesis using write_loop_wrote [OF assms(1-3), of p 0] by (simp add: Write_def)
  next
    case (Some err)
    then show ?thesis using assms(3) by (intro exI [of _ 0]) (simp add: Write_def wrote_def sent_frames_def)
  qed
  then obtain n where n: "n \<le> length p" "concat (map snd (sent_frames cs)) = take n p" "consecutive 0 (sent_frames cs)"
      "BytesWritten s' = int n" "\<forall>t err. r = Some (t, err) \<longrightarrow> t = int n"
    using assms(4,6) by (fastforce simp: wrote_def split: option.splits)
  have "segment (take n p) off d" if "(off, d) \<in> set (sent_frames cs)" for off d
    using consecutive_segments [of 0 "sent_frames cs" "take n p", OF _ _ _ _ that] n(1-3) assms(5) by simp
  then show thesis using that n by blast
qed


definition writer :: Stream where
  "writer = (NewStream 1 2 (Some (NewStreamFlowController 100 100)))\<lparr>conn := True\<rparr>"

text \<open>The packet the written bytes travel in, for the concrete instance.\<close>

definition sample_carrier :: Packet where
  "sample_carrier = \<lparr>Version = VersionCurrent, DestinationCID = sample_cid, SourceCID = sample_cid, Sequence = 0,
     DestinationStreamID = 1, SourceStreamID = 2,
     Frames = [Frame.Stream \<lparr>IsFin = False, IsSyn = True, Offset = 0, Data = [5, 6, 7]\<rparr>,
       Frame.Stream \<lparr>IsFin = True, IsSyn = False, Offset = 3, Data = []\<rparr>],
     Packet_SentTime = 0, Packet_IsAcked = False, wireLen = 46\<rparr>"

definition sample_reader :: Connection where
  "sample_reader = on_app 3 1 (AppRead 3 9) (HandlePacket sample_math 2 sample_carrier (snd (new_stream 0 StreamStateIdle sample_conn)))"

lemma sample_reader_ends:
  "map_option (\<lambda>s. snd (snd (Read 4 9 s))) (map_of (streams sample_reader) 1) = Some (ReadError EOF)"
  by code_simp


section \<open>What is acknowledged arrived\<close>

lemma recvd_note: "recvd (noteReceived now pkt c) = fst (add (Sequence pkt) (recvd c))"
proof -
  have s: "recvd (sendPacket now dst src fs d) = recvd d" for dst src fs d
    by (simp add: sendPacket_def Let_def put_wire_def encode_def new_packet_def upd_cc_def upd_pm_def
        amplification_blocked_def case_prod_beta split: sum.splits)
  show ?thesis by (simp add: noteReceived_def takeAckLocked_def Let_def case_prod_beta s)
qed

lemma recvd_arrivals: "recvd (arrivals es c) = fold (\<lambda>q r. fst (add q r)) (map (\<lambda>e. Sequence (snd e)) es) (recvd c)"
  by (induction es c rule: arrivals.induct) (simp_all add: recvd_note)

lemma frame_names_arrivals:
  assumes "qs \<noteq> []"
  shows "acked_seqs (frame (tracked qs) d) \<subseteq> set qs" "Max (set qs) \<in> acked_seqs (frame (tracked qs) d)"
proof -
  let ?r = "tracked qs"
  have any: "any_recvd ?r" using assms by (simp add: tracked_any)
  then have l: "has ?r (largest ?r)" using tracked_wf [of qs] by (simp add: wf_tracker_def)
  obtain fin where f: "0 < fin" "ack_positions (frame ?r d) = {p. p < fin \<and> Udx_Ack_Tracker.at ?r p}" using frame_scan [OF any l] by blast
  note a = acked_seqs_at [OF any f(2)]
  show "acked_seqs (frame ?r d) \<subseteq> set qs" unfolding a tracked_received by (auto simp: recent_def)
  have "largest ?r \<in> received ?r" using l by (simp add: received_def)
  then show "Max (set qs) \<in> acked_seqs (frame ?r d)" unfolding a tracked_largest [OF assms, symmetric] using f(1) by simp
qed

text \<open>
  C11: the acknowledgement a connection sends after any arrivals makes the sender's packet manager,
  whatever it did before, drop only packets whose number arrived, and among them the newest one.
\<close>

theorem acked_packets_arrived:
  assumes "es \<noteq> []" "pm_step\<^sup>*\<^sup>* (NewPacketManager mem) pm"
    and "f = fst (takeAckLocked now (arrivals es (NewConnection t0 mem' lcid rcid la ra initiator)))"
    and "HandleAckFrame t f pm = (pm', acked)"
  shows "(\<forall>p \<in> set acked. \<exists>e \<in> set es. Sequence (snd e) = sp_Sequence (cells pm p))
    \<and> (\<forall>p \<in> tracked_ptrs pm. sp_Sequence (cells pm p) = Max ((\<lambda>e. Sequence (snd e)) ` set es) \<longrightarrow> p \<in> set acked)
    \<and> tracked_ptrs pm' = tracked_ptrs pm - set acked"
proof -
  let ?qs = "map (\<lambda>e. Sequence (snd e)) es"
  have "recvd (NewConnection t0 mem' lcid rcid la ra initiator) = newTracker"
    by (simp add: NewConnection_def startIdleTimer_def armIdleCheck_def)
  then obtain d where f: "f = frame (tracked ?qs) d"
    using assms(3) by (auto simp: takeAckLocked_def Let_def recvd_arrivals tracked_def)
  have wf: "wf_pm pm" using pm_inv_run [OF assms(2)] by (simp add: pm_inv_def)
  note s = HandleAckFrame_spec [OF wf assms(4)]
  note n = frame_names_arrivals [of ?qs d, folded f]
  have ne: "?qs \<noteq> []" using assms(1) by simp
  show ?thesis
  proof (intro conjI ballI impI)
    fix p assume "p \<in> set acked"
    then have "sp_Sequence (cells pm p) \<in> set ?qs" using s(1) n(1) [OF ne] by blast
    then show "\<exists>e \<in> set es. Sequence (snd e) = sp_Sequence (cells pm p)" by force
  next
    fix p assume "p \<in> tracked_ptrs pm" "sp_Sequence (cells pm p) = Max ((\<lambda>e. Sequence (snd e)) ` set es)"
    then show "p \<in> set acked" using s(1) n(2) [OF ne] by auto
  qed (rule s(3))
qed

definition one_sent :: PacketManager where
  "one_sent = SendPacket 1 0 (NewPacketManager (\<lambda>_. sample_packet 0))"

lemma one_sent_run: "pm_step\<^sup>*\<^sup>* (NewPacketManager (\<lambda>_. sample_packet 0)) one_sent"
  unfolding one_sent_def by (intro r_into_rtranclp step_send) (simp add: NewPacketManager_def sample_packet_def)

theorem acked_packets_arrived_witness:
  "tracked_ptrs one_sent = {0}
   \<and> set (snd (HandleAckFrame 5 (fst (takeAckLocked 3 (arrivals [(1, sample_pkt 0 False)] sample_conn))) one_sent)) = {0}"
proof -
  let ?f = "fst (takeAckLocked 3 (arrivals [(1, sample_pkt 0 False)] sample_conn))"
  obtain pm' acked where r: "HandleAckFrame 5 ?f one_sent = (pm', acked)" by fastforce
  have t: "tracked_ptrs one_sent = {0}" "sp_Sequence (cells one_sent 0) = 0"
    by (simp_all add: one_sent_def SendPacket_def NewPacketManager_def tracked_ptrs_def sample_packet_def)
  have "wf_pm one_sent" using pm_inv_run [OF one_sent_run] by (simp add: pm_inv_def)
  from HandleAckFrame_spec(1) [OF this r] have "set acked \<subseteq> {0}" using t(1) by auto
  moreover have "Sequence (sample_pkt 0 False) = 0" by (simp add: sample_pkt_def)
  ultimately have "set acked = {0}"
    using acked_packets_arrived [OF _ one_sent_run refl r [unfolded sample_conn_def]] t by auto
  then show ?thesis using t(1) unfolding r by simp
qed

section \<open>A dialled connection and its peer\<close>

lemma sendPacket_outbox:
  assumes "conn_inv c" "list_all wf_frame fs" "addrValidated c" "list_ex data_frame fs"
  shows "outbox (sendPacket now dst src fs c)
    = outbox c @ [(packet_bytes (conn_packet c (nextSeq (c_pm c)) dst src fs), remoteAddr c)]"
proof -
  note i = inv_next [OF assms(1), of "nextSeq (c_pm c) + 1"]
  have "conn_packet (c\<lparr>c_pm := pm\<rparr>) seq dst src fs = conn_packet c seq dst src fs" for pm seq
    by (simp add: conn_packet_def)
  then show ?thesis
    using assms(3,4) encode_conn [OF i assms(2), of "nextSeq (c_pm c)" dst src]
    by (simp add: sendPacket_def NextSequence_def Let_def new_packet_def upd_pm_def upd_cc_def amplification_blocked_def
        put_wire_def)
qed

lemma sendPacket_identity:
  "localCID (sendPacket now dst src fs c) = localCID c" "remoteCID (sendPacket now dst src fs c) = remoteCID c"
  "remoteAddr (sendPacket now dst src fs c) = remoteAddr c" "inbound (sendPacket now dst src fs c) = inbound c"
  using core_sendPacket [of now dst src fs c]
  by (simp_all add: core_def)
     (simp add: sendPacket_def Let_def put_wire_def encode_def new_packet_def upd_cc_def upd_pm_def
      amplification_blocked_def case_prod_beta split: sum.splits)

definition syn_only :: Frame where
  "syn_only = Frame.Stream \<lparr>IsFin = False, IsSyn = True, Offset = 0, Data = []\<rparr>"

lemma Dial_makes:
  assumes "Dial now mem rnd1 rnd2 b m = (m', Inr p)" "reader_ok rnd1" "reader_ok rnd2"
  obtains lcid rcid where "wf_cid lcid" "wf_cid rcid" "p = length (conns m)"
    "conns m' = conns m @ [sendPacket now 0 0 [syn_only] (established (NewConnection now mem lcid rcid (mux_addr m) (Some b) True))]"
    "connections m' = AList.update (String lcid) p (connections m)"
proof -
  obtain lcid rcid where cids: "RandomConnectionID rnd1 (int DefaultCIDLength) = Inr lcid"
      "RandomConnectionID rnd2 (int DefaultCIDLength) = Inr rcid"
    using assms(1) by (auto simp: Dial_def simp del: DefaultCIDLength_def split: sum.splits)
  have "wf_cid lcid" "wf_cid rcid" using RandomConnectionID_wf cids assms(2,3) by blast+
  then show thesis
    using assms(1) by (auto simp: Dial_def cids Let_def sendFrames_def syn_only_def intro!: that [of lcid rcid] simp del: DefaultCIDLength_def)
qed

lemma Dial_connection:
  assumes "Dial now mem rnd1 rnd2 b m = (m', Inr p)" "reader_ok rnd1" "reader_ok rnd2"
  defines "c \<equiv> conns m' ! p"
  shows "p = length (conns m)" "map_of (connections m') (String (localCID c)) = Some p" "p < length (conns m')"
    "wf_cid (localCID c)" "wf_cid (remoteCID c)" "remoteAddr c = Some b" "inbound c = []"
    "outbox c = [(packet_bytes (conn_packet c 0 0 0 [syn_only]), Some b)]"
proof -
  obtain lcid rcid where wf: "wf_cid lcid" "wf_cid rcid" and m': "p = length (conns m)"
      "conns m' = conns m @ [sendPacket now 0 0 [syn_only] (established (NewConnection now mem lcid rcid (mux_addr m) (Some b) True))]"
      "connections m' = AList.update (String lcid) p (connections m)"
    by (rule Dial_makes [OF assms(1-3)])
  let ?n = "established (NewConnection now mem lcid rcid (mux_addr m) (Some b) True)"
  have c: "c = sendPacket now 0 0 [syn_only] ?n" by (simp add: c_def m')
  have n: "conn_inv ?n" "addrValidated ?n" "outbox ?n = []" "nextSeq (c_pm ?n) = 0" "remoteAddr ?n = Some b" "inbound ?n = []"
      "localCID ?n = lcid" "remoteCID ?n = rcid"
    using inv_NewConnection [OF wf, of now mem "mux_addr m" "Some b" True]
    by (simp_all add: established_def inv_simps) (simp_all add: NewConnection_def startIdleTimer_def armIdleCheck_def NewPacketManager_def)
  have "conn_packet c 0 0 0 fs = conn_packet ?n 0 0 0 fs" for fs by (simp add: conn_packet_def c sendPacket_identity)
  then show "outbox c = [(packet_bytes (conn_packet c 0 0 0 [syn_only]), Some b)]"
    using sendPacket_outbox [OF n(1), of "[syn_only]" now 0 0] n by (simp add: c syn_only_def)
  show "p = length (conns m)" "map_of (connections m') (String (localCID c)) = Some p" "p < length (conns m')"
    "wf_cid (localCID c)" "wf_cid (remoteCID c)" "remoteAddr c = Some b" "inbound c = []"
    using m' n wf by (simp_all add: c sendPacket_identity update_conv')
qed

lemma conn_packet_fields [simp]:
  "Version (conn_packet c seq dst src fs) = VersionCurrent" "DestinationCID (conn_packet c seq dst src fs) = remoteCID c"
  "SourceCID (conn_packet c seq dst src fs) = localCID c" "Frames (conn_packet c seq dst src fs) = fs"
  by (simp_all add: conn_packet_def)

lemma conn_packet_parses:
  assumes "wf_cid (localCID c)" "wf_cid (remoteCID c)" "list_all frame_ok fs" "packet_fits (conn_packet c seq dst src fs)"
  shows "UnmarshalPacket (packet_bytes (conn_packet c seq dst src fs))
    = Inr ((conn_packet c seq dst src fs)\<lparr>wireLen := length (packet_bytes (conn_packet c seq dst src fs))\<rparr>)"
proof -
  have "wf_packet (conn_packet c seq dst src fs)" using assms by (auto simp: wf_packet_def frame_ok_def list_all_iff)
  from UnmarshalPacket_bytes [OF this assms(4)] show ?thesis by (simp add: conn_packet_def)
qed

text \<open>The listener's side: what the SYN of \<^verbatim>\<open>Dial\<close> makes of an endpoint that does not know its CID.\<close>

lemma SYN_makes:
  fixes t memB rndB a
  assumes "Dial now mem rnd1 rnd2 b mA = (mA', Inr p)" "reader_ok rnd1" "reader_ok rnd2"
    and "map_of (connections mB) (String (remoteCID (conns mA' ! p))) = None"
    and "map_of (earlyPackets mB) (String (remoteCID (conns mA' ! p))) = None"
  defines "cA \<equiv> conns mA' ! p"
  defines "syn \<equiv> (conn_packet cA 0 0 0 [syn_only])\<lparr>wireLen := length (packet_bytes (conn_packet cA 0 0 0 [syn_only]))\<rparr>"
  defines "mB' \<equiv> handleDatagram t memB rndB (packet_bytes (conn_packet cA 0 0 0 [syn_only])) a mB"
  shows "conns mB' = conns mB @ [enqueue syn (established (NewConnection t memB (remoteCID cA) (localCID cA) (mux_addr mB) (Some a) False))]"
    "connections mB' = AList.update (String (remoteCID cA)) (length (conns mB)) (connections mB)"
    "UnmarshalPacket (packet_bytes (conn_packet cA 0 0 0 [syn_only])) = Inr syn"
proof -
  note d = Dial_connection [OF assms(1-3), folded cA_def]
  show u: "UnmarshalPacket (packet_bytes (conn_packet cA 0 0 0 [syn_only])) = Inr syn"
    unfolding syn_def using d(4,5) by (intro conn_packet_parses) (simp_all add: syn_only_def frame_ok_def packet_fits_def)
  have "mB' = accept_syn t memB (String (remoteCID cA)) syn a mB"
    using assms(4) u by (simp add: mB'_def handleDatagram_def syn_def syn_only_def cA_def)
  then show "conns mB' = conns mB @ [enqueue syn (established (NewConnection t memB (remoteCID cA) (localCID cA) (mux_addr mB) (Some a) False))]"
    "connections mB' = AList.update (String (remoteCID cA)) (length (conns mB)) (connections mB)"
    using assms(5) by (simp_all add: accept_syn_def Let_def held_def syn_def cA_def)
qed

text \<open>
  C8: a dialled connection and the one its SYN makes at the listener find each other. \<^verbatim>\<open>Dial\<close> sends
  exactly one datagram, to the address dialled; handed to a listener that knows nothing of its CID, it
  makes an established connection with the two CIDs swapped, routed to under its local CID and with the
  SYN as its first packet; and any packet that connection then sends, when it reaches the dialling
  endpoint, is queued at the dialled connection.
\<close>

theorem dial_reaches_listener:
  assumes "Dial now mem rnd1 rnd2 b mA = (mA', Inr p)" "reader_ok rnd1" "reader_ok rnd2"
    and "map_of (connections mB) (String (remoteCID (conns mA' ! p))) = None"
    and "map_of (earlyPackets mB) (String (remoteCID (conns mA' ! p))) = None"
  shows "\<exists>data. outbox (conns mA' ! p) = [(data, Some b)]
    \<and> (let cA = conns mA' ! p; mB' = handleDatagram t memB rndB data a mB; q = length (conns mB); cB = conns mB' ! q
       in localCID cB = remoteCID cA \<and> remoteCID cB = localCID cA \<and> remoteAddr cB = Some a
          \<and> c_state cB = ConnStateEstablished \<and> map_of (connections mB') (String (localCID cB)) = Some q
          \<and> map Frames (inbound cB) = [[syn_only]]
          \<and> (\<forall>seq dst src fs. list_all frame_ok fs \<and> packet_fits (conn_packet cB seq dst src fs)
               \<longrightarrow> map Frames (inbound (conns (handleDatagram t' mem rndA (packet_bytes (conn_packet cB seq dst src fs)) b mA') ! p)) = [fs]))"
proof -
  note d = Dial_connection [OF assms(1-3)]
  let ?cA = "conns mA' ! p" and ?q = "length (conns mB)"
  let ?syn = "conn_packet ?cA 0 0 0 [syn_only]"
  let ?data = "packet_bytes ?syn"
  let ?mB = "handleDatagram t memB rndB ?data a mB"
  let ?cB = "conns ?mB ! ?q"
  define syn where "syn = ?syn\<lparr>wireLen := length ?data\<rparr>"
  note b = SYN_makes(1,2) [where t = t and memB = memB and rndB = rndB and a = a, OF assms, folded syn_def]
  have B: "localCID ?cB = remoteCID ?cA" "remoteCID ?cB = localCID ?cA" "remoteAddr ?cB = Some a" "c_state ?cB = ConnStateEstablished"
      "map_of (connections ?mB) (String (remoteCID ?cA)) = Some ?q" "inbound ?cB = [syn]"
    by (simp_all add: b(1,2) enqueue_def update_conv' established_def) (simp_all add: NewConnection_def startIdleTimer_def armIdleCheck_def)
  have reply: "map Frames (inbound (conns (handleDatagram t' mem rndA (packet_bytes (conn_packet ?cB seq dst src fs)) b mA') ! p)) = [fs]"
    if h: "list_all frame_ok fs" "packet_fits (conn_packet ?cB seq dst src fs)" for seq dst src fs
  proof -
    have "wf_cid (localCID ?cB)" "wf_cid (remoteCID ?cB)" using B(1,2) d(4,5) by simp_all
    from conn_packet_parses [OF this h] show ?thesis
      using d(2,3,6,7) B(2) by (simp add: handleDatagram_def set_conn_def removeConnection_def Let_def observeAddr_def enqueue_def)
  qed
  show ?thesis
    using d(8) B reply by (intro exI [of _ ?data] conjI) (simp_all add: Let_def syn_def)
qed

text \<open>Two endpoints for the concrete instance, with \<^verbatim>\<open>crypto/rand\<close> returning ones and then twos.\<close>

definition dialler :: "Multiplexer \<times> conn_ptr result" where
  "dialler = Dial 1 (\<lambda>_. sample_packet 0) (\<lambda>n. Some (replicate n 1)) (\<lambda>n. Some (replicate n 2)) ''b'' (NewMultiplexer ''a'')"

theorem dial_reaches_listener_witness:
  "snd dialler = Inr 0
   \<and> (\<exists>data. outbox (conns (fst dialler) ! 0) = [(data, Some ''b'')]
      \<and> map Frames (inbound (conns (handleDatagram 2 (\<lambda>_. sample_packet 0) None data ''a'' (NewMultiplexer ''b'')) ! 0)) = [[syn_only]])"
proof -
  have "snd dialler = Inr 0"
    by (simp add: dialler_def Dial_def RandomConnectionID_def Let_def NewMultiplexer_def)
  then have r: "Dial 1 (\<lambda>_. sample_packet 0) (\<lambda>n. Some (replicate n 1)) (\<lambda>n. Some (replicate n 2)) ''b'' (NewMultiplexer ''a'')
      = (fst dialler, Inr 0)"
    unfolding dialler_def by (metis prod.collapse)
  have k: "reader_ok (\<lambda>n. Some (replicate n 1))" "reader_ok (\<lambda>n. Some (replicate n 2))" by (simp_all add: reader_ok_def)
  have e: "map_of (connections (NewMultiplexer ''b'')) key = None" "map_of (earlyPackets (NewMultiplexer ''b'')) key = None"
      "length (conns (NewMultiplexer ''b'')) = 0" for key
    by (simp_all add: NewMultiplexer_def)
  have "\<exists>data. outbox (conns (fst dialler) ! 0) = [(data, Some ''b'')]
      \<and> map Frames (inbound (conns (handleDatagram 2 (\<lambda>_. sample_packet 0) None data ''a'' (NewMultiplexer ''b'')) ! 0)) = [[syn_only]]"
    using dial_reaches_listener [OF r k e(1) e(2), of 2 "\<lambda>_. sample_packet 0" None "''a''" 3 None]
    unfolding e(3) Let_def by (elim exE conjE) (intro exI conjI; assumption)
  then show ?thesis using \<open>snd dialler = Inr 0\<close> by simp
qed

section \<open>A dialled session\<close>

lemma session_inv_start:
  assumes "\<And>r W V. sends (own r k W Map.empty) (heard r k V Map.empty) cA" "streams cA = []" "0 < unat (nextStreamID cA)"
    and "\<And>r W V. sends (own r k W Map.empty) (heard r k V Map.empty) cB" "streams cB = []" "0 < unat (nextStreamID cB)"
  shows "session_inv k ((cA, blank), (cB, blank))"
proof -
  have e: "remote cA = Map.empty" "remote cB = Map.empty" using assms(2,5) by (simp_all add: remote_def tags_def)
  show ?thesis using side_inv_start [OF assms(2,3,1)] side_inv_start [OF assms(5,6,4)] by (simp add: session_inv_def e)
qed

lemma established_starts:
  assumes "wf_cid x" "wf_cid y"
  shows "sends P Q (established (NewConnection now mem x y la ra i))" "streams (established (NewConnection now mem x y la ra i)) = []"
    "0 < unat (nextStreamID (established (NewConnection now mem x y la ra i)))"
  using sends_new [OF assms, of P Q now mem la ra i]
  by (simp_all add: established_def sends_def said_simps inv_simps)
     (simp_all add: NewConnection_def startIdleTimer_def armIdleCheck_def)

lemma dialled_session:
  assumes "Dial now mem rnd1 rnd2 b mA = (mA', Inr p)" "reader_ok rnd1" "reader_ok rnd2"
    and "map_of (connections mB) (String (remoteCID (conns mA' ! p))) = None"
    and "map_of (earlyPackets mB) (String (remoteCID (conns mA' ! p))) = None"
    and "outbox (conns mA' ! p) = [(data, Some b)]"
  shows "session_inv k ((conns mA' ! p, blank), (conns (handleDatagram t memB rndB data a mB) ! length (conns mB), blank))"
proof -
  obtain x y where wf: "wf_cid x" "wf_cid y" and m': "p = length (conns mA)"
      "conns mA' = conns mA @ [sendPacket now 0 0 [syn_only] (established (NewConnection now mem x y (mux_addr mA) (Some b) True))]"
    by (rule Dial_makes [OF assms(1-3)])
  note d = Dial_connection [OF assms(1-3)]
  have data: "data = packet_bytes (conn_packet (conns mA' ! p) 0 0 0 [syn_only])" using d(8) assms(6) by simp
  note b = SYN_makes(1,2) [where t = t and memB = memB and rndB = rndB and a = a, OF assms(1-5), folded data]
  have own: "own r k W L 0 0 f" for r W L f by (simp add: own_def)
  have syn: "wf_frame syn_only" "few_ranges syn_only" by (simp_all add: syn_only_def)
  have steady: "streams (sendPacket now 0 0 [syn_only] c) = streams c" "nextStreamID (sendPacket now 0 0 [syn_only] c) = nextStreamID c" for c
    using core_sendPacket [of now 0 0 "[syn_only]" c] by (simp_all add: core_def)
  have "sends (own r k W Map.empty) (heard r k V Map.empty) (conns mA' ! p)" for r W V
    using own.sends_sendPacket [OF established_starts(1) [OF wf] syn(1) own syn(2)] by (simp add: m')
  moreover have "heard r k V Map.empty ((conn_packet (conns mA' ! p) 0 0 0 [syn_only])\<lparr>wireLen := length data\<rparr>)" for r V
    by (simp add: heard_def own conn_packet_def)
  then have "sends (own r k W Map.empty) (heard r k V Map.empty) (conns (handleDatagram t memB rndB data a mB) ! length (conns mB))" for r W V
    using own.sends_enqueue [OF established_starts(1) [OF d(5,4)] conjunct1 [OF UnmarshalPacket_sound [OF SYN_makes(3) [OF assms(1-5), folded data]]]]
    by (simp add: b(1))
  ultimately show ?thesis
    using established_starts(2,3) [OF wf] established_starts(2,3) [OF d(5,4)] 
    by (intro session_inv_start) (simp_all add: m' steady b(1) enqueue_def)
qed

text \<open>
  C1: two applications talk over a dialled connection. \<^verbatim>\<open>Dial\<close> at one endpoint and the SYN at the other
  make the two connections; from there on both run as they like, each application calling what it
  likes on any stream, timers firing, packets being acknowledged, declared lost and sent again, cut
  to the path; and the network loses, delays, duplicates and reorders the datagrams that were really
  sent, and invents packets without STREAM frames. On the stream that the dialling side opens as its stream
  \<open>k\<close>, in both directions: what one application has read is a prefix of what the other has put in; and
  one that is told the stream has ended has read all of it, and the other has closed it. The one thing
  asked of the applications is that neither writes to that stream after closing it; and neither side
  may have used up its stream IDs.
\<close>

theorem dialled_stream_delivers:
  assumes "Dial now mem rnd1 rnd2 b mA = (mA', Inr p)" "reader_ok rnd1" "reader_ok rnd2"
    and "map_of (connections mB) (String (remoteCID (conns mA' ! p))) = None"
    and "map_of (earlyPackets mB) (String (remoteCID (conns mA' ! p))) = None"
    and "outbox (conns mA' ! p) = [(data, Some b)]" "k \<noteq> 0"
    and "(session_step gm k)\<^sup>*\<^sup>*
           ((conns mA' ! p, blank), (conns (handleDatagram t memB rndB data a mB) ! length (conns mB), blank)) ((cA, gA), (cB, gB))"
    and "length (put_in gA) + 1 < 2 ^ 64" "length (put_in gB) + 1 < 2 ^ 64"
  shows "prefix (taken_out gB) (put_in gA) \<and> prefix (taken_out gA) (put_in gB)
    \<and> (\<forall>j s. remote cB j = Some k \<and> map_of (streams cB) j = Some s \<and> at_eof (s, taken_out gB)
         \<longrightarrow> taken_out gB = put_in gA \<and> closed_in gA)
    \<and> (\<forall>s. remote cA k = Some 0 \<and> map_of (streams cA) k = Some s \<and> at_eof (s, taken_out gA)
         \<longrightarrow> taken_out gA = put_in gB \<and> closed_in gB)"
proof -
  have "session_inv k ((cA, gA), (cB, gB))"
    using session_run.run [OF assms(8)] dialled_session [OF assms(1-6)] assms(7) by blast
  from session_reads [OF this assms(9,10)] show ?thesis by blast
qed

end
